(* ===== verification/Prelude.thy ===== *)
theory Prelude
  imports Main "HOL-Library.Word" "HOL-Library.Signed_Division"
begin

text \<open>
  Shared vocabulary of the development: the result type of C code that may run into undefined
  behaviour, the wrap-around of C's integer types, character buffers and C strings, and the
  generic list lemmas the component theories rely on.
\<close>

named_theorems res_simps \<open>rewriting of computations that may fault\<close>
named_theorems buf_simps \<open>reads and writes of character buffers\<close>

section \<open>Computations that may fault\<close>

text \<open>
  Undefined behaviour of the C code (a null dereference, a use after free, an access outside an
  array, a division by zero) is a value of the model, so that the absence of undefined behaviour
  is a statement that can be proved and its presence a statement that can be exhibited.
\<close>

datatype fault =
    NullDeref
  | UseAfterFree
  | BufferOverflow
  | OutOfBounds
  | DivByZero
  | Uninitialised

type_synonym 'a res = "fault + 'a"

abbreviation ok :: "'a \<Rightarrow> 'a res" where
  "ok \<equiv> Inr"

abbreviation fault :: "fault \<Rightarrow> 'a res" where
  "fault \<equiv> Inl"

definition rbind :: "'a res \<Rightarrow> ('a \<Rightarrow> 'b res) \<Rightarrow> 'b res" where
  "rbind m k = (case m of Inl e \<Rightarrow> Inl e | Inr a \<Rightarrow> k a)"

lemma rbind_Inr [simp, res_simps]: "rbind (Inr a) k = k a"
  by (simp add: rbind_def)

lemma rbind_Inl [simp, res_simps]: "rbind (Inl e) k = Inl e"
  by (simp add: rbind_def)

lemma rbind_assoc [res_simps]: "rbind (rbind m f) g = rbind m (\<lambda>x. rbind (f x) g)"
  by (cases m) simp_all

lemma rbind_eq_Inr [res_simps]: "rbind m k = Inr b \<longleftrightarrow> (\<exists>a. m = Inr a \<and> k a = Inr b)"
  by (cases m) simp_all

lemma rbind_cong [fundef_cong]:
  "m = m' \<Longrightarrow> (\<And>a. m' = Inr a \<Longrightarrow> k a = k' a) \<Longrightarrow> rbind m k = rbind m' k'"
  by (cases m') simp_all

lemma rbind_split:
  "P (rbind m k) \<longleftrightarrow> (\<forall>e. m = Inl e \<longrightarrow> P (Inl e)) \<and> (\<forall>a. m = Inr a \<longrightarrow> P (k a))"
  by (cases m) simp_all

section \<open>Machine integers\<close>

text \<open>
  \<open>int\<close> is 32 bits wide, \<open>long long\<close> and \<open>mem_size_t\<close> are 64 bits wide. Values are kept as
  \<open>int\<close> or \<open>nat\<close> and every operation of the source that may leave the range is wrapped by
  the functions below. C's \<open>/\<close> and \<open>%\<close> truncate towards zero: \<open>sdiv\<close> and \<open>smod\<close>.
\<close>

definition i32 :: "int \<Rightarrow> int" where
  "i32 x = (x + 2 ^ 31) mod 2 ^ 32 - 2 ^ 31"

definition i8 :: "int \<Rightarrow> int" where
  "i8 x = (x + 128) mod 256 - 128"

definition i64 :: "int \<Rightarrow> int" where
  "i64 x = (x + 2 ^ 63) mod 2 ^ 64 - 2 ^ 63"

definition u64 :: "int \<Rightarrow> nat" where
  "u64 x = nat (x mod 2 ^ 64)"

lemma i32_id [simp]: "- (2 ^ 31) \<le> x \<Longrightarrow> x < 2 ^ 31 \<Longrightarrow> i32 x = x"
  by (simp add: i32_def)

lemma i64_id [simp]: "- (2 ^ 63) \<le> x \<Longrightarrow> x < 2 ^ 63 \<Longrightarrow> i64 x = x"
  by (simp add: i64_def)

lemma u64_id [simp]: "n < 2 ^ 64 \<Longrightarrow> u64 (int n) = n"
  by (simp add: u64_def zmod_int flip: of_nat_power)

lemma i32_range: "- (2 ^ 31) \<le> i32 x \<and> i32 x < 2 ^ 31"
proof -
  have "0 \<le> (x + 2 ^ 31) mod 2 ^ 32 \<and> (x + 2 ^ 31) mod 2 ^ 32 < (2 ^ 32 :: int)"
    by simp
  then show ?thesis
    by (simp add: i32_def)
qed

lemma smod_nonneg [simp]: "0 \<le> a \<Longrightarrow> 0 \<le> b \<Longrightarrow> (a::int) smod b = a mod b"
  by (cases "b = 0"; cases "a = 0") (auto simp: signed_modulo_int_def sgn_if)

lemma sdiv_nonneg [simp]: "0 \<le> a \<Longrightarrow> 0 \<le> b \<Longrightarrow> (a::int) sdiv b = a div b"
  by (cases "b = 0"; cases "a = 0") (auto simp: signed_divide_int_def sgn_if)

section \<open>Lists\<close>

lemma take_Suc_update [simp]: "k < length xs \<Longrightarrow> take (Suc k) (xs[k := v]) = take k xs @ [v]"
  by (simp add: take_Suc_conv_app_nth)

lemma count_update:
  "i < length xs \<Longrightarrow>
    int (length (filter P (xs[i := v]))) = int (length (filter P xs)) + of_bool (P v) - of_bool (P (xs ! i))"
proof -
  assume i: "i < length xs"
  have "length (filter P xs) = length (filter P (take i xs)) + of_bool (P (xs ! i)) + length (filter P (drop (Suc i) xs))"
    using i by (subst id_take_nth_drop [OF i]) simp
  moreover have "length (filter P (xs[i := v])) = length (filter P (take i xs)) + of_bool (P v) + length (filter P (drop (Suc i) xs))"
    using i by (subst upd_conv_take_nth_drop [OF i]) simp
  ultimately show ?thesis by simp
qed

section \<open>Ring indices\<close>

lemma ring_distinct:
  assumes "j < n" and "n < m" shows "(f + n) mod m \<noteq> (f + j) mod (m::nat)"
proof
  assume "(f + n) mod m = (f + j) mod m"
  then have "m dvd (f + n) - (f + j)" using assms by (metis add_le_cancel_left less_imp_le mod_eq_dvd_iff_nat)
  then show False using assms by (auto dest: dvd_imp_le)
qed

lemma ring_covers:
  assumes "k < m" shows "\<exists>j<m. (f + j) mod m = (k::nat)"
proof (intro exI conjI)
  let ?j = "(k + m - f mod m) mod m"
  show "?j < m" using assms by simp
  have "f mod m < m" using assms by simp
  then have le: "f mod m \<le> k + m" by simp
  have "(f + ?j) mod m = (f mod m + (k + m - f mod m)) mod m" by (simp add: mod_simps)
  also have "\<dots> = (k + m) mod m" using le by simp
  finally show "(f + ?j) mod m = k" using assms by simp
qed

end
