(* ===== verification/CString.thy ===== *)
theory CString
  imports Prelude
begin

text \<open>
  Character buffers, C strings and the string helpers of the server: \<open>Stringcut\<close>
  (src/src/String.c) and \<open>StrSplit\<close>, \<open>releaseStr\<close> (src/src/StrSplit.c). A \<open>char b[n]\<close> is a
  \<open>string\<close> of length \<open>n\<close>; its C string is the part before the first NUL. Every read and write
  outside the buffer is a fault.
\<close>

section \<open>Buffers\<close>

type_synonym buf = string

abbreviation NUL :: char where
  "NUL \<equiv> CHR 0x00"

definition cstr :: "buf \<Rightarrow> string" where
  "cstr b = takeWhile (\<lambda>c. c \<noteq> NUL) b"

definition terminated :: "buf \<Rightarrow> bool" where
  "terminated b \<longleftrightarrow> NUL \<in> set b"

text \<open>A plain \<open>char\<close> is signed in this build.\<close>

definition schar :: "char \<Rightarrow> int" where
  "schar c = (if (of_char c :: int) < 128 then of_char c else of_char c - 256)"

definition char_of_int :: "int \<Rightarrow> char" where
  "char_of_int v = char_of (nat (v mod 256))"

definition rd :: "'a list \<Rightarrow> int \<Rightarrow> 'a res" where
  "rd b i = (if 0 \<le> i \<and> i < int (length b) then ok (b ! nat i) else fault OutOfBounds)"

definition wr :: "'a list \<Rightarrow> int \<Rightarrow> 'a \<Rightarrow> 'a list res" where
  "wr b i c = (if 0 \<le> i \<and> i < int (length b) then ok (b[nat i := c]) else fault BufferOverflow)"

definition put :: "buf \<Rightarrow> string \<Rightarrow> buf res" where
  "put dst s = (if length s \<le> length dst then ok (s @ drop (length s) dst) else fault BufferOverflow)"

definition strlen :: "buf \<Rightarrow> nat res" where
  "strlen b = (if terminated b then ok (length (cstr b)) else fault OutOfBounds)"

definition str_of :: "buf \<Rightarrow> string res" where
  "str_of b = (if terminated b then ok (cstr b) else fault OutOfBounds)"

definition memcpy :: "buf \<Rightarrow> buf \<Rightarrow> nat \<Rightarrow> buf res" where
  "memcpy dst src n = (if n \<le> length src then put dst (take n src) else fault OutOfBounds)"

definition memset :: "buf \<Rightarrow> char \<Rightarrow> nat \<Rightarrow> buf res" where
  "memset dst c n = put dst (replicate n c)"

definition strcpy :: "buf \<Rightarrow> buf \<Rightarrow> buf res" where
  "strcpy dst src = rbind (str_of src) (\<lambda>s. put dst (s @ [NUL]))"

definition sprintf :: "buf \<Rightarrow> string \<Rightarrow> buf res" where
  "sprintf dst s = put dst (s @ [NUL])"

text \<open>
  \<open>strcmp(a, b) == 0\<close>. The comparison byte by byte is \<open>strcmp_bytes\<close>: it leaves a buffer only when the other
  buffer holds the same bytes and no NUL up to there. The functions of the server compare a field with a
  terminated string that is shorter than the field; then this fault cannot occur, and the result is
  \<open>strcmp_eq\<close> (lemma \<open>strcmp_reads\<close>).
\<close>

fun strcmp_bytes :: "buf \<Rightarrow> buf \<Rightarrow> bool res" where
  "strcmp_bytes (x # xs) (y # ys) = (if x \<noteq> y then ok False else if x = NUL then ok True else strcmp_bytes xs ys)"
| "strcmp_bytes _ _ = fault OutOfBounds"

definition strcmp_eq :: "buf \<Rightarrow> buf \<Rightarrow> bool" where
  "strcmp_eq a b \<longleftrightarrow> cstr a = cstr b"

section \<open>Stringcut and StrSplit\<close>

text \<open>
  \<open>for (i = m; i \<le> n; i++) des[i-m] = str[i];  des[i-m] = '\0';\<close>
\<close>

function Stringcut_loop :: "buf \<Rightarrow> int \<Rightarrow> int \<Rightarrow> int \<Rightarrow> buf \<Rightarrow> buf res" where
  "Stringcut_loop str m n i des =
     (if i \<le> n
      then rbind (rd str i) (\<lambda>c. rbind (wr des (i - m) c) (\<lambda>des'. Stringcut_loop str m n (i + 1) des'))
      else wr des (i - m) NUL)"
  by pat_completeness auto
termination
  by (relation "measure (\<lambda>(str, m, n, i, des). nat (n + 1 - i))") auto

definition Stringcut :: "buf \<Rightarrow> int \<Rightarrow> int \<Rightarrow> buf \<Rightarrow> buf res" where
  "Stringcut str m n des = Stringcut_loop str m n m des"

text \<open>
  The first loop of \<open>StrSplit\<close> counts the delimiters, the second one cuts the pieces. The state
  of the second loop is \<open>i, k, m\<close> and the vector \<open>outStr\<close> (its first \<open>l\<close> entries). \<open>mok l\<close> says
  that the \<open>malloc\<close> of piece \<open>l\<close> succeeds, \<open>junk\<close> is what fresh memory holds; the vector has room for
  \<open>j\<close> pieces. In \<open>StrSplit\<close> the first allocation is that of the vector: when it fails, the null pointer is
  written to at the first delimiter, or returned if there is none. The result is the vector (or the null pointer) and the value of \<open>*outBufferLen\<close>,
  which a failed allocation leaves as it was.
\<close>

function StrSplit_count :: "buf \<Rightarrow> int \<Rightarrow> char \<Rightarrow> int \<Rightarrow> int \<Rightarrow> int res" where
  "StrSplit_count srcStr srcStrLen delim i j =
     (if i < srcStrLen
      then rbind (rd srcStr i) (\<lambda>c. StrSplit_count srcStr srcStrLen delim (i + 1)
                                     (if c = delim then j + 1 else j))
      else ok j)"
  by pat_completeness auto
termination
  by (relation "measure (\<lambda>(s, n, d, i, j). nat (n - i))") auto

function StrSplit_cut ::
  "(nat \<Rightarrow> bool) \<Rightarrow> char \<Rightarrow> buf \<Rightarrow> int \<Rightarrow> char \<Rightarrow> int \<Rightarrow> int \<Rightarrow> int \<Rightarrow> int \<Rightarrow> buf list \<Rightarrow> buf list option res" where
  "StrSplit_cut mok junk srcStr srcStrLen delim j i k m outStr =
     (if i < srcStrLen
      then rbind (rd srcStr i) (\<lambda>c.
        if c \<noteq> delim
        then StrSplit_cut mok junk srcStr srcStrLen delim j (i + 1) (k + 1) m outStr
        else if int (length outStr) \<ge> j then fault BufferOverflow
        else if \<not> mok (length outStr) then ok None
        else rbind (Stringcut srcStr m (i - 1) (replicate (nat (k + 1)) junk)) (\<lambda>piece.
               StrSplit_cut mok junk srcStr srcStrLen delim j (i + 1) 0 (i + 1) (outStr @ [piece])))
      else ok (Some outStr))"
  by pat_completeness auto
termination
  by (relation "measure (\<lambda>(mok, junk, s, n, d, j, i, k, m, out). nat (n - i))") auto

definition StrSplit ::
  "(nat \<Rightarrow> bool) \<Rightarrow> char \<Rightarrow> buf \<Rightarrow> int \<Rightarrow> int \<Rightarrow> char \<Rightarrow> (buf list option \<times> int) res" where
  "StrSplit mok junk srcStr srcStrLen outBufferLen delim =
     rbind (StrSplit_count srcStr srcStrLen delim 0 0) (\<lambda>j.
     if \<not> mok 0 then if 0 < j then fault NullDeref else ok (None, j)
     else rbind (StrSplit_cut (\<lambda>l. mok (Suc l)) junk srcStr srcStrLen delim j 0 0 0 []) (\<lambda>r.
       case r of None \<Rightarrow> ok (None, outBufferLen) | Some outStr \<Rightarrow> ok (Some outStr, j)))"

text \<open>
  \<open>while (size--) free(StrVector[size]); free(StrVector);\<close> on a vector whose live entries are
  given as a list of flags: freeing an entry outside the vector or freed before is a fault, and
  the result is what is still allocated when the vector itself is freed.
\<close>

fun releaseStr :: "bool list \<Rightarrow> nat \<Rightarrow> bool list res" where
  "releaseStr live 0 = ok live"
| "releaseStr live (Suc n) =
     (if n < length live \<and> live ! n then releaseStr (live[n := False]) n
      else fault UseAfterFree)"

declare Stringcut_loop.simps [simp del]
declare StrSplit_count.simps [simp del]
declare StrSplit_cut.simps [simp del]

section \<open>Buffer lemmas\<close>

lemma schar_ascii [buf_simps]: "(of_char c :: nat) < 128 \<Longrightarrow> schar c = int (of_char c)"
  by (metis of_nat_less_numeral_iff of_nat_of_char schar_def)

lemma cstr_append_NUL [simp, buf_simps]: "NUL \<notin> set s \<Longrightarrow> cstr (s @ NUL # t) = s"
  by (induction s) (auto simp: cstr_def)

lemma NUL_notin_cstr [simp, buf_simps]: "NUL \<notin> set (cstr b)"
  by (auto simp: cstr_def dest: set_takeWhileD)

lemma cstr_id [simp, buf_simps]: "NUL \<notin> set s \<Longrightarrow> cstr s = s"
  unfolding cstr_def by (rule takeWhile_eq_all_conv [THEN iffD2]) auto

lemma length_cstr_le: "length (cstr b) \<le> length b"
  by (simp add: cstr_def length_takeWhile_le)

lemma terminated_iff: "terminated b \<longleftrightarrow> length (cstr b) < length b"
  unfolding terminated_def by (induction b) (auto simp: cstr_def)

lemma terminated_decomp:
  assumes "terminated b"
  shows "b = cstr b @ NUL # drop (Suc (length (cstr b))) b"
proof -
  let ?n = "length (cstr b)"
  from assms have n: "?n < length b" by (simp add: terminated_iff)
  then have "b ! ?n = NUL"
    using nth_length_takeWhile [of "\<lambda>c. c \<noteq> NUL" b] by (simp add: cstr_def)
  moreover have "take ?n b = cstr b"
    unfolding cstr_def by (simp add: takeWhile_eq_take [symmetric])
  ultimately show ?thesis
    using n by (metis id_take_nth_drop)
qed

lemma length_put [buf_simps]: "put d s = Inr d' \<Longrightarrow> length d' = length d"
  by (auto simp: put_def split: if_splits)

lemma put_ok [buf_simps]: "length s \<le> length d \<Longrightarrow> put d s = Inr (s @ drop (length s) d)"
  by (simp add: put_def)

lemma sprintf_ok [buf_simps]:
  "length s < length d \<Longrightarrow> sprintf d s = Inr (s @ NUL # drop (Suc (length s)) d)"
  by (simp add: sprintf_def put_def)

lemma strcpy_cstr:
  "strcpy d s = Inr d' \<Longrightarrow> cstr d' = cstr s \<and> terminated d' \<and> length d' = length d"
  by (auto simp: strcpy_def str_of_def put_def terminated_def split: if_splits)

lemma strcpy_ok:
  "terminated s \<Longrightarrow> length (cstr s) < length d \<Longrightarrow>
   strcpy d s = Inr (cstr s @ NUL # drop (Suc (length (cstr s))) d)"
  by (simp add: strcpy_def str_of_def put_def)

section \<open>Stringcut copies a range and terminates it\<close>

lemma Stringcut_loop_ok:
  assumes "0 \<le> m" and "m \<le> i" and "i \<le> n + 1" and "n < int (length str)"
    and "n + 1 - m < int (length des)" and "n + 1 - m \<ge> 0"
  shows "Stringcut_loop str m n i des =
    Inr (take (nat (i - m)) des @ take (nat (n + 1 - i)) (drop (nat i) str) @ NUL #
         drop (nat (n + 2 - m)) des)"
  using assms
proof (induction str m n i des rule: Stringcut_loop.induct)
  case (1 str m n i des)
  show ?case
  proof (cases "i \<le> n")
    case True
    let ?des = "des[nat (i - m) := str ! nat i]"
    have r: "rd str i = Inr (str ! nat i)" and w: "wr des (i - m) (str ! nat i) = Inr ?des"
      using True "1.prems" by (auto simp: rd_def wr_def)
    have "Stringcut_loop str m n (i + 1) ?des =
      Inr (take (nat (i + 1 - m)) ?des @ take (nat (n + 1 - (i + 1))) (drop (nat (i + 1)) str) @ NUL #
         drop (nat (n + 2 - m)) ?des)"
      using True "1.prems" r w by (intro "1.IH" [of "str ! nat i" ?des]) auto
    moreover have "take (nat (i + 1 - m)) ?des = take (nat (i - m)) des @ [str ! nat i]"
    proof -
      have "nat (i + 1 - m) = Suc (nat (i - m))" and "nat (i - m) < length des"
        using True "1.prems" by auto
      then show ?thesis by simp
    qed
    moreover have "take (nat (n + 1 - i)) (drop (nat i) str)
        = str ! nat i # take (nat (n + 1 - (i + 1))) (drop (nat (i + 1)) str)"
    proof -
      have "nat (n + 1 - i) = Suc (nat (n + 1 - (i + 1)))" and "nat (i + 1) = Suc (nat i)"
        and "nat i < length str"
        using True "1.prems" by auto
      then show ?thesis by (simp add: Cons_nth_drop_Suc [symmetric])
    qed
    moreover have "drop (nat (n + 2 - m)) ?des = drop (nat (n + 2 - m)) des"
      using True "1.prems" by simp
    ultimately show ?thesis
      using True r w by (simp add: Stringcut_loop.simps [of str m n i des])
  next
    case False
    then have "i = n + 1" using "1.prems" by simp
    moreover have "nat (n + 2 - m) = Suc (nat (n + 1 - m))"
      using "1.prems" by auto
    ultimately show ?thesis
      using "1.prems" by (subst Stringcut_loop.simps) (simp add: wr_def upd_conv_take_nth_drop)
  qed
qed


text \<open>The C string cut out of a range, for a destination with room for it and the terminator.\<close>

lemma Stringcut_ok:
  assumes "0 \<le> m" and "m \<le> n + 1" and "n < int (length str)" and "n + 1 - m < int (length des)"
  shows "Stringcut str m n des =
    Inr (take (nat (n + 1 - m)) (drop (nat m) str) @ NUL # drop (nat (n + 2 - m)) des)"
  using assms Stringcut_loop_ok [of m m n str des] by (simp add: Stringcut_def)

lemma strcmp_reads:
  "terminated a \<Longrightarrow> length (cstr a) < length b \<Longrightarrow> strcmp_bytes a b = Inr (strcmp_eq a b) \<and> strcmp_bytes b a = Inr (strcmp_eq a b)"
proof (induction a b rule: strcmp_bytes.induct)
  case (1 x xs y ys)
  then show ?case by (auto simp: terminated_def cstr_def strcmp_eq_def split: if_splits)
qed (simp_all add: terminated_def)

section \<open>StrSplit computes the delimited pieces\<close>

text \<open>
  The reference definition: every delimiter closes the piece before it; what follows the last
  delimiter is no piece.
\<close>

fun pieces :: "char \<Rightarrow> string \<Rightarrow> string \<Rightarrow> string list" where
  "pieces d acc [] = []"
| "pieces d acc (c # cs) = (if c = d then acc # pieces d [] cs else pieces d (acc @ [c]) cs)"

lemma length_pieces: "length (pieces d acc cs) = count_list cs d"
  by (induction cs arbitrary: acc) auto

lemma pieces_no_delim: "d \<notin> set acc \<Longrightarrow> p \<in> set (pieces d acc cs) \<Longrightarrow> d \<notin> set p"
  by (induction d acc cs rule: pieces.induct) (auto split: if_splits)

lemma pieces_append_delim:
  "d \<notin> set p \<Longrightarrow> pieces d acc (p @ d # cs) = (acc @ p) # pieces d [] cs"
  by (induction p arbitrary: acc) auto

lemma pieces_none: "d \<notin> set cs \<Longrightarrow> pieces d acc cs = []"
  by (induction cs arbitrary: acc) auto

lemma pieces_join:
  "\<forall>p\<in>set ps. d \<notin> set p \<Longrightarrow> d \<notin> set rest \<Longrightarrow>
   pieces d [] (concat (map (\<lambda>p. p @ [d]) ps) @ rest) = ps"
  by (induction ps) (auto simp: pieces_append_delim pieces_none)

lemma StrSplit_count_ok:
  assumes "0 \<le> i" and "i \<le> n" and "n \<le> int (length s)"
  shows "StrSplit_count s n d i j = Inr (j + int (count_list (drop (nat i) (take (nat n) s)) d))"
  using assms
proof (induction s n d i j rule: StrSplit_count.induct)
  case (1 s n d i j)
  show ?case
  proof (cases "i < n")
    case True
    with "1.prems" have *: "rd s i = Inr (s ! nat i)" "nat (i + 1) = Suc (nat i)"
      "nat i < length (take (nat n) s)"
      by (auto simp: rd_def)
    then have "drop (nat i) (take (nat n) s) = s ! nat i # drop (Suc (nat i)) (take (nat n) s)"
      by (metis Cons_nth_drop_Suc length_take min_less_iff_conj nth_take)
    with True "1.prems" * "1.IH" [OF True *(1)] show ?thesis
      by (simp add: StrSplit_count.simps [of s n d i j])
  next
    case False
    with "1.prems" show ?thesis by (subst StrSplit_count.simps) simp
  qed
qed

lemma StrSplit_cut_ok:
  assumes "0 \<le> m" and "m \<le> i" and "i \<le> n" and "n \<le> int (length s)" and "k = i - m"
    and "\<forall>l. mok l" and "drop (nat m) (take (nat i) s) = acc"
    and "int (length out) + int (count_list (drop (nat i) (take (nat n) s)) d) \<le> j"
  shows "StrSplit_cut mok junk s n d j i k m out =
    Inr (Some (out @ map (\<lambda>p. p @ [NUL]) (pieces d acc (drop (nat i) (take (nat n) s)))))"
  using assms
proof (induction mok junk s n d j i k m out arbitrary: acc rule: StrSplit_cut.induct)
  case (1 mok junk s n d j i k m out)
  show ?case
  proof (cases "i < n")
    case True
    with "1.prems" have rd: "rd s i = Inr (s ! nat i)" and i1: "nat (i + 1) = Suc (nat i)"
      and il: "nat i < length (take (nat n) s)" "nat i < length s"
      by (auto simp: rd_def)
    have rest: "drop (nat i) (take (nat n) s) = s ! nat i # drop (nat (i + 1)) (take (nat n) s)"
      using il i1 by (metis Cons_nth_drop_Suc length_take min_less_iff_conj nth_take)
    have tk: "take (nat (i + 1)) s = take (nat i) s @ [s ! nat i]"
      using il i1 by (simp add: take_Suc_conv_app_nth)
    have ml: "nat m \<le> length (take (nat i) s)"
      using "1.prems" by simp
    show ?thesis
    proof (cases "s ! nat i = d")
      case False
      have "StrSplit_cut mok junk s n d j (i + 1) (k + 1) m out =
        Inr (Some (out @ map (\<lambda>p. p @ [NUL]) (pieces d (acc @ [s ! nat i]) (drop (nat (i + 1)) (take (nat n) s)))))"
        using True False "1.prems" rest tk ml
        by (intro "1.IH"(1) [OF True rd False]) auto
      with True False rd rest show ?thesis
        by (simp add: StrSplit_cut.simps [of mok junk s n d j i])
    next
      case d: True
      have cut: "Stringcut s m (i - 1) (replicate (nat (k + 1)) junk) = Inr (acc @ [NUL])"
        using "1.prems" Stringcut_ok [of m "i - 1" s "replicate (nat (k + 1)) junk"]
        by (simp add: drop_take nat_diff_distrib nat_add_distrib Suc_diff_le nat_mono)
      have lt: "\<not> j \<le> int (length out)"
        using "1.prems" rest d by simp
      have "StrSplit_cut mok junk s n d j (i + 1) 0 (i + 1) (out @ [acc @ [NUL]]) =
        Inr (Some ((out @ [acc @ [NUL]]) @ map (\<lambda>p. p @ [NUL]) (pieces d [] (drop (nat (i + 1)) (take (nat n) s)))))"
        using True d "1.prems" rest lt
        by (intro "1.IH"(2) [OF True rd _ _ _ cut]) auto
      moreover have "mok (length out)"
        using "1.prems" by simp
      ultimately show ?thesis
        using True d rd rest cut lt by (simp add: StrSplit_cut.simps [of mok junk s n d j i])
    qed
  next
    case False
    with "1.prems" show ?thesis by (subst StrSplit_cut.simps) simp
  qed
qed


lemma StrSplit_ok:
  assumes "0 \<le> n" and "n \<le> int (length s)" and "\<forall>l. mok l"
  shows "StrSplit mok junk s n len0 d =
    Inr (Some (map (\<lambda>p. p @ [NUL]) (pieces d [] (take (nat n) s))), int (count_list (take (nat n) s) d))"
  using assms StrSplit_count_ok [of 0 n s d 0]
    StrSplit_cut_ok [of 0 0 n s 0 "\<lambda>l. mok (Suc l)" "[]" "[]" d "int (count_list (take (nat n) s) d)" junk]
  by (simp add: StrSplit_def)

text \<open>A vector that cannot be allocated is written to as soon as there is a piece.\<close>

lemma StrSplit_no_vector:
  assumes "0 \<le> n" and "n \<le> int (length s)" and "\<not> mok 0"
  shows "StrSplit mok junk s n len0 d = (if d \<in> set (take (nat n) s) then Inl NullDeref else Inr (None, 0))"
  using assms StrSplit_count_ok [of 0 n s d 0] by (auto simp: StrSplit_def count_list_0_iff)

lemma releaseStr_all:
  assumes "n \<le> length live" and "\<forall>i<n. live ! i"
  shows "releaseStr live n = Inr (replicate n False @ drop n live)"
  using assms
proof (induction n arbitrary: live)
  case 0
  then show ?case by simp
next
  case (Suc n)
  from Suc.prems have "releaseStr (live[n := False]) n = Inr (replicate n False @ drop n (live[n := False]))"
    by (intro Suc.IH) (auto simp: nth_list_update)
  moreover have "drop n (live[n := False]) = False # drop (Suc n) live"
    using Suc.prems by (simp add: drop_update_swap Cons_nth_drop_Suc [symmetric])
  ultimately show ?case
    using Suc.prems by (simp add: replicate_app_Cons_same)
qed

text \<open>
  \<open>StrSplit\<close> returns the pieces of the first \<open>srcStrLen\<close> bytes that a delimiter closes, each as
  a NUL-terminated string in a block it exactly fills, sets \<open>*outBufferLen\<close> to their number, and
  runs into no out-of-bounds access, when the length lies inside the buffer and memory suffices.
\<close>

theorem StrSplit_pieces:
  assumes "0 \<le> n" and "n \<le> int (length s)" and "\<forall>l. mok l"
  shows "\<exists>out. StrSplit mok junk s n len0 d = Inr (Some out, int (length out))
    \<and> out = map (\<lambda>p. p @ [NUL]) (pieces d [] (take (nat n) s))
    \<and> (\<forall>p\<in>set out. d = NUL \<or> d \<notin> set p)"
proof -
  have "d = NUL \<or> d \<notin> set (p @ [NUL])" if "p \<in> set (pieces d [] (take (nat n) s))" for p
    using pieces_no_delim [OF _ that] by simp
  then show ?thesis
    using StrSplit_ok [OF assms] by (auto simp: length_pieces)
qed

theorem StrSplit_pieces_witness:
  "\<exists>out. StrSplit (\<lambda>_. True) CHR ''x'' ''1_22_3'' 6 0 CHR ''_'' = Inr (Some out, int (length out))
    \<and> out = [[CHR ''1'', NUL], [CHR ''2'', CHR ''2'', NUL]]"
  using StrSplit_pieces [of 6 "''1_22_3''" "\<lambda>_. True" "CHR ''x''" 0 "CHR ''_''"]
  by (simp add: numeral_eq_Suc)

text \<open>
  C27: splitting is the inverse of the \<open>"%s_%s_..."\<close> formatting of the wire protocol: a payload
  built from delimiter-free fields, each followed by the delimiter, splits into these fields,
  whatever delimiter-free bytes follow it in the buffer, and \<open>releaseStr\<close> called with the returned
  length frees every piece exactly once.
\<close>

theorem StrSplit_roundtrip:
  assumes "\<forall>p\<in>set ps. d \<notin> set p" and "d \<notin> set rest" and "\<forall>l. mok l"
  defines "s \<equiv> concat (map (\<lambda>p. p @ [d]) ps) @ rest"
  shows "StrSplit mok junk s (int (length s)) len0 d = Inr (Some (map (\<lambda>p. p @ [NUL]) ps), int (length ps))
    \<and> releaseStr (replicate (length ps) True) (length ps) = Inr (replicate (length ps) False)"
proof -
  have "pieces d [] s = ps"
    unfolding s_def using assms(1,2) by (rule pieces_join)
  then have "int (count_list s d) = int (length ps)"
    using length_pieces [of d "[]" s] by simp
  with \<open>pieces d [] s = ps\<close> show ?thesis
    using StrSplit_ok [of "int (length s)" s mok junk len0 d] assms(3)
      releaseStr_all [of "length ps" "replicate (length ps) True"] by simp
qed

theorem StrSplit_roundtrip_witness:
  "StrSplit (\<lambda>_. True) CHR ''x'' ''12_abc_zz'' 9 0 CHR ''_''
     = Inr (Some [[CHR ''1'', CHR ''2'', NUL], [CHR ''a'', CHR ''b'', CHR ''c'', NUL]], 2)"
  using StrSplit_roundtrip [of "[''12'', ''abc'']" "CHR ''_''" "''zz''" "\<lambda>_. True" "CHR ''x''" 0]
  by simp

end
