(* ===== verification/Cipher.thy ===== *)
theory Cipher
  imports CString
begin

text \<open>
  The PIN cipher: \<open>Encrypt\<close> and \<open>Decrypt\<close> of src/src/kaisaEncrypt.c (the version the build links) and
  of src/src/CodeEncrypt.c (its predecessor, which clears the destination first), and the PIN
  generator of src/src/GenerateRandStr.c. Source and destination are offsets into one memory, because
  the server calls both functions in place.
\<close>

section \<open>Encrypt and Decrypt\<close>

definition char_add :: "char \<Rightarrow> char \<Rightarrow> char" where
  "char_add c p = char_of (((of_char c :: nat) + of_char p) mod 256)"

definition char_sub :: "char \<Rightarrow> char \<Rightarrow> char" where
  "char_sub c p = char_of (((of_char c :: nat) + 256 - of_char p) mod 256)"

function shift_loop ::
  "(char \<Rightarrow> char \<Rightarrow> char) \<Rightarrow> int \<Rightarrow> int \<Rightarrow> buf \<Rightarrow> int \<Rightarrow> int \<Rightarrow> buf \<Rightarrow> buf res" where
  "shift_loop f source_in len PinCode source_out i mem =
     (if i < len
      then rbind (rd mem (source_in + i)) (\<lambda>c.
           rbind (rd PinCode (i smod 6)) (\<lambda>p.
           rbind (wr mem (source_out + i) (f c p)) (\<lambda>mem'.
             shift_loop f source_in len PinCode source_out (i + 1) mem')))
      else ok mem)"
  by pat_completeness auto
termination
  by (relation "measure (\<lambda>(f, s, n, p, d, i, mem). nat (n - i))") auto

definition Encrypt :: "int \<Rightarrow> int \<Rightarrow> buf \<Rightarrow> int \<Rightarrow> buf \<Rightarrow> buf res" where
  "Encrypt source_in len PinCode source_out mem =
     shift_loop char_add source_in len PinCode source_out 0 mem"

definition Decrypt :: "int \<Rightarrow> int \<Rightarrow> buf \<Rightarrow> int \<Rightarrow> buf \<Rightarrow> buf res" where
  "Decrypt source_in len PinCode source_out mem =
     shift_loop char_sub source_in len PinCode source_out 0 mem"

text \<open>\<open>memset(source_out, 0, len + 1)\<close>, then the same loops, as CodeEncrypt.c has them.\<close>

definition clear_range :: "buf \<Rightarrow> int \<Rightarrow> int \<Rightarrow> buf res" where
  "clear_range mem p n =
     (if 0 \<le> p \<and> 0 \<le> n \<and> p + n \<le> int (length mem)
      then ok (take (nat p) mem @ replicate (nat n) NUL @ drop (nat (p + n)) mem)
      else fault BufferOverflow)"

definition CodeEncrypt_Encrypt :: "int \<Rightarrow> int \<Rightarrow> buf \<Rightarrow> int \<Rightarrow> buf \<Rightarrow> buf res" where
  "CodeEncrypt_Encrypt source_in len PinCode source_out mem =
     rbind (clear_range mem source_out (len + 1)) (\<lambda>mem'.
       shift_loop char_add source_in len PinCode source_out 0 mem')"

definition CodeEncrypt_Decrypt :: "int \<Rightarrow> int \<Rightarrow> buf \<Rightarrow> int \<Rightarrow> buf \<Rightarrow> buf res" where
  "CodeEncrypt_Decrypt source_in len PinCode source_out mem =
     rbind (clear_range mem source_out (len + 1)) (\<lambda>mem'.
       shift_loop char_sub source_in len PinCode source_out 0 mem')"

section \<open>The PIN generator\<close>

text \<open>\<open>rand\<close> is a stream of results; the generator uses the first \<open>len\<close> of it.\<close>

definition allChar :: string where
  "allChar = ''0123456789abcdefghijklmnopqrstuvwxyzABCDEFGHIJKLMNOPQRSTUVWXYZ'' @ [NUL]"

definition allDigit :: string where
  "allDigit = ''0123456789'' @ [NUL]"

fun rand_fill :: "string \<Rightarrow> int \<Rightarrow> (nat \<Rightarrow> int) \<Rightarrow> nat \<Rightarrow> nat \<Rightarrow> buf \<Rightarrow> buf res" where
  "rand_fill tab m rnd 0 cnt dest = wr dest (int cnt) NUL"
| "rand_fill tab m rnd (Suc n) cnt dest =
     rbind (rd tab (rnd cnt smod m)) (\<lambda>c.
     rbind (wr dest (int cnt) c) (\<lambda>dest'. rand_fill tab m rnd n (Suc cnt) dest'))"

definition generateRandString :: "(nat \<Rightarrow> int) \<Rightarrow> buf \<Rightarrow> nat \<Rightarrow> buf res" where
  "generateRandString rnd dest len = rand_fill allChar 62 rnd len 0 dest"

definition generateRandIntStr :: "(nat \<Rightarrow> int) \<Rightarrow> buf \<Rightarrow> nat \<Rightarrow> buf res" where
  "generateRandIntStr rnd dest len = rand_fill allDigit 10 rnd len 0 dest"

declare shift_loop.simps [simp del]

section \<open>What the cipher loop computes\<close>

lemma char_sub_add [simp]: "char_sub (char_add c p) p = c"
proof -
  define a b :: nat where "a = of_char c" and "b = of_char p"
  have "a < 256" "b < 256"
    by (simp_all add: a_def b_def)
  then have "((a + b) mod 256 + 256 - b) mod 256 = a"
    by (cases "a + b < 256") (simp_all add: mod_if)
  then have "char_sub (char_add c p) p = char_of a"
    by (simp add: char_sub_def char_add_def a_def b_def)
  then show ?thesis by (simp add: a_def)
qed

lemma char_add_sub [simp]: "char_add (char_sub c p) p = c"
proof -
  define a b :: nat where "a = of_char c" and "b = of_char p"
  have "a < 256" "b < 256"
    by (simp_all add: a_def b_def)
  then have "((a + 256 - b) mod 256 + b) mod 256 = a"
    by (cases "a < b") (auto simp: mod_if)
  then have "char_add (char_sub c p) p = char_of a"
    by (simp add: char_sub_def char_add_def a_def b_def)
  then show ?thesis by (simp add: a_def)
qed

definition shifted :: "(char \<Rightarrow> char \<Rightarrow> char) \<Rightarrow> buf \<Rightarrow> string \<Rightarrow> string" where
  "shifted f pin s = map (\<lambda>i. f (s ! i) (pin ! (i mod 6))) [0..<length s]"

lemma length_shifted [simp]: "length (shifted f pin s) = length s"
  by (simp add: shifted_def)

lemma nth_shifted [simp]: "i < length s \<Longrightarrow> shifted f pin s ! i = f (s ! i) (pin ! (i mod 6))"
  by (simp add: shifted_def)

lemma shifted_inverse: "(\<And>c p. g (f c p) p = c) \<Longrightarrow> shifted g pin (shifted f pin s) = s"
  by (rule nth_equalityI) simp_all

text \<open>
  One pass over the loop, pointwise: the bytes of the destination range not yet written get their
  new value, all others keep theirs. Reading ahead of the writes is what the aliasing condition
  (equal ranges, or disjoint ones, or a destination below the source) ensures.
\<close>

lemma shift_loop_nth:
  assumes "0 \<le> i" and "i \<le> len" and "0 \<le> s" and "0 \<le> d" and "6 \<le> length pin"
    and "s + len \<le> int (length mem)" and "d + len \<le> int (length mem)"
    and "d \<le> s \<or> s + len \<le> d"
  shows "\<exists>mem'. shift_loop f s len pin d i mem = Inr mem' \<and> length mem' = length mem \<and>
    (\<forall>k<length mem. mem' ! k =
       (if d + i \<le> int k \<and> int k < d + len
        then f (mem ! nat (s + int k - d)) (pin ! (nat (int k - d) mod 6)) else mem ! k))"
  using assms
proof (induction f s len pin d i mem rule: shift_loop.induct)
  case (1 f s len pin d i mem)
  show ?case
  proof (cases "i < len")
    case False
    then show ?thesis using "1.prems" by (subst shift_loop.simps) auto
  next
    case True
    let ?c = "mem ! nat (s + i)" and ?p = "pin ! (nat i mod 6)"
    let ?mem = "mem[nat (d + i) := f ?c ?p]"
    have r: "rd mem (s + i) = Inr ?c" and w: "wr mem (d + i) (f ?c ?p) = Inr ?mem"
      using True "1.prems" by (auto simp: rd_def wr_def)
    have "nat (i mod 6) = nat i mod 6"
      using "1.prems" by (simp add: nat_mod_distrib)
    moreover have "nat i mod 6 < length pin"
      using "1.prems"(5) by (meson less_le_trans mod_less_divisor zero_less_numeral)
    ultimately have p: "rd pin (i smod 6) = Inr ?p"
      using "1.prems" by (auto simp: rd_def)
    have "\<exists>mem'. shift_loop f s len pin d (i + 1) ?mem = Inr mem' \<and> length mem' = length ?mem \<and>
      (\<forall>k<length ?mem. mem' ! k =
       (if d + (i + 1) \<le> int k \<and> int k < d + len
        then f (?mem ! nat (s + int k - d)) (pin ! (nat (int k - d) mod 6)) else ?mem ! k))"
      using True "1.prems" by (intro "1.IH" [OF True r p w]) auto
    then obtain mem' where m: "shift_loop f s len pin d (i + 1) ?mem = Inr mem'"
      and l: "length mem' = length mem"
      and n: "\<And>k. k < length mem \<Longrightarrow> mem' ! k =
       (if d + (i + 1) \<le> int k \<and> int k < d + len
        then f (?mem ! nat (s + int k - d)) (pin ! (nat (int k - d) mod 6)) else ?mem ! k)"
      by auto
    have "mem' ! k = (if d + i \<le> int k \<and> int k < d + len
        then f (mem ! nat (s + int k - d)) (pin ! (nat (int k - d) mod 6)) else mem ! k)"
      if "k < length mem" for k
    proof -
      consider "int k = d + i" | "int k < d + i \<or> d + len \<le> int k" | "d + i < int k" "int k < d + len"
        by linarith
      then show ?thesis
      proof cases
        case 1
        then have "k = nat (d + i)" by simp
        with n [OF that] 1 True "1.prems" show ?thesis by simp
      next
        case 2
        then have "nat (d + i) \<noteq> k" using True "1.prems" by auto
        moreover have "\<not> (d + (i + 1) \<le> int k \<and> int k < d + len)" "\<not> (d + i \<le> int k \<and> int k < d + len)"
          using 2 by linarith+
        ultimately show ?thesis using n [OF that] by (simp only: if_False) simp
      next
        case 3
        then have "nat (d + i) \<noteq> nat (s + int k - d)"
          using "1.prems" True by auto
        with n [OF that] 3 show ?thesis by simp
      qed
    qed
    then show ?thesis
      using True r p w m l by (subst shift_loop.simps) simp
  qed
qed

lemma shift_loop_ok:
  assumes "0 \<le> len" and "0 \<le> s" and "0 \<le> d" and "6 \<le> length pin"
    and "s + len \<le> int (length mem)" and "d + len \<le> int (length mem)"
    and "d \<le> s \<or> s + len \<le> d"
  shows "shift_loop f s len pin d 0 mem =
    Inr (take (nat d) mem @ shifted f pin (take (nat len) (drop (nat s) mem)) @ drop (nat (d + len)) mem)"
proof -
  obtain L S D where [simp]: "len = int L" "s = int S" "d = int D"
    using assms(1-3) by (metis nonneg_int_cases)
  have le: "S + L \<le> length mem" "D + L \<le> length mem"
    using assms(5,6) by simp_all
  let ?r = "take D mem @ shifted f pin (take L (drop S mem)) @ drop (D + L) mem"
  obtain mem' where m: "shift_loop f s len pin d 0 mem = Inr mem'" and l: "length mem' = length mem"
    and n: "\<And>k. k < length mem \<Longrightarrow> mem' ! k = (if d \<le> int k \<and> int k < d + len
        then f (mem ! nat (s + int k - d)) (pin ! (nat (int k - d) mod 6)) else mem ! k)"
    using shift_loop_nth [of 0 len s d pin mem f] assms by auto
  have "mem' = ?r"
  proof (rule nth_equalityI)
    show "length mem' = length ?r"
      using le l by simp
    fix k assume "k < length mem'"
    then have k: "k < length mem" using l by simp
    have len: "length (take L (drop S mem)) = L" "length (take D mem) = D"
      using le by simp_all
    have ix: "nat (int S + int k - int D) = S + (k - D)" "nat (int k - int D) = k - D" if "D \<le> k"
      using that by auto
    consider "k < D" | "D \<le> k" "k < D + L" | "D + L \<le> k"
      by linarith
    then show "mem' ! k = ?r ! k"
      using n [OF k] k le ix by cases (auto simp: nth_append len simp del: length_take)
  qed
  with m show ?thesis by (simp add: nat_plus_as_int)
qed

lemmas cipher_defs = Encrypt_def Decrypt_def CodeEncrypt_Encrypt_def CodeEncrypt_Decrypt_def

text \<open>
  C28: the in-place calls of the server round-trip: encrypting a range of memory with a PIN
  buffer and decrypting it again with the same PIN restores the whole memory, and encryption changes
  no byte outside the range.
\<close>

theorem Encrypt_Decrypt_in_place:
  assumes "0 \<le> p" and "0 \<le> len" and "p + len \<le> int (length mem)" and "6 \<le> length pin"
  shows "\<exists>mem'. Encrypt p len pin p mem = Inr mem' \<and> Decrypt p len pin p mem' = Inr mem
    \<and> length mem' = length mem
    \<and> take (nat p) mem' = take (nat p) mem \<and> drop (nat (p + len)) mem' = drop (nat (p + len)) mem"
proof -
  obtain P L where [simp]: "p = int P" "len = int L"
    using assms(1,2) by (metis nonneg_int_cases)
  have le: "P + L \<le> length mem" using assms(3) by simp
  let ?t = "take L (drop P mem)"
  let ?e = "take P mem @ shifted char_add pin ?t @ drop (P + L) mem"
  have e: "Encrypt p len pin p mem = Inr ?e"
    using assms shift_loop_ok [of len p p pin mem char_add] by (simp add: cipher_defs nat_plus_as_int)
  have "Decrypt p len pin p ?e = Inr (take P ?e @ shifted char_sub pin (take L (drop P ?e)) @ drop (P + L) ?e)"
    using assms shift_loop_ok [of len p p pin ?e char_sub] le by (simp add: cipher_defs nat_plus_as_int)
  moreover have "take P ?e = take P mem" "drop (P + L) ?e = drop (P + L) mem"
    "take L (drop P ?e) = shifted char_add pin ?t"
    using le by simp_all
  moreover have "take P mem @ ?t @ drop (P + L) mem = mem"
    by (metis append_take_drop_id drop_drop add.commute)
  ultimately have "Decrypt p len pin p ?e = Inr mem"
    by (simp only: shifted_inverse [of char_sub char_add, OF char_sub_add])
  with e le show ?thesis by (simp add: nat_plus_as_int)
qed

theorem Encrypt_Decrypt_in_place_witness:
  "\<exists>mem'. Encrypt 1 2 ''735483'' 1 ''xabz'' = Inr mem' \<and> Decrypt 1 2 ''735483'' 1 mem' = Inr ''xabz''"
  using Encrypt_Decrypt_in_place [of 1 2 "''xabz''" "''735483''"] by auto

text \<open>
  The encryption of seven-bit text by a decimal PIN holds no NUL byte, so that \<open>strlen\<close> of the
  ciphertext is the length of the plaintext.
\<close>

lemma char_add_not_NUL:
  assumes "c \<noteq> NUL" and "(of_char c :: nat) < 128" and "p \<in> set ''0123456789''"
  shows "char_add c p \<noteq> NUL"
proof -
  have "(of_char p :: nat) \<le> 57" using assms(3) by auto
  moreover have "(of_char c :: nat) \<noteq> 0"
  proof
    assume "(of_char c :: nat) = 0"
    then have "of_char c = (of_char NUL :: nat)" by simp
    with assms(1) show False by (simp only: of_char_eq_iff)
  qed
  ultimately have "((of_char c :: nat) + of_char p) mod 256 = of_char c + of_char p"
    "(of_char c :: nat) + of_char p \<noteq> 0"
    using assms(2) by simp_all
  then have "of_char (char_add c p) \<noteq> (0 :: nat)"
    by (simp add: char_add_def)
  then show ?thesis by auto
qed

text \<open>
  a NUL-terminated seven-bit payload encrypted in place with a six-digit PIN is recovered by the
  receiver, who calls \<open>Decrypt\<close> with the \<open>strlen\<close> of what arrived: the ciphertext is NUL-free and as
  long as the plaintext.
\<close>

theorem Encrypt_payload_roundtrip:
  assumes "NUL \<notin> set s" and "\<forall>c\<in>set s. (of_char c :: nat) < 128"
    and "set (take 6 pin) \<subseteq> set ''0123456789''" and "6 \<le> length pin"
  shows "\<exists>mem'. Encrypt 0 (int (length s)) pin 0 (s @ NUL # rest) = Inr mem'
    \<and> strlen mem' = Inr (length s)
    \<and> Decrypt 0 (int (length (cstr mem'))) pin 0 mem' = Inr (s @ NUL # rest)"
proof -
  let ?mem = "s @ NUL # rest" and ?c = "shifted char_add pin s"
  have e: "Encrypt 0 (int (length s)) pin 0 ?mem = Inr (?c @ NUL # rest)"
    using assms(4) shift_loop_ok [of "int (length s)" 0 0 pin ?mem char_add] by (simp add: cipher_defs)
  have "NUL \<notin> set ?c"
  proof
    assume "NUL \<in> set ?c"
    then obtain i where i: "i < length s" "char_add (s ! i) (pin ! (i mod 6)) = NUL"
      by (auto simp: shifted_def)
    have "pin ! (i mod 6) \<in> set (take 6 pin)"
      using assms(4) by (auto simp: in_set_conv_nth intro!: exI [of _ "i mod 6"])
    with assms(3) have p: "pin ! (i mod 6) \<in> set ''0123456789''" by blast
    have "s ! i \<in> set s" using i(1) by simp
    with assms(1,2) have "s ! i \<noteq> NUL" "(of_char (s ! i) :: nat) < 128" by auto
    from char_add_not_NUL [OF this p] i(2) show False by simp
  qed
  then have c: "cstr (?c @ NUL # rest) = ?c" by simp
  have "Decrypt 0 (int (length s)) pin 0 (?c @ NUL # rest) = Inr ?mem"
    using assms(4) shift_loop_ok [of "int (length s)" 0 0 pin "?c @ NUL # rest" char_sub]
    by (simp add: cipher_defs shifted_inverse)
  with e c show ?thesis by (simp add: strlen_def terminated_def)
qed

theorem Encrypt_payload_roundtrip_witness:
  "\<exists>mem'. Encrypt 0 2 ''735483'' 0 (''ab'' @ NUL # ''q'') = Inr mem'
    \<and> strlen mem' = Inr 2 \<and> Decrypt 0 2 ''735483'' 0 mem' = Inr (''ab'' @ NUL # ''q'')"
  using Encrypt_payload_roundtrip [of "''ab''" "''735483''" "''q''"]
  by (auto simp: strlen_def split: if_splits)

text \<open>
  The predecessor in CodeEncrypt.c agrees with the linked version (and terminates the result) when
  the destination lies apart from the source, but not in place, where it clears its own input first.
\<close>

lemma clear_range_ok:
  "0 \<le> p \<Longrightarrow> 0 \<le> n \<Longrightarrow> p + n \<le> int (length mem) \<Longrightarrow>
   clear_range mem p n = Inr (take (nat p) mem @ replicate (nat n) NUL @ drop (nat (p + n)) mem)"
  by (simp add: clear_range_def)

text \<open>
  called in place, the CodeEncrypt.c version of \<open>Encrypt\<close> loses the plaintext: whatever the text
  was, the result is the repeated PIN itself. The server's in-place calls therefore depend on
  kaisaEncrypt.c being the version that is linked.
\<close>

theorem CodeEncrypt_in_place_loses_text:
  assumes "6 \<le> length pin" and "length s = n" and "length t = n"
  shows "CodeEncrypt_Encrypt 0 (int n) pin 0 (s @ [NUL]) = CodeEncrypt_Encrypt 0 (int n) pin 0 (t @ [NUL])
    \<and> CodeEncrypt_Encrypt 0 (int n) pin 0 (s @ [NUL]) = Inr (map (\<lambda>i. pin ! (i mod 6)) [0..<n] @ [NUL])"
proof -
  have "CodeEncrypt_Encrypt 0 (int n) pin 0 (u @ [NUL]) = Inr (map (\<lambda>i. pin ! (i mod 6)) [0..<n] @ [NUL])"
    if "length u = n" for u
  proof -
    have "clear_range (u @ [NUL]) 0 (int n + 1) = Inr (replicate (Suc n) NUL)"
      using that by (simp add: clear_range_def nat_add_distrib)
    moreover have "shifted char_add pin (replicate n NUL) = map (\<lambda>i. pin ! (i mod 6)) [0..<n]"
      by (auto simp: shifted_def char_add_def)
    moreover have "shift_loop char_add 0 (int n) pin 0 0 (replicate (Suc n) NUL) =
      Inr (shifted char_add pin (replicate n NUL) @ [NUL])"
      using assms(1) shift_loop_ok [of "int n" 0 0 pin "replicate (Suc n) NUL" char_add]
      by (simp add: take_Cons' flip: replicate_append_same)
    ultimately show ?thesis
      by (simp add: cipher_defs)
  qed
  with assms(2,3) show ?thesis by simp
qed

theorem CodeEncrypt_in_place_loses_text_witness:
  "CodeEncrypt_Encrypt 0 2 ''735483'' 0 (''on'' @ [NUL]) = Inr (''73'' @ [NUL])"
  using conjunct2 [OF CodeEncrypt_in_place_loses_text [of "''735483''" "''on''" 2 "''no''"]]
  by (simp add: upt_conv_Cons)

section \<open>Generated PINs are decimal\<close>

lemma rand_fill_ok:
  assumes "cnt + n < length dest" and "0 < m" and "int m < int (length tab)" and "\<forall>k. 0 \<le> rnd k"
  shows "rand_fill tab (int m) rnd n cnt dest =
    Inr (take cnt dest @ map (\<lambda>k. tab ! nat (rnd k mod int m)) [cnt..<cnt + n] @ NUL # drop (Suc (cnt + n)) dest)"
  using assms
proof (induction n arbitrary: cnt dest)
  case 0
  then show ?case by (simp add: wr_def upd_conv_take_nth_drop)
next
  case (Suc n)
  let ?c = "tab ! nat (rnd cnt mod int m)"
  have "rnd cnt mod int m < int m" "0 \<le> rnd cnt mod int m"
    using Suc.prems(2) by simp_all
  then have "rnd cnt mod int m < int (length tab)" "0 \<le> rnd cnt mod int m"
    using Suc.prems(3) by linarith+
  then have r: "rd tab (rnd cnt smod int m) = Inr ?c"
    using Suc.prems by (simp add: rd_def)
  have w: "wr dest (int cnt) ?c = Inr (dest[cnt := ?c])"
    using Suc.prems by (simp add: wr_def)
  have "rand_fill tab (int m) rnd n (Suc cnt) (dest[cnt := ?c]) =
    Inr (take (Suc cnt) (dest[cnt := ?c]) @ map (\<lambda>k. tab ! nat (rnd k mod int m)) [Suc cnt..<Suc cnt + n]
      @ NUL # drop (Suc (Suc cnt + n)) (dest[cnt := ?c]))"
    using Suc.prems by (intro Suc.IH) simp_all
  moreover have "[cnt..<cnt + Suc n] = cnt # [Suc cnt..<Suc cnt + n]"
    by (simp only: upt_conv_Cons) simp
  ultimately show ?case
    using r w Suc.prems by (simp del: upt_Suc)
qed

text \<open>
  \<open>generateRandIntStr\<close> with length 6 fills the seven-byte \<open>Pin\<close> field exactly: six decimal digits
  taken from successive \<open>rand\<close> results and the terminator, so that the cipher theorems apply to it.
\<close>

theorem generateRandIntStr_pin:
  assumes "length pin = 7" and "\<forall>k. 0 \<le> rnd k"
  shows "\<exists>pin'. generateRandIntStr rnd pin 6 = Inr pin' \<and> length pin' = 7 \<and> strlen pin' = Inr 6
    \<and> set (take 6 pin') \<subseteq> set ''0123456789''"
proof -
  let ?d = "map (\<lambda>k. allDigit ! nat (rnd k mod 10)) [0..<6]"
  have g: "generateRandIntStr rnd pin 6 = Inr (?d @ [NUL])"
    using rand_fill_ok [of 0 6 pin 10 allDigit rnd] assms
    by (simp add: generateRandIntStr_def allDigit_def)
  have "allDigit ! nat (rnd k mod 10) \<in> set ''0123456789''" for k
  proof -
    have "nat (rnd k mod 10) < length ''0123456789''"
      by (simp add: nat_less_iff)
    then have "allDigit ! nat (rnd k mod 10) = ''0123456789'' ! nat (rnd k mod 10)"
      unfolding allDigit_def by (rule nth_append_left)
    with \<open>nat (rnd k mod 10) < length ''0123456789''\<close> show ?thesis
      by (metis nth_mem)
  qed
  then have d: "set ?d \<subseteq> set ''0123456789''" by auto
  then have "NUL \<notin> set ?d" by auto
  with g d show ?thesis
    by (simp add: strlen_def terminated_def)
qed

theorem generateRandIntStr_pin_witness:
  "\<exists>pin'. generateRandIntStr (\<lambda>k. int k) (replicate 7 NUL) 6 = Inr pin' \<and> strlen pin' = Inr 6"
  using generateRandIntStr_pin [of "replicate 7 NUL" "\<lambda>k. int k"] by auto

end
