(* ===== verification/Hash.thy ===== *)
theory Hash
  imports CString
begin

text \<open>
  The opcode hash \<open>DJBHash\<close> of src/src/hash.c on 32-bit words, and the case labels by which
  \<open>talk\<close> (src/src/Talk.c) and \<open>HandleTopServerMsg\<close> (src/src/Send2OnlineUserViaAllServer.c) dispatch.
\<close>

section \<open>DJBHash\<close>

text \<open>The character is sign-extended before it is added.\<close>

fun DJBHash_loop :: "32 word \<Rightarrow> buf \<Rightarrow> nat \<Rightarrow> nat \<Rightarrow> 32 word res" where
  "DJBHash_loop hash str i 0 = ok hash"
| "DJBHash_loop hash str i (Suc n) =
     rbind (rd str (int i)) (\<lambda>c.
       DJBHash_loop ((push_bit 5 hash + hash) + word_of_int (schar c)) str (Suc i) n)"

definition DJBHash :: "buf \<Rightarrow> nat \<Rightarrow> nat res" where
  "DJBHash str len = rbind (DJBHash_loop 5381 str 0 len) (\<lambda>hash. ok (unat (hash mod 193400000)))"

text \<open>The operations of the user protocol, in the order of the switch in \<open>talk\<close>.\<close>

datatype opcode =
    HBA | RSA_REQ | PIN_REQ | SIB | SIA | REA | RME | SCE | IOT | TAA | STO | UPD | ADD | ADS
  | ICM | DSC | IOC | RCO | RPA

definition opcode_of_hash :: "nat \<Rightarrow> opcode option" where
  "opcode_of_hash h =
     (if h = 57648 then Some HBA else if h = 69099 then Some RSA_REQ
      else if h = 66604 then Some PIN_REQ else if h = 69859 then Some SIB
      else if h = 69858 then Some SIA else if h = 68637 then Some REA
      else if h = 68905 then Some RME else if h = 69664 then Some SCE
      else if h = 59185 then Some IOT else if h = 70683 then Some TAA
      else if h = 70235 then Some STO else if h = 72270 then Some UPD
      else if h = 50094 then Some ADD else if h = 50109 then Some ADS
      else if h = 58782 then Some ICM else if h = 53855 then Some DSC
      else if h = 59168 then Some IOC else if h = 68585 then Some RCO
      else if h = 69000 then Some RPA else None)"

text \<open>The tag a client sends for an operation: the comment at each case label.\<close>

fun tag_of :: "opcode \<Rightarrow> string" where
  "tag_of HBA = ''HBA''" | "tag_of RSA_REQ = ''RSA''" | "tag_of PIN_REQ = ''PIN''"
| "tag_of SIB = ''SIB''" | "tag_of SIA = ''SIA''" | "tag_of REA = ''REA''"
| "tag_of RME = ''RME''" | "tag_of SCE = ''SCE''" | "tag_of IOT = ''IOT''"
| "tag_of TAA = ''TAA''" | "tag_of STO = ''STO''" | "tag_of UPD = ''UPD''"
| "tag_of ADD = ''ADD''" | "tag_of ADS = ''ADS''" | "tag_of ICM = ''ICM''"
| "tag_of DSC = ''DSC''" | "tag_of IOC = ''IOC''" | "tag_of RCO = ''RCO''"
| "tag_of RPA = ''RPA''"

text \<open>What \<open>talk\<close> does with the first three bytes of the check code.\<close>

definition dispatch_tag :: "buf \<Rightarrow> opcode option res" where
  "dispatch_tag checkcode =
     rbind (memcpy (replicate 4 NUL) checkcode 3) (\<lambda>tag.
     rbind (DJBHash tag 3) (\<lambda>h. ok (opcode_of_hash h)))"

section \<open>The hash of a three-byte tag\<close>

lemma DJBHash3:
  "DJBHash (a # b # c # r) 3 =
     Inr (nat ((193376997 + 1089 * schar a + 33 * schar b + schar c) mod 2 ^ 32) mod 193400000)"
proof -
  let ?h = "\<lambda>h x. (push_bit 5 h + h) + word_of_int (schar x) :: 32 word"
  have "?h h x = word_of_int (33 * uint h + schar x)" for h x
    by (simp add: push_bit_eq_mult)
  then have "?h (?h (?h 5381 a) b) c
    = word_of_int (33 * uint (word_of_int (33 * uint (word_of_int (33 * 5381 + schar a) :: 32 word) + schar b) :: 32 word) + schar c)"
    by simp
  also have "\<dots> = word_of_int (193376997 + 1089 * schar a + 33 * schar b + schar c)"
    by (simp add: algebra_simps)
  finally have h: "?h (?h (?h 5381 a) b) c = word_of_int (193376997 + 1089 * schar a + 33 * schar b + schar c)" .
  have w: "unat (word_of_int x :: 32 word) = nat (x mod 2 ^ 32)" for x
    unfolding unat_eq_nat_uint uint_word_of_int by simp
  have "unat (193400000 :: 32 word) = 193400000" by simp
  then have "unat (word_of_int x mod 193400000 :: 32 word) = nat (x mod 2 ^ 32) mod 193400000" for x
    by (simp only: unat_mod w)
  moreover have "DJBHash_loop 5381 (a # b # c # r) 0 3 = Inr (?h (?h (?h 5381 a) b) c)"
    unfolding numeral_3_eq_3 by (simp only: DJBHash_loop.simps rd_def) simp
  ultimately show ?thesis
    unfolding DJBHash_def h by (simp only: rbind_Inr)
qed

text \<open>On seven-bit tags nothing wraps: the hash is a linear form plus a constant.\<close>

lemma DJBHash3_ascii:
  assumes "(of_char a :: nat) < 128" "(of_char b :: nat) < 128" "(of_char c :: nat) < 128"
    and "1089 * of_char a + 33 * of_char b + of_char c \<ge> (23003 :: nat)"
  shows "DJBHash (a # b # c # r) 3 = Inr (1089 * of_char a + 33 * of_char b + of_char c - 23003)"
proof -
  define x :: nat where "x = 1089 * of_char a + 33 * of_char b + of_char c"
  have "x < 143744" using assms(1-3) by (simp add: x_def)
  moreover obtain y where y: "x = 23003 + y"
    using assms(4) le_Suc_ex [of 23003 x] by (auto simp: x_def)
  ultimately have "(193376997 + x) mod 2 ^ 32 mod 193400000 = x - 23003"
    by simp
  moreover have "193376997 + 1089 * schar a + 33 * schar b + schar c = int (193376997 + x)"
    using assms(1-3) by (simp add: x_def schar_ascii)
  moreover have "nat (int n mod 2 ^ 32) = n mod 2 ^ 32" for n
    by (simp add: nat_mod_distrib nat_power_eq)
  ultimately show ?thesis
    unfolding DJBHash3 x_def [symmetric] by (simp only:)
qed


text \<open>
  C31: the case labels of \<open>talk\<close> are the hashes of the tags their comments name: a check code that
  starts with the tag of an operation is dispatched to that operation.
\<close>

theorem dispatch_tag_of:
  "dispatch_tag (tag_of op @ rest) = Inr (Some op)"
proof -
  have "dispatch_tag (a # b # c # rest) = rbind (DJBHash [a, b, c, NUL] 3) (\<lambda>h. ok (opcode_of_hash h))" for a b c
    by (simp add: dispatch_tag_def memcpy_def put_def)
  then show ?thesis
    by (cases op) (simp_all add: DJBHash3_ascii opcode_of_hash_def)
qed

text \<open>
  on tags of three upper-case letters the hash is injective, so that no other such tag is
  taken for an operation of the switch.
\<close>

theorem DJBHash_upper_inj:
  assumes "set [a, b, c, a', b', c'] \<subseteq> set ''ABCDEFGHIJKLMNOPQRSTUVWXYZ''"
    and "DJBHash (a # b # c # r) 3 = DJBHash (a' # b' # c' # r') 3"
  shows "a = a' \<and> b = b' \<and> c = c'"
proof -
  let ?n = "of_char :: char \<Rightarrow> nat"
  have u: "65 \<le> ?n x \<and> ?n x \<le> 90" if "x \<in> set [a, b, c, a', b', c']" for x
  proof -
    have "x \<in> set ''ABCDEFGHIJKLMNOPQRSTUVWXYZ''" using assms(1) that by blast
    then show ?thesis by auto
  qed
  have r: "65 \<le> ?n a" "?n a \<le> 90" "65 \<le> ?n b" "?n b \<le> 90" "65 \<le> ?n c" "?n c \<le> 90"
    "65 \<le> ?n a'" "?n a' \<le> 90" "65 \<le> ?n b'" "?n b' \<le> 90" "65 \<le> ?n c'" "?n c' \<le> 90"
    using u by simp_all
  then have "1089 * ?n a + 33 * ?n b + ?n c - 23003 = 1089 * ?n a' + 33 * ?n b' + ?n c' - 23003"
    using assms(2) DJBHash3_ascii [of a b c r] DJBHash3_ascii [of a' b' c' r'] by simp
  with r have eq: "1089 * ?n a + 33 * ?n b + ?n c = 1089 * ?n a' + 33 * ?n b' + ?n c'"
    by linarith
  with r have a: "?n a = ?n a'" by linarith
  with r eq have b: "?n b = ?n b'" by linarith
  with a eq have "?n c = ?n c'" by linarith
  with a b show ?thesis by (simp only: of_char_eq_iff)
qed

theorem DJBHash_upper_inj_witness: "DJBHash ''SIA'' 3 \<noteq> DJBHash ''SIB'' 3"
  using DJBHash_upper_inj [of "CHR ''S''" "CHR ''I''" "CHR ''A''" "CHR ''S''" "CHR ''I''" "CHR ''B''" "[]" "[]"]
  by auto

text \<open>
  the bound on letters matters: 33 values separate neighbouring second letters, so that a tag
  with a blank in third place is dispatched as a different operation.
\<close>

theorem dispatch_collision: "dispatch_tag (''SJ '' @ rest) = Inr (Some SIA)"
  by (simp add: dispatch_tag_def memcpy_def put_def DJBHash3_ascii opcode_of_hash_def)

end
