(* ===== verification/NumTheory.thy ===== *)
theory NumTheory
  imports Main
begin

text \<open>
  The number theory behind the RSA component: primes, Fermat's little theorem, the RSA exponent
  law modulo a product of two distinct primes, and facts on coprimality.
\<close>

definition is_prime :: "nat \<Rightarrow> bool" where
  "is_prime p \<longleftrightarrow> 1 < p \<and> (\<forall>d\<in>{2..<p}. \<not> d dvd p)"

lemma is_prime_coprime:
  assumes "is_prime p" and "0 < k" and "k < p"
  shows "coprime p k"
proof -
  have "gcd p k dvd p" "gcd p k dvd k" by simp_all
  then have "gcd p k \<le> k" using assms(2) by (simp add: dvd_imp_le)
  with assms(3) have "gcd p k < p" by simp
  with \<open>gcd p k dvd p\<close> assms(1) have "gcd p k < 2"
    unfolding is_prime_def by (metis atLeastLessThan_iff not_less)
  moreover have "gcd p k \<noteq> 0" using assms(2) by simp
  ultimately have "gcd p k = 1" by linarith
  then show ?thesis by (simp add: coprime_iff_gcd_eq_1)
qed

lemma prime_dvd_binomial:
  assumes "is_prime p" and "0 < k" and "k < p"
  shows "p dvd (p choose k)"
proof -
  have "k * (p choose k) = p * ((p - 1) choose (k - 1))"
    using assms(2) by (simp add: times_binomial_minus1_eq)
  then have "p dvd k * (p choose k)" by simp
  then show ?thesis
    using is_prime_coprime [OF assms] by (simp add: coprime_dvd_mult_right_iff)
qed

lemma power_Suc_base_mod_prime:
  assumes "is_prime p"
  shows "(a + 1) ^ p mod p = (a ^ p + 1) mod (p::nat)"
proof -
  have p: "1 < p" using assms by (simp add: is_prime_def)
  have "(a + 1) ^ p = (\<Sum>k\<le>p. (p choose k) * a ^ k)"
    using binomial_ring [of a 1 p] by simp
  also have "\<dots> = (\<Sum>k\<in>insert 0 (insert p {0<..<p}). (p choose k) * a ^ k)"
    using p by (intro sum.cong) auto
  also have "\<dots> = 1 + (a ^ p + (\<Sum>k\<in>{0<..<p}. (p choose k) * a ^ k))"
    using p by simp
  finally have e: "(a + 1) ^ p = (a ^ p + 1) + (\<Sum>k\<in>{0<..<p}. (p choose k) * a ^ k)"
    by simp
  have "p dvd (\<Sum>k\<in>{0<..<p}. (p choose k) * a ^ k)"
    using prime_dvd_binomial [OF assms] by (intro dvd_sum) auto
  then show ?thesis
    unfolding e by (metis dvd_eq_mod_eq_0 mod_add_right_eq add_0_right)
qed

theorem fermat_little:
  assumes "is_prime p"
  shows "a ^ p mod p = a mod (p::nat)"
proof (induction a)
  case 0
  have "p \<noteq> 0" using assms by (simp add: is_prime_def)
  then show ?case by (simp add: power_0_left)
next
  case (Suc a)
  have "Suc a ^ p mod p = (a ^ p + 1) mod p"
    using power_Suc_base_mod_prime [OF assms, of a] by simp
  also have "\<dots> = (a + 1) mod p"
    using Suc by (metis mod_add_left_eq)
  finally show ?case by simp
qed

lemma rsa_exponent_prime:
  assumes "is_prime p"
  shows "a ^ (1 + k * (p - 1)) mod p = a mod (p::nat)"
proof (induction k)
  case 0
  then show ?case by simp
next
  case (Suc k)
  have p: "1 < p" using assms by (simp add: is_prime_def)
  have "1 + Suc k * (p - 1) = k * (p - 1) + p" using p by simp
  then have "a ^ (1 + Suc k * (p - 1)) mod p = (a ^ (k * (p - 1)) * a ^ p) mod p"
    by (simp only: power_add)
  also have "\<dots> = (a ^ (k * (p - 1)) * a) mod p"
    by (metis fermat_little [OF assms] mod_mult_right_eq)
  also have "\<dots> = a ^ (1 + k * (p - 1)) mod p"
    by (simp add: ac_simps)
  finally show ?case using Suc by simp
qed

theorem rsa_exponent:
  assumes "is_prime p" and "is_prime q" and "p \<noteq> q" and "m < p * q"
    and "e * d = 1 + k * ((p - 1) * (q - 1))"
  shows "(m ^ e) ^ d mod (p * q) = (m::nat)"
proof -
  let ?x = "m ^ (e * d)"
  have "1 + k * ((p - 1) * (q - 1)) = 1 + (k * (q - 1)) * (p - 1)"
    and "1 + k * ((p - 1) * (q - 1)) = 1 + (k * (p - 1)) * (q - 1)"
    by (simp_all add: ac_simps)
  then have pm: "?x mod p = m mod p" and qm: "?x mod q = m mod q"
    using rsa_exponent_prime [OF assms(1)] rsa_exponent_prime [OF assms(2)] assms(5) by metis+
  have "coprime p q"
    using is_prime_coprime [OF assms(1), of q] is_prime_coprime [OF assms(2), of p] assms(1-3)
    by (metis coprime_commute is_prime_def less_trans linorder_neqE_nat zero_less_one)
  moreover have "int p dvd int ?x - int m" "int q dvd int ?x - int m"
    using pm qm by (metis mod_eq_dvd_iff of_nat_mod)+
  ultimately have "int p * int q dvd int ?x - int m"
    by (intro divides_mult) simp_all
  then have "int (?x mod (p * q)) = int (m mod (p * q))"
    by (metis mod_eq_dvd_iff of_nat_mod of_nat_mult)
  with assms(4) show ?thesis by (simp add: power_mult)
qed

end
