(* ===== verification/Rsa.thy ===== *)
theory Rsa
  imports CString NumTheory
begin

text \<open>
  src/src/RSAUtils.c: modular exponentiation, the Solovay-Strassen test, random primes and
  exponents, the modular inverse, block encoding and decoding, and key generation. \<open>int\<close> and
  \<open>long long\<close> arithmetic is wrapped where the source computes at that width. \<open>rand\<close> is a stream of
  results read through an index; the unbounded \<open>while(1)\<close> loops are partial functions whose \<open>None\<close>
  is non-termination. \<open>readFile\<close>, which no code calls, is left out.
\<close>

section \<open>Arithmetic\<close>

function modpow_loop :: "int \<Rightarrow> int \<Rightarrow> int \<Rightarrow> int \<Rightarrow> int res" where
  "modpow_loop res a b c =
     (if 0 < b
      then if c = 0 then fault DivByZero
           else modpow_loop (if b mod 2 = 1 then i32 (i64 (res * a) smod c) else res)
                  (i64 (a * a) smod c) (b div 2) c
      else ok res)"
  by pat_completeness auto
termination
  by (relation "measure (\<lambda>(r, a, b, c). nat b)") auto

definition modpow :: "int \<Rightarrow> int \<Rightarrow> int \<Rightarrow> int res" where
  "modpow a b c = modpow_loop 1 a b c"

text \<open>\<open>while (a % 2 == 0 && ++twos) a /= 2;\<close> with \<open>a > 1\<close> at its only call.\<close>

function factor_twos :: "int \<Rightarrow> int \<Rightarrow> int \<times> int" where
  "factor_twos a twos = (if 0 < a \<and> a mod 2 = 0 then factor_twos (a div 2) (twos + 1) else (a, twos))"
  by pat_completeness auto
termination
  by (relation "measure (\<lambda>(a, t). nat a)") auto

declare factor_twos.simps [simp del]

lemma factor_twos_bounds: "0 < a \<Longrightarrow> 0 < fst (factor_twos a t) \<and> fst (factor_twos a t) \<le> a"
proof (induction a t rule: factor_twos.induct)
  case (1 a t)
  show ?case
  proof (cases "a mod 2 = 0")
    case True
    then have "0 < a div 2" "a div 2 \<le> a" using "1.prems" by presburger+
    with "1.IH" True "1.prems" show ?thesis by (subst (1 2) factor_twos.simps) auto
  next
    case False
    then show ?thesis using "1.prems" by (subst (1 2) factor_twos.simps) simp
  qed
qed

text \<open>
  The loop of \<open>jacobi\<close>. \<open>n\<close> shrinks with every round: it becomes the odd part of \<open>a % n\<close>.
\<close>

function jacobi_loop :: "int \<Rightarrow> int \<Rightarrow> int \<Rightarrow> (int \<times> int) res" where
  "jacobi_loop a n mult =
     (if 1 < a \<and> a \<noteq> n
      then if n = 0 then fault DivByZero
        else (let a1 = a smod n in
          if a1 \<le> 1 \<or> a1 = n then ok (a1, mult)
          else (case factor_twos a1 0 of (a2, twos) \<Rightarrow>
            let mult1 = (if 0 < twos \<and> twos smod 2 = 1
                         then mult * ((if n smod 8 = 1 \<or> n smod 8 = 7 then 1 else 0) * 2 - 1) else mult)
            in if a2 \<le> 1 \<or> a2 = n then ok (a2, mult1)
               else jacobi_loop n a2 (if n smod 4 \<noteq> 1 \<and> a2 smod 4 \<noteq> 1 then mult1 * -1 else mult1)))
      else ok (a, mult))"
  by pat_completeness auto
termination
proof (relation "measure (\<lambda>(a, n, m). nat \<bar>n\<bar>)", goal_cases)
  case 1
  show ?case by simp
next
  case (2 a n mult a1 a2 twos)
  then have a2: "a2 = fst (factor_twos a1 0)" by (metis fst_conv)
  have a1: "1 < a1" "a1 = a smod n" using 2 by simp_all
  then have "a2 \<le> a1" "0 < a2" using factor_twos_bounds [of a1 0] a2 by simp_all
  moreover have "a1 < \<bar>n\<bar>"
    using a1 2(1,2) smod_int_range [of n a] by (auto split: if_splits)
  ultimately show ?case by simp
qed

definition jacobi :: "int \<Rightarrow> int \<Rightarrow> int res" where
  "jacobi a n = rbind (jacobi_loop a n 1) (\<lambda>(a', mult).
     ok (if a' = 0 then 0 else if a' = 1 then mult else 0))"

definition solovayPrime :: "int \<Rightarrow> int \<Rightarrow> bool res" where
  "solovayPrime a n = rbind (jacobi a n) (\<lambda>x0.
     let x = (if x0 = -1 then n - 1 else x0) in
     if x \<noteq> 0 then rbind (modpow a ((n - 1) sdiv 2) n) (\<lambda>m. ok (m = x)) else ok False)"

fun probablePrime_loop :: "(nat \<Rightarrow> int) \<Rightarrow> int \<Rightarrow> nat \<Rightarrow> nat \<Rightarrow> (bool \<times> nat) res" where
  "probablePrime_loop rnd n 0 t = ok (True, t)"
| "probablePrime_loop rnd n (Suc k) t =
     (if n - 2 = 0 then fault DivByZero
      else rbind (solovayPrime (rnd t smod (n - 2) + 2) n) (\<lambda>b.
        if \<not> b then ok (False, Suc t) else probablePrime_loop rnd n k (Suc t)))"

definition probablePrime :: "(nat \<Rightarrow> int) \<Rightarrow> int \<Rightarrow> nat \<Rightarrow> nat \<Rightarrow> (bool \<times> nat) res" where
  "probablePrime rnd n k t =
     (if n = 2 then ok (True, t)
      else if n smod 2 = 0 \<or> n = 1 then ok (False, t)
      else probablePrime_loop rnd n k t)"

definition ACCURACY :: nat where
  "ACCURACY = 10"

partial_function (option) randPrime_loop :: "(nat \<Rightarrow> int) \<Rightarrow> int \<Rightarrow> int \<Rightarrow> nat \<Rightarrow> (int \<times> nat) res option" where
  "randPrime_loop rnd n prime t =
     (case probablePrime rnd prime ACCURACY t of
        Inl f \<Rightarrow> Some (Inl f)
      | Inr (b, t') \<Rightarrow> if b then Some (ok (prime, t')) else randPrime_loop rnd n ((prime + 2) smod n) t')"

definition randPrime :: "(nat \<Rightarrow> int) \<Rightarrow> int \<Rightarrow> nat \<Rightarrow> (int \<times> nat) res option" where
  "randPrime rnd n t =
     (if n = 0 then Some (fault DivByZero)
      else let prime = rnd t smod n; n' = n + n smod 2; prime' = prime + (1 - prime smod 2)
           in randPrime_loop rnd n' prime' (Suc t))"

function gcd_c :: "int \<Rightarrow> int \<Rightarrow> int" where
  "gcd_c a b = (if b \<noteq> 0 then gcd_c b (a smod b) else a)"
  by pat_completeness auto
termination
proof (relation "measure (\<lambda>(a, b). nat \<bar>b\<bar>)", goal_cases)
  case 1
  show ?case by simp
next
  case (2 a b)
  then show ?case using smod_int_range [of b a] by (auto split: if_splits)
qed

partial_function (option) randExponent_loop :: "int \<Rightarrow> int \<Rightarrow> int \<Rightarrow> int option" where
  "randExponent_loop phi n e =
     (if gcd_c e phi = 1 then Some e
      else let e' = (e + 1) smod n in randExponent_loop phi n (if e' \<le> 2 then 3 else e'))"

definition randExponent :: "(nat \<Rightarrow> int) \<Rightarrow> int \<Rightarrow> int \<Rightarrow> nat \<Rightarrow> (int \<times> nat) res option" where
  "randExponent rnd phi n t =
     (if n = 0 then Some (fault DivByZero)
      else map_option (\<lambda>e. ok (e, Suc t)) (randExponent_loop phi n (rnd t smod n)))"

text \<open>The extended Euclidean loop; every product and difference is computed at \<open>int\<close> width.\<close>

function inverse_loop :: "int \<Rightarrow> int \<Rightarrow> int \<Rightarrow> int \<Rightarrow> int \<Rightarrow> int \<Rightarrow> int \<times> int" where
  "inverse_loop a b x y x0 y0 =
     (if b \<noteq> 0
      then (let q = a sdiv b
            in inverse_loop b (a smod b) (i32 (x0 - i32 (q * x))) (i32 (y0 - i32 (q * y))) x y)
      else (a, x0))"
  by pat_completeness auto
termination
proof (relation "measure (\<lambda>(a, b, x, y, x0, y0). nat \<bar>b\<bar>)", goal_cases)
  case 1
  show ?case by simp
next
  case (2 a b x y x0 y0 q)
  then show ?case using smod_int_range [of b a] by (auto split: if_splits)
qed

definition inverse_c :: "int \<Rightarrow> int \<Rightarrow> int" where
  "inverse_c n modulus =
     (let x0 = snd (inverse_loop n modulus 0 1 1 0) in if x0 < 0 then i32 (x0 + modulus) else x0)"

definition encode :: "int \<Rightarrow> int \<Rightarrow> int \<Rightarrow> int res" where
  "encode m e n = modpow m e n"

definition decode :: "int \<Rightarrow> int \<Rightarrow> int \<Rightarrow> int res" where
  "decode c d n = modpow c d n"

declare modpow_loop.simps [simp del]
declare jacobi_loop.simps [simp del]
declare gcd_c.simps [simp del]
declare inverse_loop.simps [simp del]

section \<open>Blocks and keys\<close>

fun enc_block :: "buf \<Rightarrow> int \<Rightarrow> nat \<Rightarrow> nat \<Rightarrow> int \<Rightarrow> int res" where
  "enc_block message i 0 j x = ok x"
| "enc_block message i (Suc n) j x =
     rbind (rd message (i + int j)) (\<lambda>c. enc_block message i n (Suc j) (i32 (x + schar c * 2 ^ (7 * j))))"

text \<open>
  \<open>bytes\<close> is the key's \<open>encryptBlockBytes\<close>, which is 0 in a cleared key and 1, 2 or 3 otherwise. With 0
  the index computation divides by zero.
\<close>

function encodeMessage_loop ::
  "int \<Rightarrow> nat \<Rightarrow> buf \<Rightarrow> int list \<Rightarrow> int \<Rightarrow> int \<Rightarrow> int \<Rightarrow> int list res" where
  "encodeMessage_loop len bytes message outCrypto exponent modulus i =
     (if i < len
      then if bytes = 0 then fault DivByZero
        else rbind (enc_block message i bytes 0 0) (\<lambda>x.
             rbind (decode x exponent modulus) (\<lambda>y.
             rbind (wr outCrypto (i sdiv int bytes) y) (\<lambda>out.
               encodeMessage_loop len bytes message out exponent modulus (i + int bytes))))
      else ok outCrypto)"
  by pat_completeness auto
termination
  by (relation "measure (\<lambda>(len, bytes, m, out, e, n, i). nat (len - i))") auto

definition encodeMessage :: "int \<Rightarrow> nat \<Rightarrow> buf \<Rightarrow> int list \<Rightarrow> int \<Rightarrow> int \<Rightarrow> int list res" where
  "encodeMessage len bytes message outCrypto exponent modulus =
     encodeMessage_loop len bytes message outCrypto exponent modulus 0"

fun dec_block :: "int \<Rightarrow> nat \<Rightarrow> nat \<Rightarrow> nat \<Rightarrow> nat \<Rightarrow> buf \<Rightarrow> buf res" where
  "dec_block x i bytes 0 j outSource = ok outSource"
| "dec_block x i bytes (Suc n) j outSource =
     rbind (wr outSource (int (i * bytes + j)) (char_of_int ((x div 2 ^ (7 * j)) smod 128))) (\<lambda>out.
       dec_block x i bytes n (Suc j) out)"

fun decodeMessage_loop ::
  "nat \<Rightarrow> nat \<Rightarrow> int list \<Rightarrow> buf \<Rightarrow> int \<Rightarrow> int \<Rightarrow> nat \<Rightarrow> buf res" where
  "decodeMessage_loop 0 bytes cryptogram outSource exponent modulus i = ok outSource"
| "decodeMessage_loop (Suc n) bytes cryptogram outSource exponent modulus i =
     rbind (rd cryptogram (int i)) (\<lambda>c.
     rbind (decode c exponent modulus) (\<lambda>x.
     rbind (dec_block x i bytes bytes 0 outSource) (\<lambda>out.
       decodeMessage_loop n bytes cryptogram out exponent modulus (Suc i))))"

definition decodeMessage :: "nat \<Rightarrow> nat \<Rightarrow> int list \<Rightarrow> buf \<Rightarrow> int \<Rightarrow> int \<Rightarrow> buf res" where
  "decodeMessage len bytes cryptogram outSource exponent modulus =
     decodeMessage_loop len bytes cryptogram outSource exponent modulus 0"

record RSAKey =
  publicKey :: int
  privateKey :: int
  commonKey :: int
  encryptBlockBytes :: nat

definition SINGLE_MAX :: int where
  "SINGLE_MAX = 10000"

definition EXPONENT_MAX :: int where
  "EXPONENT_MAX = 10000"

partial_function (option) InitRSA_pq :: "(nat \<Rightarrow> int) \<Rightarrow> nat \<Rightarrow> (int \<times> int \<times> nat) res option" where
  "InitRSA_pq rnd t =
     Option.bind (randPrime rnd SINGLE_MAX t) (\<lambda>rp.
       case rp of Inl f \<Rightarrow> Some (Inl f)
       | Inr (p, t1) \<Rightarrow> Option.bind (randPrime rnd SINGLE_MAX t1) (\<lambda>rq.
           case rq of Inl f \<Rightarrow> Some (Inl f)
           | Inr (q, t2) \<Rightarrow> if i32 (p * q) < 128 then InitRSA_pq rnd t2 else Some (ok (p, q, t2))))"

definition block_bytes :: "int \<Rightarrow> nat" where
  "block_bytes n = (if n div 2 ^ 21 \<noteq> 0 then 3 else if n div 2 ^ 14 \<noteq> 0 then 2 else 1)"

definition InitRSA :: "(nat \<Rightarrow> int) \<Rightarrow> nat \<Rightarrow> (RSAKey \<times> nat) res option" where
  "InitRSA rnd t =
     Option.bind (InitRSA_pq rnd t) (\<lambda>r. case r of Inl f \<Rightarrow> Some (Inl f)
       | Inr (p, q, t1) \<Rightarrow>
           let n = i32 (p * q); phi = i32 ((p - 1) * (q - 1)) in
           Option.bind (randExponent rnd phi EXPONENT_MAX t1) (\<lambda>re. case re of Inl f \<Rightarrow> Some (Inl f)
             | Inr (e, t2) \<Rightarrow>
                 Some (ok (\<lparr>publicKey = e, privateKey = inverse_c e phi, commonKey = n,
                           encryptBlockBytes = block_bytes n\<rparr>, t2))))"

declare encodeMessage_loop.simps [simp del]

section \<open>modpow, gcd and inverse\<close>

lemma mod_square_power:
  "(0::int) < b \<Longrightarrow> (x * (if b mod 2 = 1 then a else 1)) * (a * a) ^ nat (b div 2) = x * (a::int) ^ nat b"
proof -
  assume "0 < b"
  then obtain k where b: "b = int k" "0 < k" by (metis pos_int_cases)
  have "nat (b div 2) = k div 2" using b by (simp add: nat_div_distrib)
  moreover have "(a * a) ^ (k div 2) = a ^ (2 * (k div 2))"
    by (simp only: power_mult power2_eq_square)
  moreover have "a ^ k = (if k mod 2 = 1 then a else 1) * a ^ (2 * (k div 2))"
  proof (cases "even k")
    case True
    then show ?thesis by auto
  next
    case False
    then have "k = Suc (2 * (k div 2))" by simp
    then have "a ^ k = a * a ^ (2 * (k div 2))" by (metis power_Suc)
    with False show ?thesis by (simp add: odd_iff_mod_2_eq_one)
  qed
  moreover have "(b mod 2 = 1) = (k mod 2 = 1)"
    using b(1) by (metis of_nat_1 of_nat_eq_iff of_nat_mod of_nat_numeral)
  ultimately show ?thesis using b by (simp add: mult.assoc)
qed

lemma modpow_loop_ok:
  assumes "0 < c" and "c < 2 ^ 31" and "0 \<le> a" and "a < 2 ^ 31" and "0 \<le> res" and "res < 2 ^ 31"
  shows "modpow_loop res a b c = Inr (if b \<le> 0 then res else (res * a ^ nat b) mod c)"
  using assms
proof (induction res a b c rule: modpow_loop.induct)
  case (1 res a b c)
  show ?case
  proof (cases "0 < b")
    case False
    then show ?thesis by (subst modpow_loop.simps) simp
  next
    case True
    have ra: "res * a < 2 ^ 63" "a * a < 2 ^ 63" "0 \<le> res * a" "0 \<le> a * a"
      using "1.prems" mult_strict_mono [of res "2 ^ 31" a "2 ^ 31 :: int"]
        mult_strict_mono [of a "2 ^ 31" a "2 ^ 31 :: int"] by auto
    have i: "i64 (res * a) = res * a" "i64 (a * a) = a * a"
      using ra by (intro i64_id; linarith)+
    have sm: "i64 (res * a) smod c = res * a mod c" "i64 (a * a) smod c = a * a mod c"
      unfolding i using ra "1.prems"(1) by simp_all
    have m: "i32 (res * a mod c) = res * a mod c"
    proof -
      have "0 \<le> res * a mod c" "res * a mod c < c" using "1.prems"(1) by simp_all
      then show ?thesis using "1.prems"(2) by (intro i32_id) linarith+
    qed
    let ?r = "if b mod 2 = 1 then res * a mod c else res"
    have step: "modpow_loop res a b c = modpow_loop ?r (a * a mod c) (b div 2) c"
      using True "1.prems"(1) ra i m by (subst modpow_loop.simps) simp
    have lt: "x mod c < 2 ^ 31" "0 \<le> x mod c" for x
      using "1.prems"(1,2) by (auto intro: less_trans [OF pos_mod_bound])
    have "modpow_loop (if b mod 2 = 1 then i32 (i64 (res * a) smod c) else res) (i64 (a * a) smod c) (b div 2) c
      = Inr (if b div 2 \<le> 0 then (if b mod 2 = 1 then i32 (i64 (res * a) smod c) else res)
        else ((if b mod 2 = 1 then i32 (i64 (res * a) smod c) else res) * (i64 (a * a) smod c) ^ nat (b div 2)) mod c)"
      using "1.prems" True ra i m lt by (intro "1.IH") auto
    then have ih: "modpow_loop ?r (a * a mod c) (b div 2) c =
      Inr (if b div 2 \<le> 0 then ?r else (?r * (a * a mod c) ^ nat (b div 2)) mod c)"
      by (simp only: sm m)
    have "(?r * (a * a mod c) ^ nat (b div 2)) mod c
        = ((res * (if b mod 2 = 1 then a else 1)) * (a * a) ^ nat (b div 2)) mod c"
      by (simp add: mod_mult_left_eq power_mod mod_mult_right_eq flip: mod_mult_right_eq [of _ "(a * a mod c) ^ _"])
    also have "\<dots> = (res * a ^ nat b) mod c"
      by (simp only: mod_square_power [OF True])
    finally have r: "(?r * (a * a mod c) ^ nat (b div 2)) mod c = (res * a ^ nat b) mod c" .
    show ?thesis
    proof (cases "b div 2 \<le> 0")
      case True
      with \<open>0 < b\<close> have "b = 1" by presburger
      with step ih show ?thesis by simp
    next
      case False
      with True step ih r show ?thesis by simp
    qed
  qed
qed


lemma modpow_ok:
  assumes "0 < c" and "c < 2 ^ 31" and "0 \<le> a" and "a < 2 ^ 31" and "0 < b"
  shows "modpow a b c = Inr (a ^ nat b mod c)"
  using modpow_loop_ok [of c a 1 b] assms by (simp add: modpow_def)

lemma gcd_c_eq: "0 \<le> a \<Longrightarrow> 0 \<le> b \<Longrightarrow> gcd_c a b = gcd a b"
proof (induction a b rule: gcd_c.induct)
  case (1 a b)
  show ?case
  proof (cases "b = 0")
    case True
    then show ?thesis using "1.prems" by (subst gcd_c.simps) simp
  next
    case False
    then have "gcd_c a b = gcd_c b (a mod b)"
      using "1.prems" by (subst gcd_c.simps) simp
    also have "\<dots> = gcd b (a mod b)"
      using "1.IH" [OF False] "1.prems" False by simp
    finally show ?thesis by (simp add: gcd_red_int [symmetric])
  qed
qed

text \<open>
  The extended Euclidean loop. The coefficients alternate in sign; their absolute values
  \<open>X0, X, Y0, Y\<close> satisfy \<open>X * a + X0 * b = M\<close> and \<open>Y * a + Y0 * b = n\<close>, which bounds every intermediate
  result, so that no \<open>int\<close> operation overflows.
\<close>

lemma i32_between: "\<bar>v\<bar> \<le> M \<Longrightarrow> M < 2 ^ 31 \<Longrightarrow> i32 v = v"
  by (rule i32_id) linarith+

lemma inverse_loop_ok:
  assumes "s = 1 \<or> s = -1" and "0 < a" and "0 \<le> b"
    and "0 \<le> X0" "0 \<le> X" "0 \<le> Y0" "0 \<le> Y" "X0 \<le> M"
    and "X * a + X0 * b = M" and "Y * a + Y0 * b = n"
    and "s * (X0 * n - Y0 * M) = a" and "s * (Y * M - X * n) = b"
    and "M < 2 ^ 31" and "n < 2 ^ 31"
  shows "\<exists>r k. inverse_loop a b (- s * X) (s * Y) (s * X0) (- s * Y0) = (gcd a b, r)
    \<and> \<bar>r\<bar> \<le> M \<and> r * n + k * M = gcd a b"
  using assms
proof (induction "nat b" arbitrary: a b X0 X Y0 Y s rule: less_induct)
  case less
  show ?case
  proof (cases "b = 0")
    case True
    have "inverse_loop a b (- s * X) (s * Y) (s * X0) (- s * Y0) = (gcd a b, s * X0)"
      using True less.prems(2) by (subst inverse_loop.simps) simp
    moreover have "\<bar>s * X0\<bar> \<le> M" using less.prems(1,4,8) by auto
    moreover have "s * X0 * n + (- s * Y0) * M = gcd a b"
      using less.prems(2,11) True by (simp add: algebra_simps)
    ultimately show ?thesis by blast
  next
    case False
    then have b: "0 < b" using less.prems(3) by simp
    define q r where "q = a div b" and "r = a mod b"
    have qr: "a = q * b + r" "0 \<le> r" "r < b" "0 \<le> q"
      using b less.prems(2) by (auto simp: q_def r_def pos_imp_zdiv_nonneg_iff)
    let ?X = "X0 + q * X" and ?Y = "Y0 + q * Y"
    have inv: "?X * b + X * r = M" "?Y * b + Y * r = n"
      using less.prems(9,10) qr(1) by (simp_all add: algebra_simps)
    have nn: "0 \<le> q * X" "0 \<le> q * Y" "0 \<le> X * r" "0 \<le> Y * r"
      using qr less.prems by simp_all
    have "?X * 1 \<le> ?X * b" "?Y * 1 \<le> ?Y * b" "X * 1 \<le> X * a"
      using b nn less.prems by (intro mult_left_mono; simp)+
    moreover have "0 \<le> X0 * b" using less.prems b by simp
    ultimately have "?X \<le> ?X * b" "?Y \<le> ?Y * b" "X \<le> X * a" "0 \<le> X0 * b" by simp_all
    then have bd: "?X \<le> M" "?Y \<le> n" "X \<le> M"
      using inv nn less.prems(9) by auto
    have ix: "i32 (s * X0 - i32 (q * (- s * X))) = s * ?X" and iy: "i32 (- s * Y0 - i32 (q * (s * Y))) = - s * ?Y"
    proof -
      have "\<bar>q * (- s * X)\<bar> \<le> M" "\<bar>q * (s * Y)\<bar> \<le> n" "\<bar>s * ?X\<bar> \<le> M" "\<bar>- s * ?Y\<bar> \<le> n"
        using less.prems(1,4,6) bd nn by (auto simp: abs_mult)
      then show "i32 (s * X0 - i32 (q * (- s * X))) = s * ?X" "i32 (- s * Y0 - i32 (q * (s * Y))) = - s * ?Y"
        using less.prems(13,14) i32_between by (simp_all add: algebra_simps)
    qed
    have step: "inverse_loop a b (- s * X) (s * Y) (s * X0) (- s * Y0)
      = inverse_loop b r (- (- s) * ?X) ((- s) * ?Y) ((- s) * X) (- (- s) * Y)"
      using False b less.prems(2) ix iy
      by (subst inverse_loop.simps) (simp add: q_def r_def Let_def)
    have "s * (Y * M - X * n) = b" by (rule less.prems(12))
    moreover have "(- s) * (?Y * M - ?X * n) = s * (X0 * n - Y0 * M) - q * (s * (Y * M - X * n))"
      by (simp add: algebra_simps)
    ultimately have co: "(- s) * (X * n - Y * M) = b" "(- s) * (?Y * M - ?X * n) = r"
      using less.prems(11) qr(1) by (simp_all add: algebra_simps)
    have "\<exists>r' k. inverse_loop b r (- (- s) * ?X) ((- s) * ?Y) ((- s) * X) (- (- s) * Y) = (gcd b r, r')
      \<and> \<bar>r'\<bar> \<le> M \<and> r' * n + k * M = gcd b r"
      using less.prems qr b nn bd inv co by (intro less.hyps) auto
    moreover have "gcd b r = gcd a b" by (simp add: r_def gcd_red_int [symmetric])
    ultimately show ?thesis unfolding step by simp
  qed
qed

lemma inverse_c_ok:
  assumes "0 < n" and "n < 2 ^ 31" and "0 < M" and "M < 2 ^ 31"
  shows "0 \<le> inverse_c n M \<and> inverse_c n M \<le> M \<and> (\<exists>k. n * inverse_c n M + k * M = gcd n M)"
proof -
  obtain r k where l: "inverse_loop n M 0 1 1 0 = (gcd n M, r)" and r: "\<bar>r\<bar> \<le> M"
    and e: "r * n + k * M = gcd n M"
    using inverse_loop_ok [of 1 n M 1 0 0 1 M n] assms by auto
  show ?thesis
  proof (cases "r < 0")
    case True
    then have "inverse_c n M = r + M"
      using l r assms by (simp add: inverse_c_def)
    moreover have "n * (r + M) + (k - n) * M = gcd n M"
      using e by (simp add: algebra_simps)
    moreover have "0 \<le> r + M" "r + M \<le> M" using True r by linarith+
    ultimately show ?thesis by metis
  next
    case False
    then have "inverse_c n M = r" using l by (simp add: inverse_c_def)
    with False r e show ?thesis by (auto simp: mult.commute intro!: exI [of _ k])
  qed
qed


section \<open>The random searches end\<close>

text \<open>
  \<open>randExponent\<close> walks upwards through \<open>3..n-1\<close> and wraps, so that it reaches any candidate in
  that range; eight odd primes below 24 cannot all divide a number below their product.
\<close>

definition small_primes :: "int list" where
  "small_primes = [3, 5, 7, 11, 13, 17, 19, 23]"

lemma small_prime_coprime:
  assumes "0 < phi" and "phi < (111546435 :: int)"
  shows "\<exists>e\<in>set small_primes. gcd e phi = 1"
proof (rule ccontr)
  assume "\<not> ?thesis"
  then have ne: "gcd e phi \<noteq> 1" if "e \<in> set small_primes" for e
    using that by auto
  have pr: "is_prime (nat e)" if "e \<in> set small_primes" for e
  proof -
    have "is_prime 3 \<and> is_prime 5 \<and> is_prime 7 \<and> is_prime 11 \<and> is_prime 13 \<and> is_prime 17 \<and> is_prime 19 \<and> is_prime 23"
      by code_simp
    with that show ?thesis by (auto simp: small_primes_def)
  qed
  have dv: "e dvd phi" if "e \<in> set small_primes" for e
  proof (rule ccontr)
    assume nd: "\<not> e dvd phi"
    have e: "1 < e" using that by (auto simp: small_primes_def)
    define k where "k = nat (phi mod e)"
    have "phi mod e \<noteq> 0" "0 \<le> phi mod e" "phi mod e < e"
      using nd e by (auto simp: dvd_eq_mod_eq_0)
    then have "coprime (nat e) k" using pr [OF that] by (intro is_prime_coprime) (auto simp: k_def)
    then have "coprime e (phi mod e)"
      using e by (simp add: k_def coprime_int_iff [symmetric] flip: of_nat_eq_iff)
    then have "gcd e phi = 1"
      by (simp add: coprime_iff_gcd_eq_1 gcd.commute [of e] gcd_red_int [of phi e] )
    with ne [OF that] show False by simp
  qed
  have d: "3 dvd phi" "5 dvd phi" "7 dvd phi" "11 dvd phi" "13 dvd phi" "17 dvd phi" "19 dvd phi" "23 dvd phi"
    using dv by (auto simp: small_primes_def)
  have c: "coprime (3::int) 5" "coprime (15::int) 7" "coprime (105::int) 11" "coprime (1155::int) 13"
    "coprime (15015::int) 17" "coprime (255255::int) 19" "coprime (4849845::int) 23"
    by code_simp+
  have "15 dvd phi" using divides_mult [OF d(1,2) c(1)] by simp
  then have "105 dvd phi" using divides_mult [OF _ d(3) c(2)] by simp
  then have "1155 dvd phi" using divides_mult [OF _ d(4) c(3)] by simp
  then have "15015 dvd phi" using divides_mult [OF _ d(5) c(4)] by simp
  then have "255255 dvd phi" using divides_mult [OF _ d(6) c(5)] by simp
  then have "4849845 dvd phi" using divides_mult [OF _ d(7) c(6)] by simp
  then have "111546435 dvd phi" using divides_mult [OF _ d(8) c(7)] by simp
  then show False using assms zdvd_imp_le [of "111546435" phi] by simp
qed


lemma randExponent_loop_reaches:
  assumes "3 \<le> e'" and "e' < n" and "gcd_c e' phi = 1" and "0 \<le> e" and "e < n"
  shows "\<exists>r. randExponent_loop phi n e = Some r \<and> gcd_c r phi = 1 \<and> 0 \<le> r \<and> r < n"
  using assms(4,5)
proof (induction "nat (if e \<le> e' then e' - e else n - e + e')" arbitrary: e rule: less_induct)
  case less
  show ?case
  proof (cases "gcd_c e phi = 1")
    case True
    then show ?thesis using less.prems by (subst randExponent_loop.simps) simp
  next
    case False
    define e1 where "e1 = (e + 1) smod n"
    define e2 where "e2 = (if e1 \<le> 2 then 3 else e1)"
    have ne: "e \<noteq> e'" using False assms(3) by auto
    have e1: "e1 = (if e + 1 = n then 0 else e + 1)"
      using less.prems by (simp add: e1_def)
    have "\<exists>r. randExponent_loop phi n e2 = Some r \<and> gcd_c r phi = 1 \<and> 0 \<le> r \<and> r < n"
      using less.prems assms(1,2) ne e1 by (intro less.hyps) (auto simp: e2_def)
    then show ?thesis unfolding e2_def e1_def
      using False by (subst randExponent_loop.simps) (simp add: Let_def)
  qed
qed

lemma jacobi_loop_ok: "0 < n \<Longrightarrow> \<exists>r. jacobi_loop a n m = Inr r"
proof (induction a n m rule: jacobi_loop.induct)
  case (1 a n m)
  obtain a2 twos where f: "factor_twos (a smod n) 0 = (a2, twos)" by fastforce
  show ?case
  proof (cases "1 < a \<and> a \<noteq> n \<and> \<not> (a smod n \<le> 1 \<or> a smod n = n) \<and> \<not> (a2 \<le> 1 \<or> a2 = n)")
    case True
    with "1.prems" "1.IH" [of "a smod n" a2 twos] f show ?thesis
      by (subst jacobi_loop.simps) (auto simp: Let_def)
  next
    case False
    with "1.prems" f show ?thesis by (subst jacobi_loop.simps) (auto simp: Let_def)
  qed
qed

lemma modpow_loop_no_fault: "c \<noteq> 0 \<Longrightarrow> \<exists>r. modpow_loop x a b c = Inr r"
proof (induction x a b c rule: modpow_loop.induct)
  case (1 x a b c)
  then show ?case by (cases "0 < b") (auto simp: modpow_loop.simps [of x a b c])
qed

lemma solovayPrime_ok: "0 < n \<Longrightarrow> \<exists>b. solovayPrime a n = Inr b"
  using jacobi_loop_ok [of n a 1] modpow_loop_no_fault [of n 1 a "(n - 1) sdiv 2"]
  by (auto simp: solovayPrime_def jacobi_def modpow_def Let_def)

lemma probablePrime_loop_ok: "2 < n \<Longrightarrow> \<exists>r. probablePrime_loop rnd n k t = Inr r"
proof (induction k arbitrary: t)
  case (Suc k)
  obtain b where "solovayPrime (rnd t smod (n - 2) + 2) n = Inr b"
    using solovayPrime_ok [of n] Suc.prems by auto
  with Suc show ?case by (cases b) auto
qed auto

lemma probablePrime_ok: "0 < n \<Longrightarrow> \<exists>r. probablePrime rnd n k t = Inr r"
  using probablePrime_loop_ok [of n rnd k t]
  by (cases "n = 2"; cases "n = 1") (auto simp: probablePrime_def)

lemma solovayPrime_3: "solovayPrime 2 3 = Inr True"
proof -
  have "jacobi_loop 2 3 1 = Inr (1, -1)"
    by (simp add: jacobi_loop.simps factor_twos.simps Let_def)
  then show ?thesis
    by (simp add: solovayPrime_def jacobi_def Let_def modpow_ok)
qed

lemma probablePrime_3: "\<exists>t'. probablePrime rnd 3 k t = Inr (True, t')"
proof -
  have "\<exists>t'. probablePrime_loop rnd 3 k t = Inr (True, t')"
  proof (induction k arbitrary: t)
    case (Suc k)
    have "rnd t smod 1 = 0" by (simp add: signed_modulo_int_def)
    with Suc show ?case by (simp add: solovayPrime_3)
  qed simp
  then show ?thesis by (simp add: probablePrime_def)
qed

lemma randPrime_loop_reaches:
  assumes "even n" and "4 \<le> n" and "odd p" and "0 < p" and "p < n"
  shows "\<exists>r t'. randPrime_loop rnd n p t = Some (Inr (r, t')) \<and> odd r \<and> 1 < r \<and> r < n
    \<and> (\<exists>t0. probablePrime rnd r ACCURACY t0 = Inr (True, t'))"
  using assms(3-5)
proof (induction "nat (if p \<le> 3 then 3 - p else n - p + 3)" arbitrary: p t rule: less_induct)
  case less
  obtain b t1 where pp: "probablePrime rnd p ACCURACY t = Inr (b, t1)"
    using probablePrime_ok [of p rnd ACCURACY t] less.prems by auto
  show ?case
  proof (cases b)
    case True
    moreover have "p \<noteq> 1" using pp True by (auto simp: probablePrime_def)
    ultimately show ?thesis
      using pp less.prems by (subst randPrime_loop.simps) auto
  next
    case False
    then have p3: "p \<noteq> 3" "p \<noteq> 2" using pp probablePrime_3 [of rnd ACCURACY t] less.prems(1) by auto
    define p1 where "p1 = (p + 2) smod n"
    have "p + 2 \<noteq> n" using less.prems assms(1) by auto
    then have "p + 2 < n \<or> p + 2 = n + 1" using less.prems assms(1) by presburger
    then consider "p + 2 < n" | "p + 2 = n + 1" by blast
    then have p1: "p1 = (if p + 2 < n then p + 2 else p + 2 - n)"
    proof cases
      case 1
      then show ?thesis using less.prems by (simp add: p1_def)
    next
      case 2
      then have "p + 2 = 1 + n" by simp
      then have "(p + 2) mod n = 1" using assms(2) by (simp only: mod_add_self2) simp
      with 2 show ?thesis using assms(2) less.prems by (simp add: p1_def)
    qed
    have "p + 2 < n \<or> p + 2 - n = 1" using less.prems assms(1) \<open>p + 2 \<noteq> n\<close> by presburger
    then have "\<exists>r t'. randPrime_loop rnd n p1 t1 = Some (Inr (r, t')) \<and> odd r \<and> 1 < r \<and> r < n
      \<and> (\<exists>t0. probablePrime rnd r ACCURACY t0 = Inr (True, t'))"
      using less.prems assms(1,2) p3 p1 by (intro less.hyps) (auto split: if_splits)
    then show ?thesis
      using pp False by (subst randPrime_loop.simps) (simp add: p1_def)
  qed
qed


section \<open>Blocks\<close>

text \<open>The value of a block of 7-bit characters: base 128, least significant character first.\<close>

fun block_val :: "buf \<Rightarrow> int" where
  "block_val [] = 0"
| "block_val (c # cs) = schar c + 128 * block_val cs"

definition seven_bit :: "buf \<Rightarrow> bool" where
  "seven_bit cs = list_all (\<lambda>c. of_char c < (128 :: int)) cs"

lemma of_char_nonneg [simp]: "0 \<le> (of_char c :: int)"
  using of_nat_0_le_iff [of "of_char c :: nat", where ?'a = int] by (simp only: of_nat_of_char)

lemma schar_seven_bit: "of_char c < (128 :: int) \<Longrightarrow> 0 \<le> schar c \<and> schar c < 128 \<and> schar c = of_char c"
  by (simp add: schar_def)

lemma block_val_bounds: "seven_bit cs \<Longrightarrow> 0 \<le> block_val cs \<and> block_val cs < 128 ^ length cs"
proof (induction cs)
  case (Cons c cs)
  then have "0 \<le> schar c" "schar c < 128" "0 \<le> block_val cs" "block_val cs < 128 ^ length cs"
    by (auto simp: seven_bit_def schar_seven_bit)
  then show ?case by simp
qed simp

lemma enc_block_ok:
  assumes "seven_bit cs" and "j + length cs \<le> 3" and "length pre = i" and "length mid = j"
    and "0 \<le> x" and "x < 2 ^ (7 * j)"
  shows "enc_block (pre @ mid @ cs @ post) (int i) (length cs) j x = Inr (x + 2 ^ (7 * j) * block_val cs)"
  using assms
proof (induction cs arbitrary: j x mid)
  case (Cons c cs)
  let ?x = "x + schar c * 2 ^ (7 * j)"
  have c: "0 \<le> schar c" "schar c < 128" using Cons.prems(1) by (auto simp: seven_bit_def schar_seven_bit)
  have j: "j = 0 \<or> j = 1 \<or> j = 2" using Cons.prems(2) by auto
  have x: "0 \<le> ?x" "?x < 2 ^ (7 * Suc j)" using c Cons.prems(5,6) j by auto
  have "i32 ?x = ?x" using x c Cons.prems(5,6) j by (intro i32_id) auto
  moreover have "rd (pre @ mid @ (c # cs) @ post) (int i + int j) = Inr c"
    using Cons.prems(3,4) by (simp add: rd_def nth_append nat_add_distrib)
  moreover have "enc_block (pre @ (mid @ [c]) @ cs @ post) (int i) (length cs) (Suc j) ?x
      = Inr (?x + 2 ^ (7 * Suc j) * block_val cs)"
    using Cons.prems x by (intro Cons.IH) (auto simp: seven_bit_def)
  ultimately show ?case by (simp add: algebra_simps power_add)
qed simp


lemma char_of_int_schar: "of_char c < (128 :: int) \<Longrightarrow> char_of_int (schar c) = c"
proof -
  assume "of_char c < (128 :: int)"
  then have "char_of_int (schar c) = char_of (nat (of_char c))"
    by (simp add: char_of_int_def schar_def)
  also have "nat (of_char c) = (of_char c :: nat)"
    by (metis nat_int of_nat_of_char)
  finally show ?thesis by simp
qed

lemma dec_block_ok:
  assumes "seven_bit cs" and "x div 2 ^ (7 * j) = block_val cs"
    and "length pre = i * bytes + j" and "length old = length cs"
  shows "dec_block x i bytes (length cs) j (pre @ old @ post) = Inr (pre @ cs @ post)"
  using assms
proof (induction cs arbitrary: j pre old)
  case (Cons c cs)
  obtain o1 os where old: "old = o1 # os" "length os = length cs"
    using Cons.prems(4) by (cases old) auto
  have c: "of_char c < (128 :: int)" "0 \<le> schar c" "schar c < 128"
    using Cons.prems(1) by (auto simp: seven_bit_def schar_seven_bit)
  have "0 \<le> block_val (c # cs)" using block_val_bounds [OF Cons.prems(1)] by simp
  then have "(x div 2 ^ (7 * j)) smod 128 = schar c"
    using Cons.prems(2) c by simp
  moreover have "wr (pre @ old @ post) (int (i * bytes + j)) (char_of_int (schar c)) = Inr ((pre @ [c]) @ os @ post)"
    using Cons.prems(3) old c by (simp add: wr_def char_of_int_schar list_update_append nat_add_distrib nat_mult_distrib)
  moreover have "x div 2 ^ (7 * Suc j) = block_val cs"
  proof -
    have "x div 2 ^ (7 * Suc j) = x div 2 ^ (7 * j) div 128"
      by (simp add: power_add zdiv_zmult2_eq [symmetric] mult.commute)
    also have "\<dots> = block_val cs" using Cons.prems(2) c by simp
    finally show ?thesis .
  qed
  ultimately show ?case
    using Cons.IH [of "Suc j" "pre @ [c]" os] Cons.prems old(2) by (simp add: seven_bit_def)
qed simp


lemma encodeMessage_loop_ok:
  assumes "0 < bytes" and "bytes \<le> 3" and "0 < e" and "0 < n" and "n < 2 ^ 31" and "128 ^ bytes \<le> n"
    and "list_all (\<lambda>b. length b = bytes \<and> seven_bit b) bs"
    and "length pre = bytes * length dn" and "length bs \<le> length old"
  shows "encodeMessage_loop (int (length pre + bytes * length bs)) bytes (pre @ concat bs @ post) (dn @ old) e n
      (int (length pre)) = Inr (dn @ map (\<lambda>b. block_val b ^ nat e mod n) bs @ drop (length bs) old)"
  using assms(7-9)
proof (induction bs arbitrary: pre dn old)
  case Nil
  then show ?case by (subst encodeMessage_loop.simps) simp
next
  case (Cons b bs)
  obtain o1 os where old: "old = o1 # os" using Cons.prems(3) by (cases old) auto
  have b: "length b = bytes" "seven_bit b" using Cons.prems(1) by simp_all
  have "enc_block (pre @ [] @ b @ (concat bs @ post)) (int (length pre)) (length b) 0 0
      = Inr (0 + 2 ^ (7 * 0) * block_val b)"
    using b assms(2) by (intro enc_block_ok) auto
  then have e1: "enc_block (pre @ b @ concat bs @ post) (int (length pre)) bytes 0 0 = Inr (block_val b)"
    using b by simp
  have bv: "0 \<le> block_val b" "block_val b < n"
    using block_val_bounds [OF b(2)] b(1) assms(6) by auto
  then have d1: "decode (block_val b) e n = Inr (block_val b ^ nat e mod n)"
    unfolding decode_def using assms(3-5) by (intro modpow_ok) auto
  have "int (length pre) sdiv int bytes = int (length dn)"
    using Cons.prems(2) assms(1) by simp
  then have w: "wr (dn @ old) (int (length pre) sdiv int bytes) v = Inr ((dn @ [v]) @ os)" for v
    using old by (simp add: wr_def list_update_append)
  have ih: "encodeMessage_loop (int (length (pre @ b) + bytes * length bs)) bytes ((pre @ b) @ concat bs @ post)
      ((dn @ [block_val b ^ nat e mod n]) @ os) e n (int (length (pre @ b)))
    = Inr ((dn @ [block_val b ^ nat e mod n]) @ map (\<lambda>b. block_val b ^ nat e mod n) bs @ drop (length bs) os)"
    using Cons.prems old b by (intro Cons.IH) auto
  have pos: "0 < int bytes + int bytes * int (length bs)"
    using assms(1) by (simp add: add_pos_nonneg)
  show ?case
    using ih assms(1) e1 d1 w b(1) old pos
    by (subst encodeMessage_loop.simps) (simp add: algebra_simps)
qed

lemma decodeMessage_loop_ok:
  assumes "0 < n" and "n < 2 ^ 31" and "0 < d"
    and "list_all2 (\<lambda>c b. 0 \<le> c \<and> c < n \<and> c ^ nat d mod n = block_val b \<and> length b = bytes \<and> seven_bit b) cs bs"
    and "length pre = length dn * bytes" and "length old = bytes * length cs"
  shows "decodeMessage_loop (length cs) bytes (dn @ cs @ rest) (pre @ old @ post) d n (length dn)
    = Inr (pre @ concat bs @ post)"
  using assms(4-6)
proof (induction cs bs arbitrary: pre dn old rule: list_all2_induct)
  case (Cons c cs b bs)
  define o1 o2 where "o1 = take bytes old" and "o2 = drop bytes old"
  have old: "old = o1 @ o2" "length o1 = length b" "length o2 = bytes * length cs"
    using Cons.prems(2) Cons.hyps(1) by (auto simp: o1_def o2_def)
  have "decode c d n = Inr (block_val b)"
    unfolding decode_def using Cons.hyps(1) assms(1-3) by (subst modpow_ok) auto
  moreover have "dec_block (block_val b) (length dn) bytes (length b) 0 (pre @ o1 @ o2 @ post) = Inr (pre @ b @ o2 @ post)"
    using Cons.hyps(1) Cons.prems old by (intro dec_block_ok) auto
  moreover have "decodeMessage_loop (length cs) bytes ((dn @ [c]) @ cs @ rest) ((pre @ b) @ o2 @ post) d n (length (dn @ [c]))
      = Inr ((pre @ b) @ concat bs @ post)"
    using Cons.prems Cons.hyps(1) old by (intro Cons.IH) auto
  moreover have "rd (dn @ (c # cs) @ rest) (int (length dn)) = Inr c"
    by (simp add: rd_def nth_append)
  ultimately show ?case using Cons.hyps(1) old(1) by simp
qed simp


lemma rsa_exponent_int:
  assumes "is_prime p" and "is_prime q" and "p \<noteq> q" and "0 \<le> m" and "m < int (p * q)"
    and "0 < e" and "0 < d" and "e * d = 1 + k * ((int p - 1) * (int q - 1))" and "0 \<le> k"
  shows "(m ^ nat e mod int (p * q)) ^ nat d mod int (p * q) = m"
proof -
  have pq: "1 \<le> p" "1 \<le> q" using assms(1,2) by (auto simp: is_prime_def)
  have "nat e * nat d = 1 + nat k * ((p - 1) * (q - 1))"
  proof -
    have "int (nat e * nat d) = e * d" using assms(6,7) by simp
    also have "\<dots> = int (1 + nat k * ((p - 1) * (q - 1)))"
      using assms(8,9) pq by (simp add: of_nat_diff)
    finally show ?thesis by (simp only: of_nat_eq_iff)
  qed
  then have "(nat m ^ nat e) ^ nat d mod (p * q) = nat m"
    using assms(1-5) by (intro rsa_exponent) (auto simp: zless_nat_eq_int_zless nat_less_iff)
  then have "(int (nat m) ^ nat e) ^ nat d mod int (p * q) = int (nat m)"
    by (metis of_nat_mod of_nat_power)
  then show ?thesis using assms(4) by (simp add: power_mod)
qed

lemma blocks_of:
  "length msg = bytes * k \<Longrightarrow> seven_bit msg \<Longrightarrow>
    \<exists>bs. msg = concat bs \<and> length bs = k \<and> list_all (\<lambda>b. length b = bytes \<and> seven_bit b) bs"
proof (induction k arbitrary: msg)
  case (Suc k)
  have "length (drop bytes msg) = bytes * k" "seven_bit (drop bytes msg)" "seven_bit (take bytes msg)"
    "length (take bytes msg) = bytes"
    using Suc.prems by (auto simp: seven_bit_def list_all_iff dest: in_set_takeD in_set_dropD)
  with Suc.IH [of "drop bytes msg"] obtain bs where "drop bytes msg = concat bs" "length bs = k"
    "list_all (\<lambda>b. length b = bytes \<and> seven_bit b) bs" by auto
  then have "msg = concat (take bytes msg # bs)" "length (take bytes msg # bs) = Suc k"
    "list_all (\<lambda>b. length b = bytes \<and> seven_bit b) (take bytes msg # bs)"
    using \<open>seven_bit (take bytes msg)\<close> \<open>length (take bytes msg) = bytes\<close>
    by (simp_all, metis append_take_drop_id)
  then show ?case by blast
qed simp

lemma randPrime_ok:
  assumes "\<And>i. 0 \<le> rnd i"
  shows "\<exists>r t'. randPrime rnd SINGLE_MAX t = Some (Inr (r, t')) \<and> odd r \<and> 3 \<le> r \<and> r < SINGLE_MAX
    \<and> (\<exists>t0. probablePrime rnd r ACCURACY t0 = Inr (True, t'))"
proof -
  define v where "v = rnd t mod 10000"
  have v: "0 \<le> v" "v < 10000" by (simp_all add: v_def)
  define w where "w = v + (1 - v mod 2)"
  have w: "odd w" "0 < w" "w < 10000" using v unfolding w_def by presburger+
  have "randPrime rnd SINGLE_MAX t = randPrime_loop rnd 10000 w (Suc t)"
    using assms v by (simp add: randPrime_def SINGLE_MAX_def w_def v_def Let_def)
  moreover have "3 \<le> r" if "odd r" "1 < r" for r :: int using that by presburger
  ultimately show ?thesis
    using randPrime_loop_reaches [of 10000 w rnd "Suc t"] w by (simp add: SINGLE_MAX_def) blast
qed

lemma randExponent_ok:
  assumes "\<And>i. 0 \<le> rnd i" and "0 < phi" and "phi < 111546435"
  shows "\<exists>e. randExponent rnd phi EXPONENT_MAX t = Some (Inr (e, Suc t)) \<and> gcd_c e phi = 1 \<and> 0 \<le> e \<and> e < EXPONENT_MAX"
proof -
  obtain s where s: "s \<in> set small_primes" "gcd s phi = 1"
    using small_prime_coprime [OF assms(2,3)] by auto
  then have r: "3 \<le> s" "s < 10000" by (auto simp: small_primes_def)
  then have "gcd_c s phi = 1" using s assms(2) by (simp add: gcd_c_eq)
  then show ?thesis
    using randExponent_loop_reaches [of s 10000 phi "rnd t mod 10000"] r assms(1)
    by (auto simp: randExponent_def EXPONENT_MAX_def)
qed

lemma block_bytes_fits:
  "128 \<le> n \<Longrightarrow> 1 \<le> block_bytes n \<and> block_bytes n \<le> 3 \<and> 128 ^ block_bytes n \<le> n"
proof -
  assume n: "128 \<le> n"
  have "2 ^ k \<le> n" if "n div 2 ^ k \<noteq> 0" for k
    using that n by (metis div_pos_pos_trivial linorder_not_le order_trans zero_le_numeral)
  from this [of 21] this [of 14] n show ?thesis by (auto simp: block_bytes_def)
qed

lemma solovayPrime_3_13: "solovayPrime 3 13 = Inr True"
  by (simp add: solovayPrime_def jacobi_def jacobi_loop.simps factor_twos.simps Let_def modpow_ok)

lemma randPrime_13: "randPrime (\<lambda>_. 12) SINGLE_MAX t = Some (Inr (13, t + 11))"
proof -
  have "probablePrime_loop (\<lambda>_. 12) 13 k t = Inr (True, t + k)" for k t
    by (induction k arbitrary: t) (simp_all add: solovayPrime_3_13)
  then have "probablePrime (\<lambda>_. 12) 13 ACCURACY (Suc t) = Inr (True, t + 11)"
    by (simp add: probablePrime_def ACCURACY_def)
  then show ?thesis
    by (simp add: randPrime_def SINGLE_MAX_def randPrime_loop.simps)
qed

section \<open>Properties\<close>

text \<open>
  C6: An RSA message round trip. With distinct primes below the 31-bit bound, inverse exponents and a
  block that fits the modulus, \<open>encodeMessage\<close> followed by \<open>decodeMessage\<close> restores every 7-bit message
  made of whole blocks, with no overflow and no access outside the buffers.
\<close>

theorem RSA_message_roundtrip:
  assumes "is_prime p" and "is_prime q" and "p \<noteq> q" and "int (p * q) < 2 ^ 31"
    and "0 < e" and "0 < d" and "0 \<le> k" and "e * d = 1 + k * ((int p - 1) * (int q - 1))"
    and "0 < bytes" and "bytes \<le> 3" and "128 ^ bytes \<le> int (p * q)"
    and "seven_bit msg" and "length msg = bytes * blocks" and "blocks \<le> length crypto"
    and "length msg \<le> length plain"
  shows "\<exists>c. encodeMessage (int (length msg)) bytes msg crypto e (int (p * q)) = Inr c
    \<and> decodeMessage blocks bytes c plain d (int (p * q)) = Inr (msg @ drop (length msg) plain)"
proof -
  let ?n = "int (p * q)" and ?enc = "\<lambda>b. block_val b ^ nat e mod int (p * q)"
  obtain bs where bs: "msg = concat bs" "length bs = blocks" "list_all (\<lambda>b. length b = bytes \<and> seven_bit b) bs"
    using blocks_of [OF assms(13,12)] by auto
  have n: "0 < ?n" using assms(1,2) by (auto simp: is_prime_def)
  have enc: "encodeMessage (int (length msg)) bytes msg crypto e ?n = Inr (map ?enc bs @ drop blocks crypto)"
    using encodeMessage_loop_ok [of bytes e ?n bs "[]" "[]" crypto "[]"] assms n bs
    by (simp add: encodeMessage_def)
  have "list_all2 (\<lambda>c b. 0 \<le> c \<and> c < ?n \<and> c ^ nat d mod ?n = block_val b \<and> length b = bytes \<and> seven_bit b)
      (map ?enc bs) bs"
    unfolding list_all2_map1
  proof (rule list_all2_all_nthI)
    fix i assume i: "i < length bs"
    then have b: "length (bs ! i) = bytes" "seven_bit (bs ! i)" using bs(3) by (auto simp: list_all_length)
    have v: "0 \<le> block_val (bs ! i)" "block_val (bs ! i) < ?n"
      using block_val_bounds [OF b(2)] b(1) assms(11) by auto
    have "?enc (bs ! i) ^ nat d mod ?n = block_val (bs ! i)"
      using assms v by (intro rsa_exponent_int [of p q _ e d k]) auto
    then show "0 \<le> ?enc (bs ! i) \<and> ?enc (bs ! i) < ?n \<and> ?enc (bs ! i) ^ nat d mod ?n = block_val (bs ! i)
      \<and> length (bs ! i) = bytes \<and> seven_bit (bs ! i)"
      using b n by auto
  qed simp
  then have "decodeMessage_loop (length (map ?enc bs)) bytes ([] @ map ?enc bs @ drop blocks crypto)
      ([] @ take (length msg) plain @ drop (length msg) plain) d ?n (length ([] :: int list))
    = Inr ([] @ concat bs @ drop (length msg) plain)"
    using assms n bs(2) by (intro decodeMessage_loop_ok) auto
  then show ?thesis using enc bs by (simp add: decodeMessage_def)
qed

theorem RSA_message_roundtrip_witness:
  "\<exists>c. encodeMessage 2 1 ''Ab'' [0, 0] 7 143 = Inr c \<and> decodeMessage 2 1 c ''xyz'' 103 143 = Inr ''Abz''"
proof -
  have p: "is_prime 11" "is_prime 13" by code_simp+
  have s: "seven_bit ''Ab''" by (simp add: seven_bit_def)
  show ?thesis
    using RSA_message_roundtrip [of 11 13 7 103 6 1 "''Ab''" 2 "[0, 0]" "''xyz''"] p s by simp
qed


text \<open>
  C29: \<open>modpow\<close> computes \<open>a^b mod c\<close> for every non-negative base and positive exponent and modulus of
  \<open>int\<close> size: the \<open>long long\<close> products never overflow.
\<close>

theorem modpow_correct:
  assumes "0 < c" and "c < 2 ^ 31" and "0 \<le> a" and "a < 2 ^ 31" and "0 < b"
  shows "modpow a b c = Inr (a ^ nat b mod c)"
  using assms by (rule modpow_ok)

theorem modpow_correct_witness: "modpow 2147483646 3 2147483647 = Inr (2147483646 ^ 3 mod 2147483647)"
  using modpow_correct [of 2147483647 2147483646 3] by simp

text \<open>
  C30: \<open>randPrime\<close> always ends, whatever the random numbers: the walk over the odd numbers below
  \<open>SINGLE_MAX\<close> reaches 3, which passes the test with every base, and the result is an odd number
  between 3 and \<open>SINGLE_MAX\<close> that passed all \<open>ACCURACY\<close> rounds.
\<close>

theorem randPrime_returns:
  assumes "\<And>i. 0 \<le> rnd i"
  shows "\<exists>r t'. randPrime rnd SINGLE_MAX t = Some (Inr (r, t')) \<and> odd r \<and> 3 \<le> r \<and> r < SINGLE_MAX
    \<and> (\<exists>t0. probablePrime rnd r ACCURACY t0 = Inr (True, t'))"
  using assms by (rule randPrime_ok)

theorem randPrime_returns_witness:
  "\<exists>r t'. randPrime (\<lambda>_. 7) SINGLE_MAX 0 = Some (Inr (r, t')) \<and> odd r \<and> 3 \<le> r \<and> r < SINGLE_MAX
    \<and> (\<exists>t0. probablePrime (\<lambda>_. 7) r ACCURACY t0 = Inr (True, t'))"
  using randPrime_returns [of "\<lambda>_. 7" 0] by simp

text \<open>
  C18: \<open>InitRSA\<close> produces a usable key from the first pair of random primes whose product is at least
  128: the search for an exponent ends, the private exponent is the inverse of the public one modulo
  \<open>(p - 1) * (q - 1)\<close>, nothing overflows, and a block of \<open>encryptBlockBytes\<close> 7-bit characters fits the
  modulus.
\<close>

theorem InitRSA_key:
  assumes "\<And>i. 0 \<le> rnd i"
    and "randPrime rnd SINGLE_MAX t = Some (Inr (p, t1))" and "randPrime rnd SINGLE_MAX t1 = Some (Inr (q, t2))"
    and "128 \<le> p * q"
  shows "\<exists>key t3. InitRSA rnd t = Some (Inr (key, t3)) \<and> commonKey key = p * q
    \<and> (publicKey key * privateKey key) mod ((p - 1) * (q - 1)) = 1
    \<and> 0 < publicKey key \<and> publicKey key < EXPONENT_MAX
    \<and> 0 \<le> privateKey key \<and> privateKey key \<le> (p - 1) * (q - 1)
    \<and> 1 \<le> encryptBlockBytes key \<and> encryptBlockBytes key \<le> 3 \<and> 128 ^ encryptBlockBytes key \<le> commonKey key"
proof -
  have p: "3 \<le> p" "p < 10000" "3 \<le> q" "q < 10000"
    using randPrime_ok [of rnd t] randPrime_ok [of rnd t1] assms(1-3)
    by (auto simp: SINGLE_MAX_def)
  define phi where "phi = (p - 1) * (q - 1)"
  have pq: "p * q < 10000 * 10000" using p by (intro mult_strict_mono) auto
  have phi: "4 \<le> phi" "phi < 10000 * 10000"
    using p mult_mono [of 2 "p - 1" 2 "q - 1"] mult_strict_mono [of "p - 1" 10000 "q - 1" 10000]
    by (auto simp: phi_def)
  have i: "i32 (p * q) = p * q" "i32 phi = phi" using pq phi assms(4) by (auto intro!: i32_id)
  have pqr: "InitRSA_pq rnd t = Some (Inr (p, q, t2))"
    using assms(2-4) i by (subst InitRSA_pq.simps) simp
  obtain e where e: "randExponent rnd phi EXPONENT_MAX t2 = Some (Inr (e, Suc t2))"
    "gcd_c e phi = 1" "0 \<le> e" "e < 10000"
    using randExponent_ok [of rnd phi t2] assms(1) phi by (auto simp: EXPONENT_MAX_def)
  have g: "gcd e phi = 1" using e phi by (simp add: gcd_c_eq)
  have e0: "0 < e" using g e(3) phi by (cases "e = 0") auto
  obtain k where d: "0 \<le> inverse_c e phi" "inverse_c e phi \<le> phi" "e * inverse_c e phi + k * phi = 1"
    using inverse_c_ok [of e phi] e0 e(4) phi g by auto
  have inv: "(e * inverse_c e phi) mod phi = 1"
  proof -
    have "e * inverse_c e phi = 1 + (- k) * phi" using d(3) by (simp add: algebra_simps)
    then show ?thesis using phi by (simp only: mod_mult_self1) simp
  qed
  have bb: "1 \<le> block_bytes (p * q)" "block_bytes (p * q) \<le> 3" "128 ^ block_bytes (p * q) \<le> p * q"
    using block_bytes_fits [OF assms(4)] by auto
  show ?thesis
    using pqr e(1) i inv e0 e(4) d(1,2) bb
    by (auto simp: InitRSA_def phi_def [symmetric] EXPONENT_MAX_def Let_def)
qed

theorem InitRSA_key_witness:
  "\<exists>key t3. InitRSA (\<lambda>_. 12) 0 = Some (Inr (key, t3)) \<and> commonKey key = 169
    \<and> (publicKey key * privateKey key) mod 144 = 1 \<and> 128 ^ encryptBlockBytes key \<le> commonKey key"
  using InitRSA_key [of "\<lambda>_. 12" 0 13 11 13 22] randPrime_13 [of 0] randPrime_13 [of 11] by auto


text \<open>
  \<open>InitRSA\<close> does not reject equal primes. With the random source that always yields 12 it draws
  \<open>p = q = 13\<close>, and under the key it returns the block of value 13 is encoded as 0 and decodes to 0.
\<close>

theorem InitRSA_equal_primes:
  "\<exists>t'. InitRSA (\<lambda>_. 12) 0 =
      Some (Inr (\<lparr>publicKey = 13, privateKey = 133, commonKey = 169, encryptBlockBytes = 1\<rparr>, t'))
    \<and> encode 13 13 169 = Inr 0 \<and> decode 0 133 169 = Inr 0"
proof -
  have pq: "InitRSA_pq (\<lambda>_. 12) 0 = Some (Inr (13, 13, 22))"
    using randPrime_13 [of 0] randPrime_13 [of 11]
    by (subst InitRSA_pq.simps) (simp add: i32_id)
  have "gcd_c 12 144 = 12" "gcd_c 13 144 = 1" by (simp_all add: gcd_c.simps)
  then have "randExponent_loop 144 10000 12 = Some 13"
    by (subst randExponent_loop.simps, subst randExponent_loop.simps) simp
  then have re: "randExponent (\<lambda>_. 12) 144 EXPONENT_MAX 22 = Some (Inr (13, 23))"
    by (simp add: randExponent_def EXPONENT_MAX_def)
  have "inverse_c 13 144 = 133"
    by (simp add: inverse_c_def inverse_loop.simps i32_id)
  then show ?thesis using pq re
    by (simp add: InitRSA_def i32_id block_bytes_def encode_def decode_def modpow_ok)
qed

end
