(* ===== verification/ThreadPool.thy ===== *)
theory ThreadPool
  imports Prelude "HOL-Library.Multiset"
begin

text \<open>
  src/src/libThreadPool.c: the thread pool with its circular task queue, worker threads, managing
  thread, and start and shutdown. Every critical section of the source (lock to unlock, or lock to
  \<open>pthread_cond_wait\<close>) is one atomic step of the thread that runs it; the interleavings of these steps
  are the step relation \<open>tp_step\<close>. A worker blocked on \<open>queue_not_empty\<close> goes on after a signal or a broadcast, or
  spuriously, which POSIX allows; a signal wakes at least one of the blocked workers, and which one is a
  parameter. A caller blocked on \<open>queue_not_full\<close> tries again at any time. The mutexes appear only through the
  atomicity of the steps. \<open>pthread_create\<close> may fail, and its result is ignored as in the source. Printing is left out.
\<close>

section \<open>State\<close>

record TaskData_t =
  arg :: nat
  task_func :: nat

text \<open>
  A slot of the \<open>threads\<close> array: 0 after \<open>memset\<close>, or the id of a thread, of which the model keeps how
  far it is in \<open>work_thread\<close>: \<open>Waiting\<close> is blocked in \<open>pthread_cond_wait\<close>, \<open>Woken\<close> has been woken there and waits for
  the lock. \<open>Exited\<close> is the id of a thread that has ended, or what a failed \<open>pthread_create\<close> leaves: the id of no thread.
  \<open>create_errors\<close> is not in the source; it counts the failed calls.
\<close>

datatype wstate = Unused | Start | Waiting | Woken | Fetched TaskData_t | Running TaskData_t | Exited

record threadPool_t =
  threads :: "wstate list"
  task_queue :: "TaskData_t list"
  min_thr_num :: int
  max_thr_num :: int
  live_thr_num :: int
  busy_thr_num :: int
  wait_exit_thr_num :: int
  queue_front :: nat
  queue_rear :: nat
  queue_size :: nat
  queue_max_size :: nat
  shutdown :: bool
  create_errors :: nat

definition DEFAULT_THREAD_NUM :: int where
  "DEFAULT_THREAD_NUM = 5"

definition MIN_WAIT_TASK_NUM :: nat where
  "MIN_WAIT_TASK_NUM = 5"

section \<open>The circular queue\<close>

definition enqueue :: "TaskData_t \<Rightarrow> threadPool_t \<Rightarrow> threadPool_t" where
  "enqueue t p = p\<lparr>task_queue := (task_queue p)[queue_rear p := t],
     queue_rear := (queue_rear p + 1) mod queue_max_size p, queue_size := queue_size p + 1\<rparr>"

definition dequeue :: "threadPool_t \<Rightarrow> TaskData_t \<times> threadPool_t" where
  "dequeue p = (task_queue p ! queue_front p,
     p\<lparr>queue_front := (queue_front p + 1) mod queue_max_size p, queue_size := queue_size p - 1\<rparr>)"

section \<open>Condition variables\<close>

text \<open>\<open>pthread_cond_signal\<close> wakes the worker \<open>k\<close>, if that one is blocked, or else the first that is blocked.\<close>

fun wake_first :: "wstate list \<Rightarrow> wstate list" where
  "wake_first [] = []"
| "wake_first (w # ws) = (if w = Waiting then Woken # ws else w # wake_first ws)"

definition cond_signal :: "nat \<Rightarrow> threadPool_t \<Rightarrow> threadPool_t" where
  "cond_signal k p = p\<lparr>threads := (if k < length (threads p) \<and> threads p ! k = Waiting then (threads p)[k := Woken] else wake_first (threads p))\<rparr>"

definition cond_broadcast :: "threadPool_t \<Rightarrow> threadPool_t" where
  "cond_broadcast p = p\<lparr>threads := map (\<lambda>w. if w = Waiting then Woken else w) (threads p)\<rparr>"

section \<open>Worker threads\<close>

text \<open>Whether \<open>pthread_kill(tid, 0)\<close> finds the thread of a used slot.\<close>

definition is_thread_alive :: "wstate \<Rightarrow> bool" where
  "is_thread_alive w = (w \<noteq> Exited)"

definition alive :: "wstate \<Rightarrow> bool" where
  "alive w = (w \<noteq> Unused \<and> is_thread_alive w)"

text \<open>
  The loop on \<open>queue_not_empty\<close> and the code after it, for thread \<open>i\<close> holding the lock: it blocks, ends,
  or takes a task.
\<close>

definition work_take :: "nat \<Rightarrow> threadPool_t \<Rightarrow> threadPool_t" where
  "work_take i p =
     (if queue_size p = 0 \<and> \<not> shutdown p then p\<lparr>threads := (threads p)[i := Waiting]\<rparr>
      else if shutdown p then p\<lparr>threads := (threads p)[i := Exited]\<rparr>
      else (case dequeue p of (t, p') \<Rightarrow> p'\<lparr>threads := (threads p')[i := Fetched t]\<rparr>))"

text \<open>Returning from \<open>pthread_cond_wait\<close>: the request to end is honoured only above the minimum.\<close>

definition work_wake :: "nat \<Rightarrow> threadPool_t \<Rightarrow> threadPool_t" where
  "work_wake i p =
     (if 0 < wait_exit_thr_num p
      then (let p1 = p\<lparr>wait_exit_thr_num := wait_exit_thr_num p - 1\<rparr> in
            if min_thr_num p1 < live_thr_num p1
            then p1\<lparr>live_thr_num := live_thr_num p1 - 1, threads := (threads p1)[i := Exited]\<rparr>
            else work_take i p1)
      else work_take i p)"

definition work_thread :: "nat \<Rightarrow> threadPool_t \<Rightarrow> threadPool_t option" where
  "work_thread i p =
     (if length (threads p) \<le> i then None
      else (case threads p ! i of
          Unused \<Rightarrow> None
        | Exited \<Rightarrow> None
        | Waiting \<Rightarrow> None
        | Start \<Rightarrow> Some (work_take i p)
        | Woken \<Rightarrow> Some (work_wake i p)
        | Fetched t \<Rightarrow> Some (p\<lparr>busy_thr_num := busy_thr_num p + 1, threads := (threads p)[i := Running t]\<rparr>)
        | Running t \<Rightarrow> Some (p\<lparr>busy_thr_num := busy_thr_num p - 1, threads := (threads p)[i := Start]\<rparr>)))"

section \<open>Adding tasks\<close>

text \<open>
  \<open>None\<close> while the caller blocks on \<open>queue_not_full\<close>; otherwise the return value and the pool. \<open>k\<close> is the worker that the
  signal reaches.
\<close>

definition libThreadPool_TaskAdd :: "nat \<Rightarrow> threadPool_t \<Rightarrow> TaskData_t \<Rightarrow> (int \<times> threadPool_t) option" where
  "libThreadPool_TaskAdd k p t =
     (if queue_max_size p \<le> queue_size p \<and> \<not> shutdown p then None
      else if shutdown p then Some (-1, p)
      else Some (0, cond_signal k (enqueue t p)))"

section \<open>The managing thread\<close>

text \<open>
  The loop of \<open>admin_thread\<close> that starts workers in empty slots, from slot \<open>i\<close> on, after \<open>add\<close> of them; \<open>fails\<close> are the slots
  for which \<open>pthread_create\<close> fails.
\<close>

function create_loop :: "nat list \<Rightarrow> nat \<Rightarrow> int \<Rightarrow> threadPool_t \<Rightarrow> threadPool_t" where
  "create_loop fails i add p =
     (if int i < max_thr_num p \<and> add < DEFAULT_THREAD_NUM \<and> live_thr_num p < max_thr_num p
      then if threads p ! i = Unused \<or> \<not> is_thread_alive (threads p ! i)
           then create_loop fails (Suc i) (add + 1)
                  (p\<lparr>threads := (threads p)[i := if i \<in> set fails then Exited else Start], live_thr_num := live_thr_num p + 1,
                     create_errors := create_errors p + (if i \<in> set fails then 1 else 0)\<rparr>)
           else create_loop fails (Suc i) add p
      else p)"
  by pat_completeness auto
termination
  by (relation "measure (\<lambda>(fails, i, add, p). nat (max_thr_num p) - i)") auto

declare create_loop.simps [simp del]

text \<open>
  Where \<open>admin_thread\<close> is in its loop, with the values it has read so far (the \<open>g_\<close> variables). The signals are sent
  after the lock has been released, each in a step of its own.
\<close>

datatype admin =
    ATop | ASnap | ABusy nat int | ACreate nat int int | AShrink nat int int | ASignal nat | ADone

definition admin_thread :: "nat list \<Rightarrow> nat \<Rightarrow> admin \<Rightarrow> threadPool_t \<Rightarrow> (admin \<times> threadPool_t) option" where
  "admin_thread fails k a p =
     (case a of
        ATop \<Rightarrow> Some (if shutdown p then ADone else ASnap, p)
      | ASnap \<Rightarrow> Some (ABusy (queue_size p) (live_thr_num p), p)
      | ABusy qs live \<Rightarrow> Some (ACreate qs live (busy_thr_num p), p)
      | ACreate qs live busy \<Rightarrow>
          Some (AShrink qs live busy,
                if MIN_WAIT_TASK_NUM \<le> qs \<and> live \<le> max_thr_num p then create_loop fails 0 0 p else p)
      | AShrink qs live busy \<Rightarrow>
          Some (if busy * 2 < live \<and> min_thr_num p < live
                then (ASignal (nat DEFAULT_THREAD_NUM), p\<lparr>wait_exit_thr_num := DEFAULT_THREAD_NUM\<rparr>) else (ATop, p))
      | ASignal n \<Rightarrow> Some (if n = 0 then (ATop, p) else (ASignal (n - 1), cond_signal k p))
      | ADone \<Rightarrow> None)"

section \<open>Start\<close>

text \<open>
  The outcome of the allocations, of the mutex and condition variable initialisations and of \<open>pthread_create\<close> (\<open>fails\<close>
  are the workers that are not created) is given by the caller of the model. \<open>exit(-1)\<close> ends the process.
\<close>

datatype init_result = ExitProcess | InitFailed | InitOk threadPool_t

definition libThreadPool_Init ::
  "bool \<Rightarrow> bool \<Rightarrow> bool \<Rightarrow> bool \<Rightarrow> nat list \<Rightarrow> int \<Rightarrow> int \<Rightarrow> nat \<Rightarrow> init_result res" where
  "libThreadPool_Init pool_ok threads_ok queue_ok sync_ok fails min_num max_num queue_max =
     (if \<not> pool_ok \<or> \<not> threads_ok \<or> \<not> queue_ok then ok ExitProcess
      else if \<not> sync_ok then ok InitFailed
      else if max_num < min_num then fault BufferOverflow
      else let ws = map (\<lambda>i. if i \<in> set fails then Exited else Start) [0..<nat min_num] in
           ok (InitOk \<lparr>threads = ws @ replicate (nat (max_num - max 0 min_num)) Unused,
             task_queue = replicate queue_max \<lparr>arg = 0, task_func = 0\<rparr>,
             min_thr_num = min_num, max_thr_num = max_num, live_thr_num = min_num, busy_thr_num = 0,
             wait_exit_thr_num = 0, queue_front = 0, queue_rear = 0, queue_size = 0,
             queue_max_size = queue_max, shutdown = False, create_errors = length (filter (\<lambda>w. w = Exited) ws)\<rparr>))"

section \<open>Shutdown\<close>

definition threadpool_free :: "threadPool_t option \<Rightarrow> int \<times> threadPool_t option" where
  "threadpool_free p = (case p of None \<Rightarrow> (-1, None) | Some _ \<Rightarrow> (0, None))"

text \<open>
  Where \<open>libThreadPool_destroy\<close> is: not called; waiting for the managing thread; in the loop of broadcasts; waiting for the thread
  of slot \<open>i\<close>; returned. The pool is \<open>None\<close> when the pointer is null or the memory has been freed.
\<close>

datatype destroyer = DIdle | DJoinAdmin | DBroadcast nat | DJoin nat | DReturn int

definition libThreadPool_destroy ::
  "destroyer \<Rightarrow> admin \<Rightarrow> threadPool_t option \<Rightarrow> (destroyer \<times> threadPool_t option) option" where
  "libThreadPool_destroy d a pool =
     (case pool of
        None \<Rightarrow> if d = DIdle then Some (DReturn (-2), None) else None
      | Some p \<Rightarrow>
         (case d of
            DIdle \<Rightarrow> Some (DJoinAdmin, Some (p\<lparr>shutdown := True\<rparr>))
          | DJoinAdmin \<Rightarrow> if a = ADone then Some (DBroadcast 0, Some p) else None
          | DBroadcast i \<Rightarrow> Some (if int i < live_thr_num p then (DBroadcast (Suc i), Some (cond_broadcast p)) else (DJoin 0, Some p))
          | DJoin i \<Rightarrow>
              if int i < live_thr_num p
              then if threads p ! i = Exited then Some (DJoin (Suc i), Some p) else None
              else Some (DReturn 0, snd (threadpool_free (Some p)))
          | DReturn r \<Rightarrow> None))"

section \<open>The queue as an interface\<close>

text \<open>
  What the pool relies on: a first-in first-out queue of bounded capacity. \<open>contents\<close> is the abstract
  value of a queue state.
\<close>

locale bounded_fifo =
  fixes inv :: "'q \<Rightarrow> bool" and capacity :: "'q \<Rightarrow> nat" and contents :: "'q \<Rightarrow> 'a list"
    and enq :: "'a \<Rightarrow> 'q \<Rightarrow> 'q" and deq :: "'q \<Rightarrow> 'a \<times> 'q"
  assumes bounded: "inv q \<Longrightarrow> length (contents q) \<le> capacity q"
    and enq_inv: "inv q \<Longrightarrow> length (contents q) < capacity q \<Longrightarrow> inv (enq x q)"
    and enq_contents: "inv q \<Longrightarrow> length (contents q) < capacity q \<Longrightarrow> contents (enq x q) = contents q @ [x]"
    and enq_capacity: "capacity (enq x q) = capacity q"
    and deq_inv: "inv q \<Longrightarrow> contents q \<noteq> [] \<Longrightarrow> inv (snd (deq q))"
    and deq_contents: "inv q \<Longrightarrow> contents q \<noteq> [] \<Longrightarrow> contents q = fst (deq q) # contents (snd (deq q))"
    and deq_capacity: "capacity (snd (deq q)) = capacity q"
begin

fun drain :: "nat \<Rightarrow> 'q \<Rightarrow> 'a list \<times> 'q" where
  "drain 0 q = ([], q)"
| "drain (Suc n) q = (case deq q of (x, q') \<Rightarrow> (case drain n q' of (xs, q'') \<Rightarrow> (x # xs, q'')))"

lemma fill_contents:
  "inv q \<Longrightarrow> length (contents q) + length xs \<le> capacity q \<Longrightarrow>
    inv (fold enq xs q) \<and> contents (fold enq xs q) = contents q @ xs \<and> capacity (fold enq xs q) = capacity q"
  by (induction xs arbitrary: q) (simp_all add: enq_inv enq_contents enq_capacity)

lemma drain_contents:
  "inv q \<Longrightarrow> n \<le> length (contents q) \<Longrightarrow>
    fst (drain n q) = take n (contents q) \<and> contents (snd (drain n q)) = drop n (contents q) \<and> inv (snd (drain n q))"
proof (induction n arbitrary: q)
  case (Suc n)
  then have ne: "contents q \<noteq> []" by auto
  have c: "contents q = fst (deq q) # contents (snd (deq q))" "inv (snd (deq q))"
    using deq_contents deq_inv Suc.prems(1) ne by auto
  then have "n \<le> length (contents (snd (deq q)))" using Suc.prems(2) by (metis Suc_le_mono length_Cons)
  with Suc.IH [OF c(2)] show ?case
    by (subst (1 2) c(1)) (simp add: split_def)
qed simp

lemma fill_drain:
  "inv q \<Longrightarrow> contents q = [] \<Longrightarrow> length xs \<le> capacity q \<Longrightarrow> fst (drain (length xs) (fold enq xs q)) = xs"
  using fill_contents [of q xs] drain_contents [of "fold enq xs q" "length xs"] by simp

end

definition queue_list :: "threadPool_t \<Rightarrow> TaskData_t list" where
  "queue_list p = map (\<lambda>k. task_queue p ! ((queue_front p + k) mod queue_max_size p)) [0..<queue_size p]"

definition queue_inv :: "threadPool_t \<Rightarrow> bool" where
  "queue_inv p = (length (task_queue p) = queue_max_size p \<and> queue_size p \<le> queue_max_size p
     \<and> 0 < queue_max_size p \<and> queue_front p < queue_max_size p
     \<and> queue_rear p = (queue_front p + queue_size p) mod queue_max_size p)"

lemma queue_list_enqueue:
  assumes "queue_inv p" and "queue_size p < queue_max_size p"
  shows "queue_list (enqueue t p) = queue_list p @ [t]"
  using assms ring_distinct [of _ "queue_size p" "queue_max_size p" "queue_front p"]
  by (auto simp: queue_list_def enqueue_def queue_inv_def)

lemma queue_list_dequeue:
  assumes "queue_inv p" and "queue_size p \<noteq> 0"
  shows "queue_list p = fst (dequeue p) # queue_list (snd (dequeue p))"
proof -
  obtain n where n: "queue_size p = Suc n" using assms(2) not0_implies_Suc by auto
  have "map (\<lambda>k. task_queue p ! ((queue_front p + k) mod queue_max_size p)) [0..<Suc n]
    = task_queue p ! (queue_front p mod queue_max_size p)
      # map (\<lambda>k. task_queue p ! ((queue_front p + Suc k) mod queue_max_size p)) [0..<n]"
    by (simp add: upt_conv_Cons map_Suc_upt [symmetric] del: upt_Suc) 
  moreover have "((queue_front p + 1) mod queue_max_size p + k) mod queue_max_size p
      = (queue_front p + Suc k) mod queue_max_size p" for k
    by (simp add: mod_add_left_eq)
  ultimately show ?thesis
    using assms(1) n by (simp add: queue_list_def dequeue_def queue_inv_def)
qed

interpretation tq: bounded_fifo queue_inv queue_max_size queue_list enqueue dequeue
proof
  fix p :: threadPool_t and t
  assume p: "queue_inv p"
  show "length (queue_list p) \<le> queue_max_size p"
    using p by (simp add: queue_list_def queue_inv_def)
  {
    assume "length (queue_list p) < queue_max_size p"
    then have s: "queue_size p < queue_max_size p" by (simp add: queue_list_def)
    show "queue_inv (enqueue t p)" using p s by (auto simp: queue_inv_def enqueue_def mod_simps)
    show "queue_list (enqueue t p) = queue_list p @ [t]" using p s by (rule queue_list_enqueue)
  }
  {
    assume "queue_list p \<noteq> []"
    then have s: "queue_size p \<noteq> 0" by (simp add: queue_list_def)
    then obtain n where "queue_size p = Suc n" using not0_implies_Suc by auto
    then show "queue_inv (snd (dequeue p))" using p by (auto simp: queue_inv_def dequeue_def mod_simps)
    show "queue_list p = fst (dequeue p) # queue_list (snd (dequeue p))" using p s by (rule queue_list_dequeue)
  }
qed (simp_all add: enqueue_def dequeue_def)


section \<open>Interleavings\<close>

text \<open>
  The whole system: the pool, the managing thread, the thread that destroys the pool, and the
  histories of the tasks submitted, taken from the queue and run to the end. \<open>shrunk\<close> records whether the managing thread
  has ever asked workers to end.
\<close>

record tp_sys =
  pool :: "threadPool_t option"
  admin_pc :: admin
  destroy_pc :: destroyer
  submitted :: "TaskData_t list"
  taken :: "TaskData_t list"
  finished :: "TaskData_t list"
  shrunk :: bool

fun fetched_task :: "wstate \<Rightarrow> TaskData_t list" where
  "fetched_task (Fetched t) = [t]"
| "fetched_task _ = []"

fun running_task :: "wstate \<Rightarrow> TaskData_t list" where
  "running_task (Running t) = [t]"
| "running_task _ = []"

inductive tp_step :: "tp_sys \<Rightarrow> tp_sys \<Rightarrow> bool" where
  worker: "pool s = Some p \<Longrightarrow> work_thread i p = Some p' \<Longrightarrow>
    tp_step s (s\<lparr>pool := Some p', taken := taken s @ fetched_task (threads p' ! i),
                 finished := finished s @ running_task (threads p ! i)\<rparr>)"
| spurious: "pool s = Some p \<Longrightarrow> i < length (threads p) \<Longrightarrow> threads p ! i = Waiting \<Longrightarrow>
    tp_step s (s\<lparr>pool := Some (p\<lparr>threads := (threads p)[i := Woken]\<rparr>)\<rparr>)"
| task_add: "pool s = Some p \<Longrightarrow> libThreadPool_TaskAdd k p t = Some (rc, p') \<Longrightarrow>
    tp_step s (s\<lparr>pool := Some p', submitted := submitted s @ (if rc = 0 then [t] else [])\<rparr>)"
| manage: "pool s = Some p \<Longrightarrow> admin_thread fails k (admin_pc s) p = Some (a', p') \<Longrightarrow>
    tp_step s (s\<lparr>pool := Some p', admin_pc := a', shrunk := shrunk s \<or> wait_exit_thr_num p' \<noteq> wait_exit_thr_num p\<rparr>)"
| destroy: "libThreadPool_destroy (destroy_pc s) (admin_pc s) (pool s) = Some (d', pool') \<Longrightarrow>
    tp_step s (s\<lparr>pool := pool', destroy_pc := d'\<rparr>)"

text \<open>\<open>adm\<close> tells whether the managing thread could be created; if not, waiting for its end returns at once.\<close>

definition tp_start :: "bool \<Rightarrow> threadPool_t \<Rightarrow> tp_sys" where
  "tp_start adm p = \<lparr>pool = Some p, admin_pc = (if adm then ATop else ADone), destroy_pc = DIdle, submitted = [], taken = [], finished = [], shrunk = False\<rparr>"

inductive tp_reachable :: "threadPool_t \<Rightarrow> tp_sys \<Rightarrow> bool" for p0 where
  start: "tp_reachable p0 (tp_start adm p0)"
| step: "tp_reachable p0 s \<Longrightarrow> tp_step s s' \<Longrightarrow> tp_reachable p0 s'"

inductive_cases tp_stepE: "tp_step s s'"

section \<open>Invariants\<close>

definition count_slots :: "(wstate \<Rightarrow> bool) \<Rightarrow> wstate list \<Rightarrow> int" where
  "count_slots P ws = int (length (filter P ws))"

fun is_running :: "wstate \<Rightarrow> bool" where
  "is_running (Running t) = True"
| "is_running _ = False"

definition pool_inv :: "threadPool_t \<Rightarrow> bool" where
  "pool_inv p = (queue_inv p \<and> int (length (threads p)) = max_thr_num p
     \<and> 0 \<le> wait_exit_thr_num p \<and> wait_exit_thr_num p \<le> DEFAULT_THREAD_NUM
     \<and> busy_thr_num p = count_slots is_running (threads p)
     \<and> count_slots alive (threads p) + int (create_errors p) \<le> live_thr_num p
     \<and> (\<not> shutdown p \<longrightarrow> count_slots alive (threads p) + int (create_errors p) = live_thr_num p)
     \<and> min_thr_num p \<le> live_thr_num p \<and> live_thr_num p \<le> max_thr_num p)"

text \<open>The tasks that some worker has taken and not yet finished.\<close>

definition in_hand :: "wstate list \<Rightarrow> TaskData_t multiset" where
  "in_hand ws = sum_list (map (\<lambda>w. mset (fetched_task w) + mset (running_task w)) ws)"

definition sys_inv :: "tp_sys \<Rightarrow> bool" where
  "sys_inv s = (case pool s of None \<Rightarrow> True
     | Some p \<Rightarrow> pool_inv p \<and> submitted s = taken s @ queue_list p
         \<and> mset (taken s) = in_hand (threads p) + mset (finished s))"

lemma count_slots_update [simp]:
  "i < length ws \<Longrightarrow> count_slots P (ws[i := w]) = count_slots P ws + of_bool (P w) - of_bool (P (ws ! i))"
  by (simp add: count_slots_def count_update)

lemma queue_frame [simp]:
  "queue_inv (p\<lparr>threads := w\<rparr>) = queue_inv p" "queue_list (p\<lparr>threads := w\<rparr>) = queue_list p"
  "queue_inv (p\<lparr>busy_thr_num := b\<rparr>) = queue_inv p" "queue_list (p\<lparr>busy_thr_num := b\<rparr>) = queue_list p"
  "queue_inv (p\<lparr>live_thr_num := b\<rparr>) = queue_inv p" "queue_list (p\<lparr>live_thr_num := b\<rparr>) = queue_list p"
  "queue_inv (p\<lparr>wait_exit_thr_num := b\<rparr>) = queue_inv p" "queue_list (p\<lparr>wait_exit_thr_num := b\<rparr>) = queue_list p"
  "queue_inv (p\<lparr>shutdown := x\<rparr>) = queue_inv p" "queue_list (p\<lparr>shutdown := x\<rparr>) = queue_list p"
  "queue_inv (p\<lparr>create_errors := n\<rparr>) = queue_inv p" "queue_list (p\<lparr>create_errors := n\<rparr>) = queue_list p"
  by (simp_all add: queue_inv_def queue_list_def)

lemma in_hand_update:
  assumes "i < length ws"
  shows "in_hand (ws[i := w]) + mset (fetched_task (ws ! i)) + mset (running_task (ws ! i))
    = in_hand ws + mset (fetched_task w) + mset (running_task w)"
proof -
  let ?h = "\<lambda>w. mset (fetched_task w) + mset (running_task w)"
  have "map ?h ws = map ?h (take i ws) @ ?h (ws ! i) # map ?h (drop (Suc i) ws)"
    by (subst id_take_nth_drop [OF assms]) simp
  moreover have "map ?h (ws[i := w]) = map ?h (take i ws) @ ?h w # map ?h (drop (Suc i) ws)"
    using upd_conv_take_nth_drop [OF assms, of w] by simp
  ultimately show ?thesis by (simp add: in_hand_def)
qed

lemma dequeue_fields [simp]:
  "threads (snd (dequeue p)) = threads p" "live_thr_num (snd (dequeue p)) = live_thr_num p"
  "min_thr_num (snd (dequeue p)) = min_thr_num p" "max_thr_num (snd (dequeue p)) = max_thr_num p"
  "busy_thr_num (snd (dequeue p)) = busy_thr_num p" "wait_exit_thr_num (snd (dequeue p)) = wait_exit_thr_num p"
  "shutdown (snd (dequeue p)) = shutdown p" "create_errors (snd (dequeue p)) = create_errors p"
  by (simp_all add: dequeue_def)

lemma enqueue_fields [simp]:
  "threads (enqueue t p) = threads p" "live_thr_num (enqueue t p) = live_thr_num p"
  "min_thr_num (enqueue t p) = min_thr_num p" "max_thr_num (enqueue t p) = max_thr_num p"
  "busy_thr_num (enqueue t p) = busy_thr_num p" "wait_exit_thr_num (enqueue t p) = wait_exit_thr_num p"
  "shutdown (enqueue t p) = shutdown p" "create_errors (enqueue t p) = create_errors p"
  by (simp_all add: enqueue_def)

lemma length_queue_list [simp]: "length (queue_list p) = queue_size p"
  by (simp add: queue_list_def)

lemma work_take_cases:
  obtains "queue_size p = 0" "\<not> shutdown p" "work_take i p = p\<lparr>threads := (threads p)[i := Waiting]\<rparr>"
  | "shutdown p" "work_take i p = p\<lparr>threads := (threads p)[i := Exited]\<rparr>"
  | "queue_size p \<noteq> 0" "\<not> shutdown p"
    "work_take i p = (snd (dequeue p))\<lparr>threads := (threads (snd (dequeue p)))[i := Fetched (fst (dequeue p))]\<rparr>"
  by (cases "shutdown p"; cases "queue_size p = 0") (simp_all add: work_take_def split_def)

lemma work_take_ok:
  assumes "pool_inv p" and i: "i < length (threads p)" and w: "threads p ! i = Start \<or> threads p ! i = Woken"
  shows "pool_inv (work_take i p)
    \<and> queue_list p = fetched_task (threads (work_take i p) ! i) @ queue_list (work_take i p)
    \<and> in_hand (threads (work_take i p)) = in_hand (threads p) + mset (fetched_task (threads (work_take i p) ! i))"
proof (cases rule: work_take_cases [of p i])
  case 1
  then show ?thesis
    using assms in_hand_update [OF i, of Waiting] by (auto simp: pool_inv_def alive_def is_thread_alive_def)
next
  case 2
  then show ?thesis
    using assms in_hand_update [OF i, of Exited] by (auto simp: pool_inv_def alive_def is_thread_alive_def)
next
  case 3
  let ?p = "snd (dequeue p)"
  have q: "queue_list p \<noteq> []" "queue_inv p"
    using 3(1) assms(1) by (auto simp: pool_inv_def simp flip: length_queue_list)
  have "queue_list p = fst (dequeue p) # queue_list ?p" "queue_inv ?p"
    using tq.deq_contents tq.deq_inv q by auto
  then show ?thesis
    using 3(2,3) assms in_hand_update [of i "threads p" "Fetched (fst (dequeue p))"]
    by (auto simp: pool_inv_def alive_def is_thread_alive_def)
qed

lemma work_thread_ok:
  assumes "pool_inv p" and "work_thread i p = Some p'"
  shows "pool_inv p' \<and> queue_list p = fetched_task (threads p' ! i) @ queue_list p'
    \<and> in_hand (threads p') + mset (running_task (threads p ! i)) = in_hand (threads p) + mset (fetched_task (threads p' ! i))"
proof -
  have i: "i < length (threads p)" using assms(2) by (auto simp: work_thread_def split: if_splits)
  show ?thesis
  proof (cases "threads p ! i")
    case Start
    then show ?thesis using assms i work_take_ok [of p i] by (simp add: work_thread_def)
  next
    case Woken
    let ?p1 = "p\<lparr>wait_exit_thr_num := wait_exit_thr_num p - 1\<rparr>"
    let ?e = "?p1\<lparr>live_thr_num := live_thr_num ?p1 - 1\<rparr>"
    consider "\<not> 0 < wait_exit_thr_num p" | "0 < wait_exit_thr_num p" "min_thr_num p < live_thr_num p"
      | "0 < wait_exit_thr_num p" "\<not> min_thr_num p < live_thr_num p" by blast
    then show ?thesis
    proof cases
      case 1
      then show ?thesis using assms i Woken work_take_ok [of p i] by (simp add: work_thread_def work_wake_def)
    next
      case 2
      then have "p' = ?e\<lparr>threads := (threads ?e)[i := Exited]\<rparr>"
        using assms(2) i Woken by (simp add: work_thread_def work_wake_def Let_def)
      then show ?thesis using 2 assms(1) i Woken in_hand_update [of i "threads p" Exited]
        by (auto simp: pool_inv_def alive_def is_thread_alive_def)
    next
      case 3
      then have "p' = work_take i ?p1"
        using assms(2) i Woken by (simp add: work_thread_def work_wake_def Let_def)
      then show ?thesis using 3 assms(1) i Woken work_take_ok [of ?p1 i] by (simp add: pool_inv_def)
    qed
  next
    case (Fetched t)
    let ?e = "p\<lparr>busy_thr_num := busy_thr_num p + 1\<rparr>"
    have "p' = ?e\<lparr>threads := (threads ?e)[i := Running t]\<rparr>"
      using assms(2) i Fetched by (simp add: work_thread_def)
    then show ?thesis using assms(1) i Fetched in_hand_update [of i "threads p" "Running t"]
      by (auto simp: pool_inv_def alive_def is_thread_alive_def)
  next
    case (Running t)
    let ?e = "p\<lparr>busy_thr_num := busy_thr_num p - 1\<rparr>"
    have "p' = ?e\<lparr>threads := (threads ?e)[i := Start]\<rparr>"
      using assms(2) i Running by (simp add: work_thread_def)
    then show ?thesis using assms(1) i Running in_hand_update [of i "threads p" Start]
      by (auto simp: pool_inv_def alive_def is_thread_alive_def)
  qed (use assms i in \<open>simp_all add: work_thread_def\<close>)
qed


text \<open>A signal changes blocked workers into woken ones only.\<close>

definition woken :: "wstate list \<Rightarrow> wstate list \<Rightarrow> bool" where
  "woken ws ws' = list_all2 (\<lambda>w w'. w' = w \<or> w = Waiting \<and> w' = Woken) ws ws'"

lemma woken_facts:
  assumes "woken ws ws'"
  shows "length ws' = length ws" "count_slots alive ws' = count_slots alive ws" "count_slots is_running ws' = count_slots is_running ws"
    "in_hand ws' = in_hand ws"
proof -
  have "length ws' = length ws \<and> count_slots alive ws' = count_slots alive ws \<and> count_slots is_running ws' = count_slots is_running ws
    \<and> in_hand ws' = in_hand ws"
    using assms unfolding woken_def
    by (induction rule: list_all2_induct) (auto simp: count_slots_def in_hand_def alive_def is_thread_alive_def)
  then show "length ws' = length ws" "count_slots alive ws' = count_slots alive ws" "count_slots is_running ws' = count_slots is_running ws"
    "in_hand ws' = in_hand ws" by simp_all
qed

lemma woken_refl [simp]: "woken ws ws"
  by (simp add: woken_def list_all2_refl)

lemma woken_first: "woken ws (wake_first ws)"
  unfolding woken_def by (induction ws) (auto simp: list_all2_refl)

lemma woken_update: "i < length ws \<Longrightarrow> ws ! i = Waiting \<Longrightarrow> woken ws (ws[i := Woken])"
  unfolding woken_def by (auto simp: list_all2_conv_all_nth nth_list_update)

lemma woken_signal: "woken (threads p) (threads (cond_signal k p))"
  using woken_first woken_update by (simp add: cond_signal_def)

lemma woken_broadcast: "woken (threads p) (threads (cond_broadcast p))"
  by (simp add: cond_broadcast_def woken_def list_all2_conv_all_nth)

lemma pool_inv_woken:
  assumes "pool_inv p" and "woken (threads p) ws"
  shows "pool_inv (p\<lparr>threads := ws\<rparr>)"
  using assms woken_facts [OF assms(2)] by (simp add: pool_inv_def)

lemma cond_ok:
  assumes "pool_inv p"
  shows "pool_inv (cond_signal k p)" "queue_list (cond_signal k p) = queue_list p" "in_hand (threads (cond_signal k p)) = in_hand (threads p)"
    "pool_inv (cond_broadcast p)" "queue_list (cond_broadcast p) = queue_list p" "in_hand (threads (cond_broadcast p)) = in_hand (threads p)"
proof -
  show "pool_inv (cond_signal k p)" using pool_inv_woken [OF assms, of "threads (cond_signal k p)"] woken_signal by (simp add: cond_signal_def)
  show "pool_inv (cond_broadcast p)" using pool_inv_woken [OF assms, of "threads (cond_broadcast p)"] woken_broadcast by (simp add: cond_broadcast_def)
  show "queue_list (cond_signal k p) = queue_list p" "queue_list (cond_broadcast p) = queue_list p"
    by (simp_all add: cond_signal_def cond_broadcast_def)
  show "in_hand (threads (cond_signal k p)) = in_hand (threads p)" "in_hand (threads (cond_broadcast p)) = in_hand (threads p)"
    using woken_facts(4) woken_signal woken_broadcast by blast+
qed

lemma create_loop_ok:
  assumes "pool_inv p"
  shows "pool_inv (create_loop fails i add p) \<and> queue_list (create_loop fails i add p) = queue_list p
    \<and> in_hand (threads (create_loop fails i add p)) = in_hand (threads p)"
  using assms
proof (induction fails i add p rule: create_loop.induct)
  case (1 fails i add p)
  let ?c = "int i < max_thr_num p \<and> add < DEFAULT_THREAD_NUM \<and> live_thr_num p < max_thr_num p"
  let ?free = "threads p ! i = Unused \<or> \<not> is_thread_alive (threads p ! i)"
  let ?w = "if i \<in> set fails then Exited else Start"
  let ?p = "p\<lparr>threads := (threads p)[i := ?w], live_thr_num := live_thr_num p + 1, create_errors := create_errors p + (if i \<in> set fails then 1 else 0)\<rparr>"
  consider "\<not> ?c" | "?c" "?free" | "?c" "\<not> ?free" by blast
  then show ?case
  proof cases
    case 1
    then have "create_loop fails i add p = p" by (subst create_loop.simps) (simp only: if_False)
    then show ?thesis using "1.prems" by simp
  next
    case 2
    then have i: "i < length (threads p)" using "1.prems" by (auto simp: pool_inv_def)
    have h: "in_hand (threads ?p) = in_hand (threads p)"
      using in_hand_update [OF i, of ?w] 2 by (auto simp: is_thread_alive_def)
    have "pool_inv ?p" using "1.prems" 2 i by (auto simp: pool_inv_def alive_def is_thread_alive_def)
    with "1.IH"(1) [OF 2] h have "pool_inv (create_loop fails (Suc i) (add + 1) ?p)
      \<and> queue_list (create_loop fails (Suc i) (add + 1) ?p) = queue_list p
      \<and> in_hand (threads (create_loop fails (Suc i) (add + 1) ?p)) = in_hand (threads p)" by simp
    moreover have "create_loop fails i add p = create_loop fails (Suc i) (add + 1) ?p"
      using 2 by (subst create_loop.simps) (simp only: simp_thms if_True)
    ultimately show ?thesis by simp
  next
    case 3
    then have "create_loop fails i add p = create_loop fails (Suc i) add p"
      by (subst create_loop.simps) simp
    with "1.IH"(2) [OF 3 "1.prems"] show ?thesis by simp
  qed
qed

lemma admin_thread_ok:
  assumes "pool_inv p" and "admin_thread fails k a p = Some (a', p')"
  shows "pool_inv p' \<and> queue_list p' = queue_list p \<and> in_hand (threads p') = in_hand (threads p)"
proof (cases a)
  case (AShrink qs live busy)
  then show ?thesis using assms by (auto simp: admin_thread_def pool_inv_def DEFAULT_THREAD_NUM_def split: if_splits)
qed (use assms create_loop_ok [OF assms(1), of fails 0 0] cond_ok [OF assms(1)] in \<open>auto simp: admin_thread_def split: if_splits\<close>)

lemma TaskAdd_ok:
  assumes "pool_inv p" and "libThreadPool_TaskAdd k p t = Some (rc, p')"
  shows "pool_inv p' \<and> queue_list p' = queue_list p @ (if rc = 0 then [t] else [])
    \<and> in_hand (threads p') = in_hand (threads p)"
proof (cases "shutdown p")
  case False
  then have p': "queue_size p < queue_max_size p" "p' = cond_signal k (enqueue t p)" "rc = 0"
    using assms(2) by (auto simp: libThreadPool_TaskAdd_def split: if_splits)
  moreover have "queue_inv p" using assms(1) by (simp add: pool_inv_def)
  ultimately have "pool_inv (enqueue t p)" "queue_list (enqueue t p) = queue_list p @ [t]"
    using assms(1) tq.enq_inv [of p t] tq.enq_contents [of p t] by (simp_all add: pool_inv_def)
  then show ?thesis using p'(2,3) cond_ok [of "enqueue t p"] by simp
qed (use assms in \<open>auto simp: libThreadPool_TaskAdd_def\<close>)

lemma destroy_ok:
  assumes "pool_inv p" and "libThreadPool_destroy d a (Some p) = Some (d', Some p')"
  shows "pool_inv p' \<and> queue_list p' = queue_list p \<and> in_hand (threads p') = in_hand (threads p)"
proof (cases d)
  case DIdle
  then show ?thesis using assms by (auto simp: libThreadPool_destroy_def pool_inv_def)
qed (use assms cond_ok [OF assms(1)] in \<open>auto simp: libThreadPool_destroy_def threadpool_free_def split: if_splits\<close>)

lemma sys_inv_step: "tp_step s s' \<Longrightarrow> sys_inv s \<Longrightarrow> sys_inv s'"
proof (induction rule: tp_step.induct)
  case (worker s p i p')
  then show ?case using work_thread_ok [of p i p'] by (auto simp: sys_inv_def)
next
  case (spurious s p i)
  then show ?case using woken_facts(4) [OF woken_update [OF spurious(2,3)]] pool_inv_woken [OF _ woken_update [OF spurious(2,3)]]
    by (auto simp: sys_inv_def)
next
  case (task_add s p k t rc p')
  then show ?case using TaskAdd_ok [of p k t rc p'] by (auto simp: sys_inv_def)
next
  case (manage s p fails k a' p')
  then show ?case using admin_thread_ok [of p fails k "admin_pc s" a' p'] by (auto simp: sys_inv_def)
next
  case (destroy s d' pool')
  then show ?case
    using destroy_ok [of _ "destroy_pc s" "admin_pc s" d']
    by (cases "pool s"; cases pool') (auto simp: sys_inv_def libThreadPool_destroy_def split: if_splits)
qed

lemma sum_list_replicate_empty: "sum_list (replicate n {#}) = {#}"
  by (induction n) simp_all

lemma Init_facts:
  assumes "libThreadPool_Init a b c d fails mn mx q = Inr (InitOk p)" and "0 \<le> mn" and "0 < q"
  shows "pool_inv p" "queue_list p = []" "in_hand (threads p) = {#}" "wait_exit_thr_num p = 0" "queue_size p = 0"
    "min_thr_num p = mn" "max_thr_num p = mx" "live_thr_num p = mn"
proof -
  let ?ws = "map (\<lambda>i. if i \<in> set fails then Exited else Start) [0..<nat mn]"
  let ?e = "length (filter (\<lambda>w. w = Exited) ?ws)"
  have p: "mn \<le> mx" "p = \<lparr>threads = ?ws @ replicate (nat (mx - mn)) Unused,
      task_queue = replicate q \<lparr>arg = 0, task_func = 0\<rparr>, min_thr_num = mn, max_thr_num = mx, live_thr_num = mn,
      busy_thr_num = 0, wait_exit_thr_num = 0, queue_front = 0, queue_rear = 0, queue_size = 0,
      queue_max_size = q, shutdown = False, create_errors = ?e\<rparr>"
    using assms by (auto simp: libThreadPool_Init_def Let_def split: if_splits)
  have "length (filter alive (map (\<lambda>i. if i \<in> set fails then Exited else Start) xs))
      + length (filter (\<lambda>w. w = Exited) (map (\<lambda>i. if i \<in> set fails then Exited else Start) xs)) = length xs" for xs :: "nat list"
    by (induction xs) (auto simp: alive_def is_thread_alive_def)
  from this [of "[0..<nat mn]"] have "length (filter alive ?ws) + ?e = nat mn" by simp
  then have al: "count_slots alive (threads p) + int ?e = mn"
    using p assms(2) by (simp add: count_slots_def) (simp add: alive_def)
  have "filter is_running (map (\<lambda>i. if i \<in> set fails then Exited else Start) xs) = []" for xs :: "nat list" by (induction xs) auto
  then have run: "count_slots is_running (threads p) = 0" using p by (simp add: count_slots_def)
  show hand: "in_hand (threads p) = {#}" unfolding p in_hand_def
    by (simp add: sum_list_replicate_empty o_def if_distrib cong: if_cong)
  show "queue_list p = []" "wait_exit_thr_num p = 0" "queue_size p = 0" "min_thr_num p = mn" "max_thr_num p = mx" "live_thr_num p = mn"
    by (simp_all add: p queue_list_def)
  show "pool_inv p" using p al run assms(2,3)
    by (simp add: pool_inv_def queue_inv_def DEFAULT_THREAD_NUM_def)
qed

lemma Init_inv:
  assumes "libThreadPool_Init a b c d fails mn mx q = Inr (InitOk p)" and "0 \<le> mn" and "0 < q"
  shows "sys_inv (tp_start adm p)"
  using Init_facts [OF assms] by (simp add: sys_inv_def tp_start_def)

lemma sys_inv_reachable:
  assumes "libThreadPool_Init a b c d fails mn mx q = Inr (InitOk p)" and "0 \<le> mn" and "0 < q" and "tp_reachable p s"
  shows "sys_inv s"
  using assms(4) by (induction rule: tp_reachable.induct) (auto intro: Init_inv [OF assms(1-3)] sys_inv_step)


section \<open>Runs\<close>

text \<open>A schedule names which thread makes the next step; \<open>tp_run\<close> executes it.\<close>

datatype action = Work nat | Wake nat | Add nat TaskData_t | Manage "nat list" nat | Destroy

fun tp_act :: "action \<Rightarrow> tp_sys \<Rightarrow> tp_sys option" where
  "tp_act (Work i) s = Option.bind (pool s) (\<lambda>p. map_option (\<lambda>p'.
     s\<lparr>pool := Some p', taken := taken s @ fetched_task (threads p' ! i),
       finished := finished s @ running_task (threads p ! i)\<rparr>) (work_thread i p))"
| "tp_act (Wake i) s = Option.bind (pool s) (\<lambda>p. if i < length (threads p) \<and> threads p ! i = Waiting
     then Some (s\<lparr>pool := Some (p\<lparr>threads := (threads p)[i := Woken]\<rparr>)\<rparr>) else None)"
| "tp_act (Add k t) s = Option.bind (pool s) (\<lambda>p. map_option (\<lambda>(rc, p').
     s\<lparr>pool := Some p', submitted := submitted s @ (if rc = 0 then [t] else [])\<rparr>) (libThreadPool_TaskAdd k p t))"
| "tp_act (Manage fails k) s = Option.bind (pool s) (\<lambda>p. map_option (\<lambda>(a', p').
     s\<lparr>pool := Some p', admin_pc := a', shrunk := shrunk s \<or> wait_exit_thr_num p' \<noteq> wait_exit_thr_num p\<rparr>) (admin_thread fails k (admin_pc s) p))"
| "tp_act Destroy s = map_option (\<lambda>(d', pool'). s\<lparr>pool := pool', destroy_pc := d'\<rparr>)
     (libThreadPool_destroy (destroy_pc s) (admin_pc s) (pool s))"

fun tp_run :: "action list \<Rightarrow> tp_sys \<Rightarrow> tp_sys option" where
  "tp_run [] s = Some s"
| "tp_run (a # as) s = Option.bind (tp_act a s) (tp_run as)"

lemma tp_act_step: "tp_act a s = Some s' \<Longrightarrow> tp_step s s'"
proof (cases a)
  case (Wake i)
  assume "tp_act a s = Some s'"
  then show ?thesis using Wake by (auto simp: bind_eq_Some_conv split: if_splits intro!: tp_step.spurious)
qed (auto simp: bind_eq_Some_conv intro!: tp_step.intros)

lemma tp_run_reachable: "tp_reachable p0 s \<Longrightarrow> tp_run as s = Some s' \<Longrightarrow> tp_reachable p0 s'"
proof (induction as arbitrary: s)
  case (Cons a as)
  then obtain s1 where "tp_act a s = Some s1" "tp_run as s1 = Some s'" by (auto simp: bind_eq_Some_conv)
  with Cons show ?case by (meson tp_act_step tp_reachable.step)
qed simp

section \<open>Properties\<close>

text \<open>
  C4: No task is lost, duplicated or reordered. In every interleaving of submitters, workers, the
  managing thread and a shutdown, whichever threads cannot be created, the tasks taken so far followed by the queued ones are exactly the
  tasks submitted with return value 0, in order, and every submitted task is either still queued, in
  the hands of exactly one worker, or finished.
\<close>

theorem ThreadPool_exactly_once:
  assumes "libThreadPool_Init a b c d fails mn mx q = Inr (InitOk p0)" and "0 \<le> mn" and "0 < q"
    and "tp_reachable p0 s" and "pool s = Some p"
  shows "submitted s = taken s @ queue_list p
    \<and> mset (submitted s) = mset (queue_list p) + in_hand (threads p) + mset (finished s)"
  using sys_inv_reachable [OF assms(1-4)] assms(5) by (simp add: sys_inv_def)

definition small_pool :: threadPool_t where
  "small_pool = \<lparr>threads = [Start, Unused], task_queue = replicate 5 \<lparr>arg = 0, task_func = 0\<rparr>,
     min_thr_num = 1, max_thr_num = 2, live_thr_num = 1, busy_thr_num = 0, wait_exit_thr_num = 0,
     queue_front = 0, queue_rear = 0, queue_size = 0, queue_max_size = 5, shutdown = False, create_errors = 0\<rparr>"

definition small_task :: TaskData_t where
  "small_task = \<lparr>arg = 1, task_func = 2\<rparr>"

lemma small_pool_init: "libThreadPool_Init True True True True [] 1 2 5 = Inr (InitOk small_pool)"
  by (simp add: libThreadPool_Init_def small_pool_def)

lemma small_pool_run:
  obtains s p where "tp_reachable small_pool s" "pool s = Some p" "submitted s = [small_task]" "busy_thr_num p = 1"
proof -
  let ?run = "tp_run [Add 0 small_task, Work 0, Work 0] (tp_start True small_pool)"
  have "map_option (\<lambda>s. (submitted s, map_option busy_thr_num (pool s))) ?run = Some ([small_task], Some 1)"
    by code_simp
  then obtain s p where s: "?run = Some s" "submitted s = [small_task]" "pool s = Some p" "busy_thr_num p = 1" by auto
  have "tp_reachable small_pool s" using s(1) by (rule tp_run_reachable [OF tp_reachable.start])
  with s that show ?thesis by blast
qed

theorem ThreadPool_exactly_once_witness:
  "\<exists>s p. tp_reachable small_pool s \<and> pool s = Some p \<and> submitted s = [small_task]
    \<and> mset (submitted s) = mset (queue_list p) + in_hand (threads p) + mset (finished s)"
proof -
  obtain s p where s: "tp_reachable small_pool s" "pool s = Some p" "submitted s = [small_task]" "busy_thr_num p = 1"
    by (rule small_pool_run)
  have "mset (submitted s) = mset (queue_list p) + in_hand (threads p) + mset (finished s)"
    using ThreadPool_exactly_once [OF small_pool_init _ _ s(1,2), THEN conjunct2] by simp
  with s show ?thesis by blast
qed

text \<open>
  C16: The thread counts. In every reachable state \<open>live_thr_num\<close> stays between the minimum and the maximum and, until
  shutdown, is the number of slots with a running thread plus the number of threads that could not be created, which
  the source counts as alive; \<open>busy_thr_num\<close> counts exactly the threads that run a task; the queue indices stay inside
  the array.
\<close>

theorem ThreadPool_counts:
  assumes "libThreadPool_Init a b c d fails mn mx q = Inr (InitOk p0)" and "0 \<le> mn" and "0 < q"
    and "tp_reachable p0 s" and "pool s = Some p"
  shows "min_thr_num p \<le> live_thr_num p \<and> live_thr_num p \<le> max_thr_num p
    \<and> (\<not> shutdown p \<longrightarrow> live_thr_num p = count_slots alive (threads p) + int (create_errors p))
    \<and> busy_thr_num p = count_slots is_running (threads p)
    \<and> queue_size p \<le> queue_max_size p \<and> queue_front p < length (task_queue p) \<and> queue_rear p < length (task_queue p)"
  using sys_inv_reachable [OF assms(1-4)] assms(5) by (auto simp: sys_inv_def pool_inv_def queue_inv_def)

theorem ThreadPool_counts_witness:
  "\<exists>s p. tp_reachable small_pool s \<and> pool s = Some p \<and> busy_thr_num p = 1
    \<and> busy_thr_num p = count_slots is_running (threads p) \<and> live_thr_num p \<le> max_thr_num p"
proof -
  obtain s p where s: "tp_reachable small_pool s" "pool s = Some p" "submitted s = [small_task]" "busy_thr_num p = 1"
    by (rule small_pool_run)
  with ThreadPool_counts [OF small_pool_init _ _ s(1,2)] show ?thesis by auto
qed

text \<open>
  C12: The circular buffer implements a first-in first-out queue: from an empty queue, any tasks that fit
  its capacity come out in the order in which they were put in, whatever the position of the indices.
\<close>

theorem ThreadPool_queue_fifo:
  assumes "queue_inv p" and "queue_size p = 0" and "length ts \<le> queue_max_size p"
  shows "fst (tq.drain (length ts) (fold enqueue ts p)) = ts"
proof -
  have "queue_list p = []" using assms(2) by (simp add: queue_list_def)
  then show ?thesis using assms by (intro tq.fill_drain)
qed

theorem ThreadPool_queue_fifo_witness:
  "fst (tq.drain (Suc (Suc 0)) (fold enqueue [small_task, small_task\<lparr>arg := 7\<rparr>] (small_pool\<lparr>queue_front := 4, queue_rear := 4\<rparr>)))
    = [small_task, small_task\<lparr>arg := 7\<rparr>]"
proof -
  let ?p = "small_pool\<lparr>queue_front := 4, queue_rear := 4\<rparr>"
  have "queue_inv ?p" "queue_size ?p = 0" "queue_max_size ?p = 5"
    by (simp_all add: queue_inv_def small_pool_def)
  then show ?thesis using ThreadPool_queue_fifo [of ?p "[small_task, small_task\<lparr>arg := 7\<rparr>]"] by simp
qed

section \<open>Progress\<close>

text \<open>A worker that is neither blocked nor at its end; every task in the queue needs one.\<close>

definition active :: "wstate \<Rightarrow> bool" where
  "active w = (alive w \<and> w \<noteq> Waiting)"

definition has_active :: "threadPool_t \<Rightarrow> bool" where
  "has_active p = list_ex active (threads p)"

text \<open>Until workers are asked to end, tasks wait only while a worker is on its way to them.\<close>

definition serving :: "threadPool_t \<Rightarrow> bool" where
  "serving p = (shutdown p \<or> wait_exit_thr_num p = 0 \<and> (queue_size p = 0 \<or> has_active p \<or> \<not> list_ex alive (threads p)))"

lemma list_ex_update: "i < length ws \<Longrightarrow> P w \<Longrightarrow> list_ex P (ws[i := w])"
  by (auto simp: list_ex_iff set_update_memI)

lemma woken_active:
  assumes "woken ws ws'"
  shows "list_ex active ws \<Longrightarrow> list_ex active ws'" "list_ex alive ws' = list_ex alive ws"
  using assms unfolding woken_def
  by (induction rule: list_all2_induct) (auto simp: active_def alive_def is_thread_alive_def)

lemma wake_first_active: "list_ex alive ws \<Longrightarrow> list_ex active (wake_first ws)"
  by (induction ws) (auto simp: active_def alive_def is_thread_alive_def)

lemma signal_active: "list_ex alive (threads p) \<Longrightarrow> has_active (cond_signal k p)"
  using wake_first_active by (auto simp: has_active_def cond_signal_def active_def alive_def is_thread_alive_def intro: list_ex_update)

lemma serving_woken: "serving p \<Longrightarrow> woken (threads p) ws \<Longrightarrow> serving (p\<lparr>threads := ws\<rparr>)"
  using woken_active [of "threads p" ws] by (auto simp: serving_def has_active_def)

lemma serving_TaskAdd:
  assumes "serving p" and "libThreadPool_TaskAdd k p t = Some (rc, p')"
  shows "serving p'"
proof (cases "shutdown p")
  case False
  then have p': "p' = cond_signal k (enqueue t p)" using assms(2) by (auto simp: libThreadPool_TaskAdd_def split: if_splits)
  have "has_active p' \<or> \<not> list_ex alive (threads p')"
    using signal_active [of "enqueue t p" k] woken_active(2) [OF woken_signal [of "enqueue t p" k]] by (auto simp: p')
  moreover have "wait_exit_thr_num p' = wait_exit_thr_num p" "shutdown p' = shutdown p" by (simp_all add: p' cond_signal_def)
  ultimately show ?thesis using assms(1) False by (auto simp: serving_def)
qed (use assms in \<open>auto simp: libThreadPool_TaskAdd_def serving_def split: if_splits\<close>)

lemma serving_worker:
  assumes "serving p" and "work_thread i p = Some p'"
  shows "serving p'"
proof -
  have i: "i < length (threads p)" using assms(2) by (auto simp: work_thread_def split: if_splits)
  have take: "serving (work_take i p)" if "\<not> shutdown p"
    using that assms(1) i by (cases rule: work_take_cases [of p i])
      (auto simp: serving_def has_active_def active_def alive_def is_thread_alive_def intro!: list_ex_update)
  have shut: "shutdown p'" if "shutdown p"
    using assms(2) that by (auto simp: work_thread_def work_wake_def work_take_def Let_def split: if_splits wstate.splits)
  show ?thesis
  proof (cases "shutdown p")
    case True
    then show ?thesis using shut by (simp add: serving_def)
  next
    case False
    then have z: "wait_exit_thr_num p = 0" using assms(1) by (simp add: serving_def)
    show ?thesis using assms False z i take
      by (auto simp: work_thread_def work_wake_def serving_def has_active_def active_def alive_def is_thread_alive_def
          intro!: list_ex_update split: wstate.splits)
  qed
qed

lemma dead_update:
  assumes "i < length ws" and "\<not> alive (ws ! i)"
  shows "list_ex active ws \<Longrightarrow> list_ex active (ws[i := w])"
    "active w \<Longrightarrow> list_ex active (ws[i := w])" "\<not> alive w \<Longrightarrow> list_ex alive (ws[i := w]) = list_ex alive ws"
proof -
  show "active w \<Longrightarrow> list_ex active (ws[i := w])" using assms(1) by (rule list_ex_update)
  have "\<not> active (ws ! i)" using assms(2) by (simp add: active_def)
  then show "list_ex active ws \<Longrightarrow> list_ex active (ws[i := w])" unfolding list_ex_length length_list_update by (metis nth_list_update_neq)
  show "\<not> alive w \<Longrightarrow> list_ex alive (ws[i := w]) = list_ex alive ws"
    unfolding list_ex_length length_list_update using assms by (metis nth_list_update_eq nth_list_update_neq)
qed

lemma create_loop_serving: "serving p \<Longrightarrow> int (length (threads p)) = max_thr_num p \<Longrightarrow> serving (create_loop fails i add p)
    \<and> wait_exit_thr_num (create_loop fails i add p) = wait_exit_thr_num p"
proof (induction fails i add p rule: create_loop.induct)
  case (1 fails i add p)
  let ?c = "int i < max_thr_num p \<and> add < DEFAULT_THREAD_NUM \<and> live_thr_num p < max_thr_num p"
  let ?free = "threads p ! i = Unused \<or> \<not> is_thread_alive (threads p ! i)"
  let ?p = "p\<lparr>threads := (threads p)[i := if i \<in> set fails then Exited else Start], live_thr_num := live_thr_num p + 1,
    create_errors := create_errors p + (if i \<in> set fails then 1 else 0)\<rparr>"
  consider "\<not> ?c" | "?c" "?free" | "?c" "\<not> ?free" by blast
  then show ?case
  proof cases
    case 1
    then have "create_loop fails i add p = p" by (subst create_loop.simps) (simp only: if_False)
    then show ?thesis using "1.prems" by simp
  next
    case 2
    then have i: "i < length (threads p)" using "1.prems"(2) by simp
    have d: "\<not> alive (threads p ! i)" using 2(2) by (auto simp: alive_def)
    have "active Start" "\<not> alive Exited" by (simp_all add: active_def alive_def is_thread_alive_def)
    then have "serving ?p" using "1.prems"(1) dead_update(1) [OF i d] dead_update(2) [OF i d, of Start] dead_update(3) [OF i d, of Exited]
      by (cases "i \<in> set fails") (auto simp: serving_def has_active_def)
    then have "serving (create_loop fails (Suc i) (add + 1) ?p) \<and> wait_exit_thr_num (create_loop fails (Suc i) (add + 1) ?p) = wait_exit_thr_num p"
      using "1.IH"(1) [OF 2] "1.prems"(2) by simp
    moreover have "create_loop fails i add p = create_loop fails (Suc i) (add + 1) ?p"
      using 2 by (subst create_loop.simps) (simp only: simp_thms if_True)
    ultimately show ?thesis by simp
  next
    case 3
    then have "create_loop fails i add p = create_loop fails (Suc i) add p" by (subst create_loop.simps) simp
    with "1.IH"(2) [OF 3 "1.prems"] show ?thesis by simp
  qed
qed

lemma serving_admin:
  assumes "serving p" and "admin_thread fails k a p = Some (a', p')" and "int (length (threads p)) = max_thr_num p"
    and "wait_exit_thr_num p' = wait_exit_thr_num p"
  shows "serving p'"
proof (cases a)
  case (ACreate qs live busy)
  then show ?thesis using assms create_loop_serving [of p fails 0 0] by (auto simp: admin_thread_def split: if_splits)
next
  case (AShrink qs live busy)
  then show ?thesis using assms by (auto simp: admin_thread_def serving_def DEFAULT_THREAD_NUM_def has_active_def split: if_splits)
next
  case (ASignal n)
  then show ?thesis using assms serving_woken [OF assms(1) woken_signal [of p k]] by (auto simp: admin_thread_def cond_signal_def split: if_splits)
qed (use assms in \<open>auto simp: admin_thread_def split: if_splits\<close>)

text \<open>
  What the steps keep: a pool in which no worker was ever asked to end serves its tasks; and a pool whose minimum is its maximum
  never asks, because the number of live threads that was read is at most the maximum.
\<close>

fun live_read :: "admin \<Rightarrow> int" where
  "live_read (ABusy qs live) = live"
| "live_read (ACreate qs live busy) = live"
| "live_read (AShrink qs live busy) = live"
| "live_read _ = 0"

definition prog_inv :: "tp_sys \<Rightarrow> bool" where
  "prog_inv s = (sys_inv s \<and> (case pool s of None \<Rightarrow> True | Some p \<Rightarrow> (shrunk s \<or> serving p)
     \<and> live_read (admin_pc s) \<le> max_thr_num p \<and> 0 \<le> min_thr_num p \<and> (min_thr_num p = max_thr_num p \<longrightarrow> \<not> shrunk s)))"

lemma create_loop_fields:
  "min_thr_num (create_loop fails i add p) = min_thr_num p" "max_thr_num (create_loop fails i add p) = max_thr_num p"
  "wait_exit_thr_num (create_loop fails i add p) = wait_exit_thr_num p"
  by (induction fails i add p rule: create_loop.induct) (subst create_loop.simps; simp)+

lemma bounds_kept:
  "work_thread i p = Some p' \<Longrightarrow> min_thr_num p' = min_thr_num p \<and> max_thr_num p' = max_thr_num p"
  "libThreadPool_TaskAdd k p t = Some (rc, p') \<Longrightarrow> min_thr_num p' = min_thr_num p \<and> max_thr_num p' = max_thr_num p"
  "admin_thread fails k a p = Some (a', p') \<Longrightarrow> min_thr_num p' = min_thr_num p \<and> max_thr_num p' = max_thr_num p"
  "libThreadPool_destroy d a (Some p) = Some (d', Some p') \<Longrightarrow> min_thr_num p' = min_thr_num p \<and> max_thr_num p' = max_thr_num p"
proof -
  have take: "min_thr_num (work_take i p) = min_thr_num p \<and> max_thr_num (work_take i p) = max_thr_num p" for i p
    by (simp add: work_take_def dequeue_def)
  show "work_thread i p = Some p' \<Longrightarrow> min_thr_num p' = min_thr_num p \<and> max_thr_num p' = max_thr_num p"
    using take by (auto simp: work_thread_def work_wake_def Let_def split: if_splits wstate.splits)
  show "libThreadPool_TaskAdd k p t = Some (rc, p') \<Longrightarrow> min_thr_num p' = min_thr_num p \<and> max_thr_num p' = max_thr_num p"
    by (auto simp: libThreadPool_TaskAdd_def cond_signal_def split: if_splits)
  show "admin_thread fails k a p = Some (a', p') \<Longrightarrow> min_thr_num p' = min_thr_num p \<and> max_thr_num p' = max_thr_num p"
    by (auto simp: admin_thread_def create_loop_fields cond_signal_def split: admin.splits if_splits)
  show "libThreadPool_destroy d a (Some p) = Some (d', Some p') \<Longrightarrow> min_thr_num p' = min_thr_num p \<and> max_thr_num p' = max_thr_num p"
    by (auto simp: libThreadPool_destroy_def cond_broadcast_def threadpool_free_def split: destroyer.splits if_splits)
qed

lemma admin_read:
  assumes "pool_inv p" and "0 \<le> min_thr_num p" and "live_read a \<le> max_thr_num p" and "admin_thread fails k a p = Some (a', p')"
  shows "live_read a' \<le> max_thr_num p" and "min_thr_num p = max_thr_num p \<Longrightarrow> wait_exit_thr_num p' = wait_exit_thr_num p"
  using assms by (auto simp: admin_thread_def create_loop_fields cond_signal_def pool_inv_def split: admin.splits if_splits)

lemma serving_destroy:
  assumes "libThreadPool_destroy d a (Some p) = Some (d', Some p')" and "serving p"
  shows "serving p'"
  using assms serving_woken [OF assms(2) woken_broadcast [of p]]
  by (auto simp: libThreadPool_destroy_def threadpool_free_def serving_def cond_broadcast_def split: destroyer.splits if_splits)

lemma prog_inv_step: "tp_step s s' \<Longrightarrow> prog_inv s \<Longrightarrow> prog_inv s'"
proof (induction rule: tp_step.induct)
  case (worker s p i p')
  then show ?case using sys_inv_step [OF tp_step.worker [OF worker(1,2)]] serving_worker [OF _ worker(2)] bounds_kept(1) [OF worker(2)]
    by (auto simp: prog_inv_def)
next
  case (spurious s p i)
  then show ?case using sys_inv_step [OF tp_step.spurious [OF spurious(1-3)]] serving_woken [OF _ woken_update [OF spurious(2,3)]]
    by (auto simp: prog_inv_def)
next
  case (task_add s p k t rc p')
  then show ?case using sys_inv_step [OF tp_step.task_add [OF task_add(1,2)]] serving_TaskAdd [OF _ task_add(2)] bounds_kept(2) [OF task_add(2)]
    by (auto simp: prog_inv_def)
next
  case (manage s p fails k a' p')
  have p: "pool_inv p" "0 \<le> min_thr_num p" "live_read (admin_pc s) \<le> max_thr_num p" "shrunk s \<or> serving p" "min_thr_num p = max_thr_num p \<longrightarrow> \<not> shrunk s"
    using manage by (auto simp: prog_inv_def sys_inv_def)
  have "int (length (threads p)) = max_thr_num p" using p(1) by (simp add: pool_inv_def)
  then show ?case using manage(1,3) p sys_inv_step [OF tp_step.manage [OF manage(1,2)]] serving_admin [OF _ manage(2)] bounds_kept(3) [OF manage(2)]
      admin_read [OF p(1-3) manage(2)] by (auto simp: prog_inv_def)
next
  case (destroy s d' pool')
  show ?case
  proof (cases pool')
    case None
    then show ?thesis by (simp add: prog_inv_def sys_inv_def)
  next
    case (Some p')
    then obtain p where p: "pool s = Some p" using destroy(1) by (cases "pool s") (auto simp: libThreadPool_destroy_def split: if_splits)
    then have d: "libThreadPool_destroy (destroy_pc s) (admin_pc s) (Some p) = Some (d', Some p')" using destroy(1) Some by simp
    then show ?thesis using destroy(2) sys_inv_step [OF tp_step.destroy [OF destroy(1)]] Some p serving_destroy [OF d] bounds_kept(4) [OF d]
      by (auto simp: prog_inv_def)
  qed
qed

lemma prog_inv_reachable:
  assumes "libThreadPool_Init a b c d fails mn mx q = Inr (InitOk p)" and "0 \<le> mn" and "0 < q" and "tp_reachable p s"
  shows "prog_inv s"
  using assms(4)
proof (induction rule: tp_reachable.induct)
  case (start adm)
  note f = Init_facts [OF assms(1-3)]
  then have "mn \<le> mx" by (auto simp: pool_inv_def)
  then show ?case using f assms(2) Init_inv [OF assms(1-3)] by (simp add: prog_inv_def tp_start_def serving_def)
next
  case (step s s')
  then show ?case using prog_inv_step by blast
qed



text \<open>
  A wake-up can be lost once workers were asked to end. A worker that a new task has woken ends instead of taking the task, if a
  request to end is left over from an earlier round: a schedule of a pool with one to two threads leads to a state
  in which a task is queued, a worker is alive, and no worker can make a step. The number of live threads is then the
  minimum, so that the managing thread sends no signal either.
\<close>

theorem ThreadPool_lost_wakeup:
  "\<exists>s p. tp_reachable small_pool s \<and> pool s = Some p \<and> \<not> shutdown p \<and> queue_size p = 1 \<and> threads p = [Exited, Waiting]
    \<and> live_thr_num p = min_thr_num p \<and> (\<forall>i. work_thread i p = None)"
proof -
  let ?serve = "\<lambda>i. [Work i, Work i, Work i]"
  let ?sched = "replicate 5 (Add 0 small_task) @ replicate 5 (Manage [] 0) @ concat (replicate 5 (?serve 0)) @ [Work 0, Work 1] @
    replicate 11 (Manage [] 0) @ [Work 0, Work 1, Add 1 small_task, Work 1] @ replicate 5 (Add 0 small_task) @ replicate 5 (Manage [] 0) @
    concat (replicate 5 (?serve 0)) @ [Work 0, Work 1, Work 1, Work 1, Add 0 small_task, Work 0]"
  have "map_option (\<lambda>s. map_option (\<lambda>p. (shutdown p, queue_size p, threads p, live_thr_num p, min_thr_num p)) (pool s))
      (tp_run ?sched (tp_start True small_pool)) = Some (Some (False, 1, [Exited, Waiting], 1, 1))"
    by code_simp
  then obtain s p where s: "tp_run ?sched (tp_start True small_pool) = Some s" "pool s = Some p" "\<not> shutdown p" "queue_size p = 1"
    "threads p = [Exited, Waiting]" "live_thr_num p = 1" "min_thr_num p = 1" by auto
  have "tp_reachable small_pool s" using s(1) by (rule tp_run_reachable [OF tp_reachable.start])
  moreover have "work_thread i p = None" for i
  proof -
    consider "i = 0" | "i = 1" | "2 \<le> i" by linarith
    then show ?thesis using s(5) by cases (simp_all add: work_thread_def)
  qed
  ultimately show ?thesis using s(2-) by (intro exI [of _ s] exI [of _ p]) simp
qed

text \<open>
  \<open>libThreadPool_destroy\<close> joins the first \<open>live_thr_num\<close> slots of the array, which need not be the
  slots of the live threads. A schedule of a pool with one to two threads leads to a state in which the
  shutdown frees the pool while the thread of another slot is alive and will use it.
\<close>

theorem ThreadPool_destroy_frees_under_worker:
  "\<exists>s p. tp_reachable small_pool s \<and> pool s = Some p \<and> alive (threads p ! 1)
    \<and> libThreadPool_destroy (destroy_pc s) (admin_pc s) (pool s) = Some (DReturn 0, None)
    \<and> work_thread 1 p \<noteq> None"
proof -
  let ?sched = "replicate 5 (Add 0 small_task) @ replicate 5 (Manage [] 0) @ [
    Work 0, Work 0, Work 0, Work 0, Work 0, Work 0, Work 0, Work 0, Work 0,
    Work 0, Work 0, Work 0, Work 0, Work 0, Work 0, Work 0,
    Wake 0] @ replicate 5 (Manage [] 0) @ [Work 0, Destroy] @ replicate 7 (Manage [] 0) @ [Destroy, Destroy, Destroy, Destroy]"
  have "map_option (\<lambda>s. (destroy_pc s, admin_pc s, map_option (\<lambda>p. (threads p, live_thr_num p)) (pool s)))
      (tp_run ?sched (tp_start True small_pool)) = Some (DJoin 1, ADone, Some ([Exited, Start], 1))"
    by code_simp
  then obtain s p where s: "tp_run ?sched (tp_start True small_pool) = Some s" "destroy_pc s = DJoin 1"
    "admin_pc s = ADone" "pool s = Some p" "threads p = [Exited, Start]" "live_thr_num p = 1" by auto
  have "tp_reachable small_pool s" using s(1) by (rule tp_run_reachable [OF tp_reachable.start])
  then show ?thesis using s(2-)
    by (intro exI [of _ s] exI [of _ p])
      (simp add: libThreadPool_destroy_def threadpool_free_def alive_def is_thread_alive_def work_thread_def)
qed

end
