(* ===== verification/Packets.thy ===== *)
theory Packets
  imports Rsa
begin

text \<open>
  The structures of src/head/SERVER.h that carry a connection and a packet, and the copying of
  received packets into a connection: src/src/CopyCln2Sendbag.c and src/src/CopyIotData.c. A
  \<open>char x[n]\<close> is a list of \<open>n\<close> characters. Sockets and addresses of peers are numbers, a pointer is a
  number with 0 for the null pointer.
\<close>

section \<open>Structures\<close>

record CLN =
  SOCKET :: nat
  ADDR :: nat
  USERID :: buf
  USERKEY_ID :: int
  USERPASSWORD :: buf
  checkcode :: buf
  DATE :: buf
  TalktoID :: buf
  REUSERPASSWORD :: buf
  data :: buf
  info :: buf
  Pin :: buf
  key :: RSAKey
  conn :: nat
  MemMark :: int
  SeqNum :: int

record UserPacketInterface =
  pk_checkcode :: buf
  pk_USERID :: buf
  pk_USERPASSWORD :: buf
  pk_TalktoID :: buf
  pk_REUSERPASSWORD :: buf
  pk_DATA :: buf
  pk_save :: buf

text \<open>The layout of the two packets in memory: the arrays follow each other without padding.\<close>

definition sizeof_UserPacketInterface :: nat where
  "sizeof_UserPacketInterface = 721"

definition sizeof_IotPacketInterface :: nat where
  "sizeof_IotPacketInterface = 205"

definition user_packet_bytes :: "UserPacketInterface \<Rightarrow> buf" where
  "user_packet_bytes p = pk_checkcode p @ pk_USERID p @ pk_USERPASSWORD p @ pk_TalktoID p
     @ pk_REUSERPASSWORD p @ pk_DATA p @ pk_save p"

definition bytes_at :: "nat \<Rightarrow> nat \<Rightarrow> 'a list \<Rightarrow> 'a list" where
  "bytes_at i n xs = take n (drop i xs)"

definition user_packet_of :: "buf \<Rightarrow> UserPacketInterface" where
  "user_packet_of b =
     \<lparr>pk_checkcode = bytes_at 0 18 b, pk_USERID = bytes_at 18 12 b, pk_USERPASSWORD = bytes_at 30 33 b,
      pk_TalktoID = bytes_at 63 12 b, pk_REUSERPASSWORD = bytes_at 75 33 b, pk_DATA = bytes_at 108 513 b,
      pk_save = bytes_at 621 100 b\<rparr>"

definition packet_wf :: "UserPacketInterface \<Rightarrow> bool" where
  "packet_wf p = (length (pk_checkcode p) = 18 \<and> length (pk_USERID p) = 12 \<and> length (pk_USERPASSWORD p) = 33
     \<and> length (pk_TalktoID p) = 12 \<and> length (pk_REUSERPASSWORD p) = 33 \<and> length (pk_DATA p) = 513
     \<and> length (pk_save p) = 100)"

section \<open>Copying into a connection\<close>

definition CopyUserPacketInterface2Cln :: "UserPacketInterface \<Rightarrow> CLN \<Rightarrow> CLN res" where
  "CopyUserPacketInterface2Cln p a =
     rbind (wr (pk_checkcode p) 17 NUL) (\<lambda>cc.
     rbind (wr (pk_DATA p) 512 NUL) (\<lambda>dt.
     rbind (wr (pk_USERPASSWORD p) 32 NUL) (\<lambda>pw.
     rbind (wr (pk_USERID p) 11 NUL) (\<lambda>ui.
     rbind (wr (pk_REUSERPASSWORD p) 32 NUL) (\<lambda>rp.
     rbind (wr (pk_TalktoID p) 11 NUL) (\<lambda>ti.
     rbind (wr (pk_save p) 99 NUL) (\<lambda>sv.
     rbind (memcpy (checkcode a) cc 17) (\<lambda>cc'.
     rbind (memcpy (data a) dt 512) (\<lambda>dt'.
     rbind (memcpy (USERPASSWORD a) pw 32) (\<lambda>pw'.
     rbind (memcpy (USERID a) ui 11) (\<lambda>ui'.
     rbind (memcpy (REUSERPASSWORD a) rp 32) (\<lambda>rp'.
     rbind (memcpy (TalktoID a) ti 11) (\<lambda>ti'.
     rbind (memcpy (DATE a) sv 99) (\<lambda>sv'.
       ok (a\<lparr>checkcode := cc', data := dt', USERPASSWORD := pw', USERID := ui', REUSERPASSWORD := rp',
             TalktoID := ti', DATE := sv'\<rparr>)))))))))))))))"

text \<open>
  \<open>IotPacketInterface\<close> is \<open>opCode[3]\<close>, \<open>SeqNum[2]\<close>, \<open>payLoad[200]\<close>. \<open>len\<close> and \<open>len - 5\<close> are converted to
  \<open>size_t\<close> by \<open>memcpy\<close>: a negative count is a huge one.
\<close>

definition size_t :: "int \<Rightarrow> nat" where
  "size_t n = u64 n"

definition CopyRecIotData2Cln :: "buf \<Rightarrow> CLN \<Rightarrow> int \<Rightarrow> CLN res" where
  "CopyRecIotData2Cln recBuff CONN len =
     rbind (memcpy (replicate sizeof_IotPacketInterface NUL) recBuff (size_t len)) (\<lambda>temp0.
     let temp = temp0[2 := NUL, 4 := NUL] in
     rbind (str_of (bytes_at 0 3 temp)) (\<lambda>op.
     rbind (sprintf (checkcode CONN) op) (\<lambda>cc.
     rbind (str_of (bytes_at 3 2 temp)) (\<lambda>sn.
     rbind (sprintf (DATE CONN) sn) (\<lambda>dt.
     rbind (memcpy (data CONN) (bytes_at 5 200 temp) (size_t (len - 5))) (\<lambda>d.
       ok (CONN\<lparr>checkcode := cc, DATE := dt, data := d\<rparr>)))))))"

section \<open>Well-formed connections\<close>

text \<open>
  The arrays have their declared sizes and the last byte of every string is NUL, as after the
  \<open>memset\<close> of a new connection.
\<close>

definition str_field :: "nat \<Rightarrow> buf \<Rightarrow> bool" where
  "str_field n b = (length b = n \<and> 0 < n \<and> last b = NUL)"

definition cln_wf :: "CLN \<Rightarrow> bool" where
  "cln_wf a = (str_field 12 (USERID a) \<and> str_field 33 (USERPASSWORD a) \<and> str_field 18 (checkcode a)
     \<and> str_field 100 (DATE a) \<and> str_field 12 (TalktoID a) \<and> str_field 33 (REUSERPASSWORD a)
     \<and> str_field 513 (data a) \<and> str_field 100 (info a) \<and> str_field 7 (Pin a))"

lemma str_field_terminated: "str_field n b \<Longrightarrow> terminated b \<and> length (cstr b) < n"
proof -
  assume b: "str_field n b"
  then have "NUL \<in> set b" by (metis last_in_set length_0_conv str_field_def less_irrefl)
  then have "terminated b" by (simp add: terminated_def)
  with b show ?thesis by (simp add: terminated_iff str_field_def)
qed

lemma str_field_put:
  assumes "str_field n b" and "length s < n"
  shows "\<exists>b'. put b s = Inr b' \<and> str_field n b' \<and> take (length s) b' = s"
proof -
  have "put b s = Inr (s @ drop (length s) b)" using assms by (simp add: put_def str_field_def)
  moreover have "last (s @ drop (length s) b) = last b" using assms by (simp add: str_field_def)
  ultimately show ?thesis using assms by (simp add: str_field_def)
qed

lemma str_field_memcpy:
  assumes "str_field n b" and "k < n" and "k \<le> length src"
  shows "\<exists>b'. memcpy b src k = Inr b' \<and> str_field n b' \<and> take k b' = take k src"
proof -
  have "length (take k src) = k" using assms(3) by simp
  with str_field_put [OF assms(1), of "take k src"] assms(2,3) show ?thesis by (simp add: memcpy_def)
qed

lemma str_field_sprintf:
  assumes "str_field n b" and "length s < n"
  shows "\<exists>b'. sprintf b s = Inr b' \<and> str_field n b' \<and> (NUL \<notin> set s \<longrightarrow> cstr b' = s)"
proof -
  let ?b = "s @ NUL # drop (Suc (length s)) b"
  have "sprintf b s = Inr ?b" using assms by (simp add: sprintf_ok str_field_def)
  moreover have "last ?b = NUL"
    using assms by (cases "Suc (length s) < n") (auto simp: str_field_def last_drop)
  ultimately show ?thesis using assms by (auto simp: str_field_def)
qed

lemma bytes_at_length [simp]: "i + n \<le> length xs \<Longrightarrow> length (bytes_at i n xs) = n"
  by (simp add: bytes_at_def)


lemma wr_last:
  "length b = Suc n \<Longrightarrow> wr b (int n) NUL = Inr (b[n := NUL])"
  by (simp add: wr_def)

lemma packet_fields:
  assumes "packet_wf p"
  shows "wr (pk_checkcode p) 17 NUL = Inr ((pk_checkcode p)[17 := NUL])" "wr (pk_DATA p) 512 NUL = Inr ((pk_DATA p)[512 := NUL])"
    "wr (pk_USERPASSWORD p) 32 NUL = Inr ((pk_USERPASSWORD p)[32 := NUL])" "wr (pk_USERID p) 11 NUL = Inr ((pk_USERID p)[11 := NUL])"
    "wr (pk_REUSERPASSWORD p) 32 NUL = Inr ((pk_REUSERPASSWORD p)[32 := NUL])" "wr (pk_TalktoID p) 11 NUL = Inr ((pk_TalktoID p)[11 := NUL])"
    "wr (pk_save p) 99 NUL = Inr ((pk_save p)[99 := NUL])"
  using assms by (simp_all add: wr_def packet_wf_def)

section \<open>Properties\<close>

text \<open>
  C25: A received user packet is copied safely. For every packet, whatever bytes the network delivered,
  and every well-formed connection, \<open>CopyUserPacketInterface2Cln\<close> stays inside all arrays, keeps every
  string of the connection terminated, and transfers all but the last byte of each field.
\<close>

theorem CopyUserPacket_wf:
  assumes "packet_wf p" and "cln_wf a"
  shows "\<exists>a'. CopyUserPacketInterface2Cln p a = Inr a' \<and> cln_wf a'
    \<and> take 17 (checkcode a') = take 17 (pk_checkcode p) \<and> take 512 (data a') = take 512 (pk_DATA p)
    \<and> take 32 (USERPASSWORD a') = take 32 (pk_USERPASSWORD p) \<and> take 11 (USERID a') = take 11 (pk_USERID p)
    \<and> take 32 (REUSERPASSWORD a') = take 32 (pk_REUSERPASSWORD p) \<and> take 11 (TalktoID a') = take 11 (pk_TalktoID p)
    \<and> take 99 (DATE a') = take 99 (pk_save p) \<and> info a' = info a \<and> Pin a' = Pin a \<and> SOCKET a' = SOCKET a
    \<and> conn a' = conn a \<and> MemMark a' = MemMark a"
proof -
  note w = assms [unfolded packet_wf_def cln_wf_def]
  obtain cc where cc: "memcpy (checkcode a) ((pk_checkcode p)[17 := NUL]) 17 = Inr cc" "str_field 18 cc"
    "take 17 cc = take 17 (pk_checkcode p)"
    using str_field_memcpy [of 18 "checkcode a" 17 "(pk_checkcode p)[17 := NUL]"] w by auto
  obtain dt where dt: "memcpy (data a) ((pk_DATA p)[512 := NUL]) 512 = Inr dt" "str_field 513 dt"
    "take 512 dt = take 512 (pk_DATA p)"
    using str_field_memcpy [of 513 "data a" 512 "(pk_DATA p)[512 := NUL]"] w by auto
  obtain pw where pw: "memcpy (USERPASSWORD a) ((pk_USERPASSWORD p)[32 := NUL]) 32 = Inr pw" "str_field 33 pw"
    "take 32 pw = take 32 (pk_USERPASSWORD p)"
    using str_field_memcpy [of 33 "USERPASSWORD a" 32 "(pk_USERPASSWORD p)[32 := NUL]"] w by auto
  obtain ui where ui: "memcpy (USERID a) ((pk_USERID p)[11 := NUL]) 11 = Inr ui" "str_field 12 ui"
    "take 11 ui = take 11 (pk_USERID p)"
    using str_field_memcpy [of 12 "USERID a" 11 "(pk_USERID p)[11 := NUL]"] w by auto
  obtain rp where rp: "memcpy (REUSERPASSWORD a) ((pk_REUSERPASSWORD p)[32 := NUL]) 32 = Inr rp" "str_field 33 rp"
    "take 32 rp = take 32 (pk_REUSERPASSWORD p)"
    using str_field_memcpy [of 33 "REUSERPASSWORD a" 32 "(pk_REUSERPASSWORD p)[32 := NUL]"] w by auto
  obtain ti where ti: "memcpy (TalktoID a) ((pk_TalktoID p)[11 := NUL]) 11 = Inr ti" "str_field 12 ti"
    "take 11 ti = take 11 (pk_TalktoID p)"
    using str_field_memcpy [of 12 "TalktoID a" 11 "(pk_TalktoID p)[11 := NUL]"] w by auto
  obtain sv where sv: "memcpy (DATE a) ((pk_save p)[99 := NUL]) 99 = Inr sv" "str_field 100 sv"
    "take 99 sv = take 99 (pk_save p)"
    using str_field_memcpy [of 100 "DATE a" 99 "(pk_save p)[99 := NUL]"] w by auto
  show ?thesis
    using w by (simp add: CopyUserPacketInterface2Cln_def packet_fields [OF assms(1)] cc dt pw ui rp ti sv cln_wf_def)
qed

definition empty_cln :: CLN where
  "empty_cln = \<lparr>SOCKET = 0, ADDR = 0, USERID = replicate 12 NUL, USERKEY_ID = 0, USERPASSWORD = replicate 33 NUL,
     checkcode = replicate 18 NUL, DATE = replicate 100 NUL, TalktoID = replicate 12 NUL,
     REUSERPASSWORD = replicate 33 NUL, data = replicate 513 NUL, info = replicate 100 NUL, Pin = replicate 7 NUL,
     key = \<lparr>publicKey = 0, privateKey = 0, commonKey = 0, encryptBlockBytes = 0\<rparr>, conn = 0, MemMark = 0, SeqNum = 0\<rparr>"

definition full_packet :: UserPacketInterface where
  "full_packet = \<lparr>pk_checkcode = replicate 18 CHR ''x'', pk_USERID = replicate 12 CHR ''1'',
     pk_USERPASSWORD = replicate 33 CHR ''p'', pk_TalktoID = replicate 12 CHR ''2'',
     pk_REUSERPASSWORD = replicate 33 CHR ''r'', pk_DATA = replicate 513 CHR ''d'', pk_save = replicate 100 CHR ''s''\<rparr>"

lemma empty_cln_wf: "cln_wf empty_cln"
  by (simp add: cln_wf_def empty_cln_def str_field_def last_replicate)

theorem CopyUserPacket_wf_witness:
  "\<exists>a'. CopyUserPacketInterface2Cln full_packet empty_cln = Inr a' \<and> cln_wf a' \<and> take 11 (USERID a') = ''11111111111''"
proof -
  have "packet_wf full_packet" by (simp add: packet_wf_def full_packet_def)
  moreover have "take 11 (pk_USERID full_packet) = ''11111111111''" by (simp add: full_packet_def eval_nat_numeral)
  ultimately show ?thesis using CopyUserPacket_wf [of full_packet empty_cln] empty_cln_wf by auto
qed

lemma CopyRecIotData_ok:
  assumes "cln_wf a" and "5 \<le> len" and "len \<le> 205" and "nat len \<le> length rec"
  shows "\<exists>a'. CopyRecIotData2Cln rec a len = Inr a' \<and> cln_wf a'
    \<and> take (nat len - 5) (data a') = bytes_at 5 (nat len - 5) rec \<and> USERID a' = USERID a \<and> info a' = info a"
proof -
  define n where "n = nat len"
  have n: "5 \<le> n" "n \<le> 205" "n \<le> length rec" "size_t len = n" "size_t (len - 5) = n - 5"
    using assms(2-4) u64_id [of n] u64_id [of "n - 5"] by (auto simp: n_def size_t_def)
  have n5: "n - 5 < 513" "n - 5 \<le> 200" using n by linarith+
  let ?raw = "take n rec @ replicate (205 - n) NUL" let ?t = "?raw[2 := NUL, 4 := NUL]"
  have m: "memcpy (replicate sizeof_IotPacketInterface NUL) rec n = Inr ?raw"
    using n by (simp add: memcpy_def put_def sizeof_IotPacketInterface_def)
  have lt: "length ?t = 205" using n by simp
  have op: "terminated (bytes_at 0 3 ?t)" "terminated (bytes_at 3 2 ?t)"
    using n by (auto simp: terminated_def bytes_at_def in_set_conv_nth nth_list_update intro: exI [of _ 2] exI [of _ 1])
  have len: "length (cstr (bytes_at 0 3 ?t)) < 18" "length (cstr (bytes_at 3 2 ?t)) < 100"
    using length_cstr_le [of "bytes_at 0 3 ?t"] length_cstr_le [of "bytes_at 3 2 ?t"] lt by auto
  note w = assms(1) [unfolded cln_wf_def]
  obtain cc where cc: "sprintf (checkcode a) (cstr (bytes_at 0 3 ?t)) = Inr cc" "str_field 18 cc"
    using str_field_sprintf [of 18 "checkcode a" "cstr (bytes_at 0 3 ?t)"] w len by auto
  obtain dt where dt: "sprintf (DATE a) (cstr (bytes_at 3 2 ?t)) = Inr dt" "str_field 100 dt"
    using str_field_sprintf [of 100 "DATE a" "cstr (bytes_at 3 2 ?t)"] w len by auto
  obtain d where d: "memcpy (data a) (bytes_at 5 200 ?t) (n - 5) = Inr d" "str_field 513 d"
    "take (n - 5) d = take (n - 5) (bytes_at 5 200 ?t)"
    using str_field_memcpy [of 513 "data a" "n - 5" "bytes_at 5 200 ?t"] w n5 lt by auto
  have "take (n - 5) (bytes_at 5 200 ?t) = bytes_at 5 (n - 5) rec"
    using n by (simp add: bytes_at_def take_drop drop_update_cancel list_update_append min_def)
  with d(3) have "take (nat len - 5) d = bytes_at 5 (nat len - 5) rec" by (simp add: n_def)
  then show ?thesis
    using w n op by (simp add: CopyRecIotData2Cln_def m Let_def str_of_def cc dt d(1,2) cln_wf_def)
qed

text \<open>
  C26: A received device packet of 5 to 205 bytes is copied safely: \<open>CopyRecIotData2Cln\<close> stays inside all
  arrays, keeps the connection well-formed, and transfers the payload bytes.
\<close>

theorem CopyRecIotData_wf:
  assumes "cln_wf a" and "5 \<le> len" and "len \<le> 205" and "nat len \<le> length rec"
  shows "\<exists>a'. CopyRecIotData2Cln rec a len = Inr a' \<and> cln_wf a'
    \<and> take (nat len - 5) (data a') = bytes_at 5 (nat len - 5) rec \<and> USERID a' = USERID a \<and> info a' = info a"
  using assms by (rule CopyRecIotData_ok)

theorem CopyRecIotData_wf_witness:
  "\<exists>a'. CopyRecIotData2Cln ''10a1bhello'' empty_cln 10 = Inr a' \<and> cln_wf a' \<and> take 5 (data a') = ''hello''"
  using CopyRecIotData_wf [of empty_cln 10 "''10a1bhello''"] empty_cln_wf by (auto simp: bytes_at_def)

text \<open>Splitting the 721 bytes of a user packet into its fields and joining them again are inverse.\<close>

theorem user_packet_layout:
  "packet_wf p \<Longrightarrow> length (user_packet_bytes p) = sizeof_UserPacketInterface \<and> user_packet_of (user_packet_bytes p) = p"
  by (simp add: packet_wf_def user_packet_bytes_def user_packet_of_def sizeof_UserPacketInterface_def bytes_at_def)

theorem user_packet_layout_witness: "user_packet_of (user_packet_bytes full_packet) = full_packet"
  using user_packet_layout [of full_packet] by (simp add: packet_wf_def full_packet_def)

end
