(* ===== verification/UserList.thy ===== *)
theory UserList
  imports Packets
begin

text \<open>
  The four linked lists of users and devices (registered and online) and the functions on them:
  src/src/AddtoLcoal.c, NewOnlineUserOrIotDev.c, Delete_outlineUser.c, FindOnlineUserOrIot.c,
  FindUserOrIotNode.c and CheckID_PWD.c. The nodes live in an explicit store; a null or freed pointer
  that is followed is a fault. A loop that walks a cyclic list does not end: \<open>None\<close>.
\<close>

section \<open>The store\<close>

record user =
  USER_SOCKET :: nat
  USER_ADDR :: nat
  u_USERID :: buf
  u_USERKEY_ID :: int
  u_USERPASSWORD :: buf
  u_info :: buf
  CONNHANDLE :: nat
  u_next :: nat

type_synonym heap = "nat \<Rightarrow> user option"

record OnlineUserHead =
  OnlineUserNum :: int
  h_next :: nat

text \<open>The four list heads are allocated at start and never freed.\<close>

datatype lst = OnlineUser | RegistedUser | OnlineIot | RegistedIot

record store =
  heap :: heap
  head :: "lst \<Rightarrow> OnlineUserHead"

definition deref :: "heap \<Rightarrow> nat \<Rightarrow> user res" where
  "deref h p = (if p = 0 then fault NullDeref else case h p of None \<Rightarrow> fault UseAfterFree | Some u \<Rightarrow> ok u)"

definition free :: "nat \<Rightarrow> heap \<Rightarrow> heap res" where
  "free p h = (if p = 0 then ok h else if h p = None then fault UseAfterFree else ok (h(p := None)))"

section \<open>Adding a node\<close>

text \<open>Links \<open>p\<close>, filled with \<open>u\<close>, in front of list \<open>l\<close> and increments its counter.\<close>

definition push :: "lst \<Rightarrow> nat \<Rightarrow> user \<Rightarrow> store \<Rightarrow> store" where
  "push l p u st =
     st\<lparr>heap := (heap st)(p \<mapsto> u\<lparr>u_next := h_next (head st l)\<rparr>),
        head := (head st)(l := \<lparr>OnlineUserNum = i32 (OnlineUserNum (head st l) + 1), h_next = p\<rparr>)\<rparr>"

definition zero_user :: user where
  "zero_user = \<lparr>USER_SOCKET = 0, USER_ADDR = 0, u_USERID = replicate 12 NUL, u_USERKEY_ID = 0,
     u_USERPASSWORD = replicate 33 NUL, u_info = replicate 100 NUL, CONNHANDLE = 0, u_next = 0\<rparr>"

text \<open>
  \<open>mal k\<close> is the result of the call's \<open>k\<close>-th \<open>malloc\<close>. \<open>AddtoLocal\<close> clears the block before it tests the
  pointer, so that a failed allocation is a null dereference and the loop runs once.
\<close>

definition alloc_clear :: "(nat \<Rightarrow> nat) \<Rightarrow> nat \<Rightarrow> (nat \<times> nat) res" where
  "alloc_clear mal n = (if mal n = 0 then fault NullDeref else ok (mal n, n + 1))"

definition AddtoLocal :: "(nat \<Rightarrow> nat) \<Rightarrow> CLN \<Rightarrow> store \<Rightarrow> (int \<times> store) res" where
  "AddtoLocal mal a st =
     rbind (alloc_clear mal 0) (\<lambda>(p, n).
     if 99 < n then ok (-1, st)
     else rbind (strcpy (u_USERID zero_user) (USERID a)) (\<lambda>uid.
          rbind (strcpy (u_USERPASSWORD zero_user) (USERPASSWORD a)) (\<lambda>pw.
          rbind (strlen (USERID a)) (\<lambda>n.
          let u = zero_user\<lparr>u_USERID := uid, u_USERPASSWORD := pw, u_USERKEY_ID := USERKEY_ID a\<rparr> in
          if n < 11
          then rbind (str_of (checkcode a)) (\<lambda>cc.
               rbind (str_of (info a)) (\<lambda>inf.
               rbind (sprintf (u_info u) (cc @ ''_'' @ inf @ ''_'')) (\<lambda>i.
                 ok (1, push RegistedIot p (u\<lparr>u_info := i\<rparr>) st))))
          else rbind (strcpy (u_info u) (info a)) (\<lambda>i.
                 ok (1, push RegistedUser p (u\<lparr>u_info := i\<rparr>) st))))))"

function alloc_loop :: "(nat \<Rightarrow> nat) \<Rightarrow> nat \<Rightarrow> nat \<times> nat" where
  "alloc_loop mal n =
     (if mal n = 0 \<and> n + 1 < 100 then alloc_loop mal (n + 1) else (mal n, n + 1))"
  by pat_completeness auto
termination
  by (relation "measure (\<lambda>(mal, n). 100 - n)") auto

declare alloc_loop.simps [simp del]

text \<open>\<open>junk\<close> is what the allocated block holds: \<open>newOnlineUserOrIotDev\<close> does not clear it.\<close>

definition newOnlineUserOrIotDev :: "(nat \<Rightarrow> nat) \<Rightarrow> user \<Rightarrow> CLN \<Rightarrow> store \<Rightarrow> (int \<times> store) res" where
  "newOnlineUserOrIotDev mal junk a st =
     (case alloc_loop mal 0 of (p, n) \<Rightarrow>
       if 99 < n then ok (-1, st)
       else rbind (strcpy (u_USERID junk) (USERID a)) (\<lambda>uid.
            rbind (strcpy (u_USERPASSWORD junk) (USERPASSWORD a)) (\<lambda>pw.
            rbind (strlen (USERID a)) (\<lambda>len.
            rbind (strcpy (u_info junk) (info a)) (\<lambda>i.
              ok (1, push (if len < 11 then OnlineIot else OnlineUser) p
                       (junk\<lparr>u_USERID := uid, u_USERPASSWORD := pw, USER_ADDR := ADDR a,
                             USER_SOCKET := SOCKET a, u_USERKEY_ID := USERKEY_ID a,
                             CONNHANDLE := conn a, u_info := i\<rparr>) st))))))"

section \<open>Searching\<close>

text \<open>
  What a search compares a node with. \<open>strcmp_eq\<close> is what \<open>strcmp\<close> computes, since the strings of a node are
  terminated inside their arrays, which are as long as those of the packet (lemma \<open>matches_reads\<close>).
\<close>

datatype query = ById buf | ByKey int | ByIdPwd buf buf | BySocket buf nat

fun matches :: "query \<Rightarrow> user \<Rightarrow> bool" where
  "matches (ById i) u = strcmp_eq i (u_USERID u)"
| "matches (ByKey k) u = (k = u_USERKEY_ID u)"
| "matches (ByIdPwd i p) u = (strcmp_eq i (u_USERID u) \<and> strcmp_eq p (u_USERPASSWORD u))"
| "matches (BySocket i s) u = (strcmp_eq i (u_USERID u) \<and> s = USER_SOCKET u)"

partial_function (option) find_next :: "heap \<Rightarrow> query \<Rightarrow> nat \<Rightarrow> nat res option" where
  "find_next h q Tag =
     (case deref h Tag of Inl f \<Rightarrow> Some (Inl f)
      | Inr u \<Rightarrow>
          if u_next u \<noteq> 0
          then (case deref h (u_next u) of Inl f \<Rightarrow> Some (Inl f)
                | Inr v \<Rightarrow> if matches q v then Some (ok (u_next u)) else find_next h q (u_next u))
          else Some (ok 0))"

definition find_in :: "store \<Rightarrow> lst \<Rightarrow> query \<Rightarrow> nat res option" where
  "find_in st l q =
     (let Tag = h_next (head st l) in
      if Tag = 0 then Some (ok 0)
      else (case deref (heap st) Tag of Inl f \<Rightarrow> Some (Inl f)
            | Inr u \<Rightarrow> if matches q u then Some (ok Tag) else find_next (heap st) q Tag))"

definition query_of :: "buf option \<Rightarrow> int \<Rightarrow> query" where
  "query_of uid k = (case uid of Some s \<Rightarrow> ById s | None \<Rightarrow> ByKey k)"

text \<open>For any other \<open>n\<close> the lists are printed and the result is the null pointer.\<close>

definition FindOnlineUserOrIot :: "store \<Rightarrow> int \<Rightarrow> buf option \<Rightarrow> int \<Rightarrow> nat res option" where
  "FindOnlineUserOrIot st n uid k =
     (if n = 10 then find_in st OnlineIot (query_of uid k)
      else if n = 0 then find_in st OnlineUser (query_of uid k)
      else Some (ok 0))"

definition FindRegisterUserOrIotNode :: "store \<Rightarrow> int \<Rightarrow> buf option \<Rightarrow> int \<Rightarrow> nat res option" where
  "FindRegisterUserOrIotNode st n uid k =
     (if n = 10 then find_in st RegistedIot (query_of uid k)
      else if n = 0 then find_in st RegistedUser (query_of uid k)
      else Some (ok 0))"

section \<open>Checking id and password\<close>

text \<open>The loop of the registration check compares \<open>Tag\<close> itself, and ends when \<open>Tag\<close> is the last node.\<close>

partial_function (option) check_reg_loop :: "heap \<Rightarrow> query \<Rightarrow> nat \<Rightarrow> int res option" where
  "check_reg_loop h q Tag =
     (case deref h Tag of Inl f \<Rightarrow> Some (Inl f)
      | Inr u \<Rightarrow>
          if u_next u \<noteq> 0
          then if matches q u then Some (ok 1) else check_reg_loop h q (u_next u)
          else Some (ok (-1)))"

definition check_reg :: "store \<Rightarrow> lst \<Rightarrow> query \<Rightarrow> int res option" where
  "check_reg st l q =
     (let Tag = h_next (head st l) in
      if Tag = 0 then Some (ok (-1))
      else (case deref (heap st) Tag of Inl f \<Rightarrow> Some (Inl f)
            | Inr u \<Rightarrow> if matches q u then Some (ok 1) else check_reg_loop (heap st) q Tag))"

definition Check_Id_Pwd :: "store \<Rightarrow> int \<Rightarrow> CLN \<Rightarrow> int res option" where
  "Check_Id_Pwd st n a =
     (case strlen (USERID a) of Inl f \<Rightarrow> Some (Inl f)
      | Inr len \<Rightarrow>
         (let l = (if \<not> len < 11 then RegistedUser else RegistedIot) in
          if n = 0
          then map_option (\<lambda>r. rbind r (\<lambda>p. ok (if p \<noteq> 0 then 1 else -1)))
                 (find_in st l (ByIdPwd (USERID a) (USERPASSWORD a)))
          else check_reg st l (ById (USERID a))))"

section \<open>Removing a node\<close>

definition decrement :: "lst \<Rightarrow> store \<Rightarrow> store" where
  "decrement l st = st\<lparr>head := (head st)(l := (head st l)\<lparr>OnlineUserNum := i32 (OnlineUserNum (head st l) - 1)\<rparr>)\<rparr>"

text \<open>
  Behind the first node: the source unlinks the matching node and then frees \<open>Tag->next\<close>, which by
  then is the successor of the unlinked node.
\<close>

partial_function (option) del_loop :: "lst \<Rightarrow> query \<Rightarrow> store \<Rightarrow> nat \<Rightarrow> (int \<times> store) res option" where
  "del_loop l q st Tag =
     (case deref (heap st) Tag of Inl f \<Rightarrow> Some (Inl f)
      | Inr u \<Rightarrow>
          if u_next u \<noteq> 0
          then (case deref (heap st) (u_next u) of Inl f \<Rightarrow> Some (Inl f)
                | Inr v \<Rightarrow>
                    if matches q v
                    then Some (rbind (free (u_next v) ((heap st)(Tag \<mapsto> u\<lparr>u_next := u_next v\<rparr>))) (\<lambda>h.
                           ok (1, decrement l (st\<lparr>heap := h\<rparr>))))
                    else del_loop l q st (u_next u))
          else Some (ok (0, st)))"

definition delete_out_user :: "CLN \<Rightarrow> store \<Rightarrow> (int \<times> store) res option" where
  "delete_out_user a st =
     (case strlen (USERID a) of Inl f \<Rightarrow> Some (Inl f)
      | Inr len \<Rightarrow>
          if len < 6 then Some (ok (0, st))
          else (let l = (if 11 \<le> len then OnlineUser else OnlineIot);
                    q = BySocket (USERID a) (SOCKET a); Tag = h_next (head st l) in
            if Tag = 0 then Some (ok (0, st))
            else (case deref (heap st) Tag of Inl f \<Rightarrow> Some (Inl f)
              | Inr u \<Rightarrow>
                  if matches q u
                  then Some (rbind (free Tag (heap st)) (\<lambda>h.
                         ok (1, decrement l (st\<lparr>heap := h,
                                  head := (head st)(l := (head st l)\<lparr>h_next := u_next u\<rparr>)\<rparr>))))
                  else del_loop l q st Tag)))"


section \<open>The strings of the nodes\<close>

definition node_strings :: "user \<Rightarrow> bool" where
  "node_strings u = (length (u_USERID u) = 12 \<and> terminated (u_USERID u)
     \<and> length (u_USERPASSWORD u) = 33 \<and> terminated (u_USERPASSWORD u))"

lemma strcpy_terminated: "strcpy dst src = Inr b \<Longrightarrow> length b = length dst \<and> terminated b"
  by (auto simp: strcpy_def str_of_def put_def rbind_eq_Inr terminated_def split: if_splits)

text \<open>No comparison of a search leaves an array, whether or not the string of the packet is terminated.\<close>

lemma matches_reads:
  assumes "node_strings u" and "length i = 12" and "length p = 33"
  shows "strcmp_bytes i (u_USERID u) = Inr (matches (ById i) u)"
    and "strcmp_bytes p (u_USERPASSWORD u) = Inr (strcmp_eq p (u_USERPASSWORD u))"
  using assms strcmp_reads [of "u_USERID u" i] strcmp_reads [of "u_USERPASSWORD u" p]
  by (auto simp: node_strings_def terminated_iff strcmp_eq_def)

text \<open>The nodes that the two constructors make are of this kind.\<close>

lemma AddtoLocal_strings:
  assumes "AddtoLocal mal a st = Inr (r, st')" and "heap st' p = Some u"
  shows "node_strings u \<or> heap st p = Some u"
  using assms by (auto simp: AddtoLocal_def alloc_clear_def rbind_eq_Inr push_def Let_def node_strings_def zero_user_def
      dest!: strcpy_terminated split: if_splits)

lemma newOnline_strings:
  assumes "newOnlineUserOrIotDev mal junk a st = Inr (r, st')" and "heap st' p = Some u"
    and "length (u_USERID junk) = 12" and "length (u_USERPASSWORD junk) = 33"
  shows "node_strings u \<or> heap st p = Some u"
  using assms by (auto simp: newOnlineUserOrIotDev_def rbind_eq_Inr push_def node_strings_def
      dest!: strcpy_terminated split: if_splits prod.splits)

section \<open>Well-formed lists\<close>

fun chain :: "heap \<Rightarrow> nat \<Rightarrow> nat list \<Rightarrow> bool" where
  "chain h p [] = (p = 0)"
| "chain h p (x # xs) = (p = x \<and> x \<noteq> 0 \<and> (case h x of None \<Rightarrow> False | Some u \<Rightarrow> chain h (u_next u) xs))"

text \<open>The store holds the four disjoint lists \<open>L\<close>, and every counter is the length of its list.\<close>

definition store_rel :: "store \<Rightarrow> (lst \<Rightarrow> nat list) \<Rightarrow> bool" where
  "store_rel st L = ((\<forall>l. chain (heap st) (h_next (head st l)) (L l)
       \<and> OnlineUserNum (head st l) = int (length (L l)) \<and> length (L l) < 2 ^ 31)
     \<and> (\<forall>l l'. l \<noteq> l' \<longrightarrow> set (L l) \<inter> set (L l') = {}))"

definition node :: "store \<Rightarrow> nat \<Rightarrow> user" where
  "node st p = the (heap st p)"

definition first_match :: "(nat \<Rightarrow> user) \<Rightarrow> query \<Rightarrow> nat list \<Rightarrow> nat" where
  "first_match nd q xs = (case List.find (\<lambda>x. matches q (nd x)) xs of None \<Rightarrow> 0 | Some x \<Rightarrow> x)"

lemma matches_next [simp]: "matches q (u\<lparr>u_next := n\<rparr>) = matches q u"
  by (cases q) simp_all

lemma node_eq: "node st = (\<lambda>x. the (heap st x))"
  by (simp add: fun_eq_iff node_def)

lemma first_match_Nil [simp]: "first_match nd q [] = 0"
  by (simp add: first_match_def)

lemma first_match_Cons [simp]:
  "first_match nd q (x # xs) = (if matches q (nd x) then x else first_match nd q xs)"
  by (simp add: first_match_def)

lemma first_match_cong: "(\<And>x. x \<in> set xs \<Longrightarrow> matches q (nd x) = matches q (nd' x)) \<Longrightarrow> first_match nd q xs = first_match nd' q xs"
  by (induction xs) auto

lemma first_match_in: "first_match nd q xs \<noteq> 0 \<Longrightarrow> first_match nd q xs \<in> set xs"
  by (induction xs) (auto split: if_splits)

lemma first_match_matches: "first_match nd q xs \<noteq> 0 \<Longrightarrow> matches q (nd (first_match nd q xs))"
  by (induction xs) auto

lemma first_match_zero: "0 \<notin> set xs \<Longrightarrow> (first_match nd q xs = 0) = (\<forall>x\<in>set xs. \<not> matches q (nd x))"
  by (induction xs) auto

lemma first_match_pos: "0 \<notin> set xs \<Longrightarrow> (0 < first_match nd q xs) = (\<exists>x\<in>set xs. matches q (nd x))"
  using first_match_zero [of xs nd q] by auto

lemma chain_not_zero: "chain h p xs \<Longrightarrow> 0 \<notin> set xs"
  by (induction xs arbitrary: p) (auto split: option.splits)

lemma chain_alloc: "chain h p xs \<Longrightarrow> x \<in> set xs \<Longrightarrow> \<exists>u. h x = Some u"
  by (induction xs arbitrary: p) (auto split: option.splits)

lemma chain_unique: "chain h p xs \<Longrightarrow> chain h p ys \<Longrightarrow> xs = ys"
proof (induction xs arbitrary: p ys)
  case Nil
  then show ?case by (cases ys) auto
next
  case (Cons x xs)
  then show ?case by (cases ys) (auto split: option.splits)
qed

lemma chain_suffix: "chain h p (xs @ y # ys) \<Longrightarrow> chain h y (y # ys)"
proof (induction xs arbitrary: p)
  case (Cons a xs)
  from Cons.prems obtain u :: user where "chain h (u_next u) (xs @ y # ys)" by (auto split: option.splits)
  then show ?case by (rule Cons.IH)
qed simp

lemma chain_distinct: "chain h p xs \<Longrightarrow> distinct xs"
proof (induction xs arbitrary: p)
  case (Cons x xs)
  have "x \<notin> set xs"
  proof
    assume "x \<in> set xs"
    then obtain as bs where xs: "xs = as @ x # bs" by (meson split_list)
    have "chain h x (x # xs)" using Cons.prems by simp
    moreover have "chain h x (x # bs)"
      using Cons.prems chain_suffix [of h p "x # as" x bs] xs by simp
    ultimately have "x # xs = x # bs" by (rule chain_unique)
    then show False using xs by simp
  qed
  with Cons show ?case by (auto split: option.splits)
qed simp

lemma chain_cong: "(\<And>x. x \<in> set xs \<Longrightarrow> h' x = h x) \<Longrightarrow> chain h' p xs = chain h p xs"
  by (induction xs arbitrary: p) (auto split: option.splits)

lemma chain_step:
  "chain h p (x # xs) \<Longrightarrow> deref h x = Inr (the (h x)) \<and> h x = Some (the (h x)) \<and> p = x \<and> x \<noteq> 0
    \<and> chain h (u_next (the (h x))) xs"
  by (auto simp: deref_def split: option.splits)

lemma chain_next: "chain h p (y # ys) \<Longrightarrow> p = y \<and> p \<noteq> 0"
  by simp

lemma find_next_ok: "chain h x (x # xs) \<Longrightarrow> find_next h q x = Some (Inr (first_match (\<lambda>x. the (h x)) q xs))"
proof (induction xs arbitrary: x)
  case Nil
  from chain_step [OF Nil] show ?case by (subst find_next.simps) simp
next
  case (Cons y ys)
  note x = chain_step [OF Cons.prems]
  then have c: "chain h (u_next (the (h x))) (y # ys)" by blast
  then have n: "u_next (the (h x)) = y" by simp
  have "chain h y (y # ys)" using c n by simp
  from Cons.IH [OF this] chain_step [OF this] x n show ?case
    by (subst find_next.simps) simp
qed

lemma find_in_ok: "store_rel st L \<Longrightarrow> find_in st l q = Some (Inr (first_match (node st) q (L l)))"
proof -
  assume "store_rel st L"
  then have c: "chain (heap st) (h_next (head st l)) (L l)" by (simp add: store_rel_def)
  show ?thesis
  proof (cases "L l")
    case Nil
    then show ?thesis using c by (simp add: find_in_def)
  next
    case (Cons x xs)
    note x = chain_step [OF c [unfolded Cons]]
    then have "chain (heap st) x (x # xs)" using c Cons by simp
    from find_next_ok [OF this] x Cons show ?thesis
      by (simp add: find_in_def node_eq)
  qed
qed

lemma push_rel:
  assumes "store_rel st L" and "p \<noteq> 0" and "heap st p = None" and "Suc (length (L l)) < 2 ^ 31"
  shows "store_rel (push l p u st) (L(l := p # L l))"
proof -
  have np: "p \<notin> set (L l')" for l'
    using assms(1,3) chain_alloc by (fastforce simp: store_rel_def)
  have "chain ((heap st)(p \<mapsto> v)) q (L l') = chain (heap st) q (L l')" for v q l'
    using np [of l'] by (intro chain_cong) auto
  then show ?thesis using assms np
    by (auto simp: store_rel_def push_def)
qed


section \<open>The registry interface\<close>

text \<open>
  What sign-in, registration and message delivery rely on: linking a node in front of one of several
  disjoint lists, and finding the first node that answers a query.
\<close>

locale registry =
  fixes rel :: "'s \<Rightarrow> ('l \<Rightarrow> nat list) \<Rightarrow> bool" and fresh :: "'s \<Rightarrow> nat \<Rightarrow> bool"
    and room :: "nat \<Rightarrow> bool" and nd :: "'s \<Rightarrow> nat \<Rightarrow> 'u" and link :: "'l \<Rightarrow> nat \<Rightarrow> 'u \<Rightarrow> 's \<Rightarrow> 's"
    and lookup :: "'s \<Rightarrow> 'l \<Rightarrow> 'q \<Rightarrow> nat res option" and answers :: "'q \<Rightarrow> 'u \<Rightarrow> bool"
  assumes link_rel: "rel s L \<Longrightarrow> fresh s p \<Longrightarrow> room (length (L l)) \<Longrightarrow> rel (link l p u s) (L(l := p # L l))"
    and link_new: "answers q (nd (link l p u s) p) = answers q u"
    and link_old: "rel s L \<Longrightarrow> fresh s p \<Longrightarrow> x \<in> set (L l') \<Longrightarrow> nd (link l p u s) x = nd s x"
    and lookup_first: "rel s L \<Longrightarrow> lookup s l q =
      Some (Inr (case List.find (\<lambda>x. answers q (nd s x)) (L l) of None \<Rightarrow> 0 | Some x \<Rightarrow> x))"
begin

lemma find_link:
  "rel s L \<Longrightarrow> fresh s p \<Longrightarrow> List.find (\<lambda>x. answers q (nd (link l p u s) x)) (L l') = List.find (\<lambda>x. answers q (nd s x)) (L l')"
  by (rule find_cong) (auto simp: link_old)

lemma lookup_link_same:
  assumes "rel s L" and "fresh s p" and "room (length (L l))" and "answers q u"
  shows "lookup (link l p u s) l q = Some (Inr p)"
  using lookup_first [OF link_rel [OF assms(1-3), of u], of l q] assms(4) by (simp add: link_new)

lemma lookup_link_other:
  assumes "rel s L" and "fresh s p" and "room (length (L l))" and "\<not> answers q u \<or> l' \<noteq> l"
  shows "lookup (link l p u s) l' q = lookup s l' q"
  using lookup_first [OF link_rel [OF assms(1-3), of u], of l' q] lookup_first [OF assms(1), of l' q]
    find_link [OF assms(1,2), of q l u l'] find_link [OF assms(1,2), of q l u l] assms(4)
  by (cases "l' = l") (simp_all add: link_new)

end

definition fresh_block :: "store \<Rightarrow> nat \<Rightarrow> bool" where
  "fresh_block st p = (p \<noteq> 0 \<and> heap st p = None)"

interpretation ul: registry store_rel fresh_block "\<lambda>n. Suc n < 2 ^ 31" node push find_in matches
proof
  show "store_rel (push l p u st) (L(l := p # L l))"
    if "store_rel st L" "fresh_block st p" "Suc (length (L l)) < 2 ^ 31" for st L p l u
    using that push_rel by (simp add: fresh_block_def)
  show "matches q (node (push l p u st) p) = matches q u" for q l p u st
    by (simp add: node_def push_def)
  show "node (push l p u st) x = node st x"
    if "store_rel st L" "fresh_block st p" "x \<in> set (L l')" for st L p l u x l'
  proof -
    have "x \<noteq> p" using that chain_alloc by (fastforce simp: store_rel_def fresh_block_def)
    then show ?thesis by (simp add: node_def push_def)
  qed
  show "find_in st l q = Some (Inr (case List.find (\<lambda>x. matches q (node st x)) (L l) of None \<Rightarrow> 0 | Some x \<Rightarrow> x))"
    if "store_rel st L" for st L l q
    using find_in_ok [OF that] by (simp add: first_match_def)
qed


section \<open>Adding, checking and removing on well-formed lists\<close>

definition reg_list :: "CLN \<Rightarrow> lst" where
  "reg_list a = (if length (cstr (USERID a)) < 11 then RegistedIot else RegistedUser)"

definition online_list :: "CLN \<Rightarrow> lst" where
  "online_list a = (if length (cstr (USERID a)) < 11 then OnlineIot else OnlineUser)"

lemma strcmp_eq_strcpy: "strcpy d s = Inr d' \<Longrightarrow> strcmp_eq s d'"
  by (simp add: strcmp_eq_def strcpy_cstr)

lemma strlen_USERID: "cln_wf a \<Longrightarrow> strlen (USERID a) = Inr (length (cstr (USERID a)))"
  using str_field_terminated [of 12 "USERID a"] by (simp add: cln_wf_def strlen_def)

lemma strcpy_field:
  "str_field n s \<Longrightarrow> length d = n \<Longrightarrow> \<exists>d'. strcpy d s = Inr d' \<and> length d' = n \<and> cstr d' = cstr s"
  using strcpy_ok [of s d] by (metis length_drop str_field_terminated strcpy_cstr)

lemma AddtoLocal_node:
  assumes "cln_wf a" and "mal 0 \<noteq> 0"
    and "length (cstr (USERID a)) < 11 \<Longrightarrow> length (cstr (checkcode a)) + length (cstr (info a)) + 2 < 100"
  shows "\<exists>u. AddtoLocal mal a st = Inr (1, push (reg_list a) (mal 0) u st) \<and> cstr (u_USERID u) = cstr (USERID a)
    \<and> cstr (u_USERPASSWORD u) = cstr (USERPASSWORD a) \<and> u_USERKEY_ID u = USERKEY_ID a"
proof -
  note w = assms(1) [unfolded cln_wf_def]
  obtain uid where uid: "strcpy (u_USERID zero_user) (USERID a) = Inr uid" "cstr uid = cstr (USERID a)"
    using strcpy_field [of 12 "USERID a" "u_USERID zero_user"] w by (auto simp: zero_user_def)
  obtain pw where pw: "strcpy (u_USERPASSWORD zero_user) (USERPASSWORD a) = Inr pw" "cstr pw = cstr (USERPASSWORD a)"
    using strcpy_field [of 33 "USERPASSWORD a" "u_USERPASSWORD zero_user"] w by (auto simp: zero_user_def)
  obtain i where i: "strcpy (u_info zero_user) (info a) = Inr i"
    using strcpy_field [of 100 "info a" "u_info zero_user"] w by (auto simp: zero_user_def)
  have t: "terminated (checkcode a)" "terminated (info a)"
    using w str_field_terminated by blast+
  show ?thesis
  proof (cases "length (cstr (USERID a)) < 11")
    case True
    let ?s = "cstr (checkcode a) @ ''_'' @ cstr (info a) @ ''_''"
    obtain j where "sprintf (u_info zero_user) ?s = Inr j"
      using assms(3) True sprintf_ok [of ?s "u_info zero_user"] by (simp add: zero_user_def)
    then show ?thesis
      using True uid pw t assms(2) strlen_USERID [OF assms(1)]
      by (intro exI [of _ "zero_user\<lparr>u_USERID := uid, u_USERPASSWORD := pw, u_USERKEY_ID := USERKEY_ID a, u_info := j\<rparr>"])
        (simp add: AddtoLocal_def alloc_clear_def reg_list_def str_of_def Let_def)
  next
    case False
    then show ?thesis
      using uid pw i assms(2) strlen_USERID [OF assms(1)]
      by (intro exI [of _ "zero_user\<lparr>u_USERID := uid, u_USERPASSWORD := pw, u_USERKEY_ID := USERKEY_ID a, u_info := i\<rparr>"])
        (simp add: AddtoLocal_def alloc_clear_def reg_list_def Let_def)
  qed
qed

lemma Check_Id_Pwd_signin:
  assumes "store_rel st L" and "cln_wf a"
  shows "Check_Id_Pwd st 0 a = Some (Inr (if \<exists>x\<in>set (L (reg_list a)). cstr (USERID a) = cstr (u_USERID (node st x))
      \<and> cstr (USERPASSWORD a) = cstr (u_USERPASSWORD (node st x)) then 1 else -1))"
proof -
  have "0 \<notin> set (L l)" for l using assms(1) chain_not_zero by (auto simp: store_rel_def)
  then have "(0 < first_match (node st) (ByIdPwd (USERID a) (USERPASSWORD a)) (L l))
    = (\<exists>x\<in>set (L l). matches (ByIdPwd (USERID a) (USERPASSWORD a)) (node st x))" for l
    by (rule first_match_pos)
  then show ?thesis
    using strlen_USERID [OF assms(2)]
    by (simp add: find_in_ok [OF assms(1)] Check_Id_Pwd_def Let_def reg_list_def strcmp_eq_def)
qed

lemma check_reg_loop_ok:
  "chain h x (x # xs) \<Longrightarrow> check_reg_loop h q x =
     Some (Inr (if \<exists>y\<in>set (butlast (x # xs)). matches q (the (h y)) then 1 else -1))"
proof (induction xs arbitrary: x)
  case Nil
  from chain_step [OF Nil] show ?case by (subst check_reg_loop.simps) simp
next
  case (Cons y ys)
  note x = chain_step [OF Cons.prems]
  then have c: "chain h y (y # ys)" and n: "u_next (the (h x)) = y" "y \<noteq> 0" by auto
  show ?case
    using Cons.IH [OF c] x n by (subst check_reg_loop.simps) auto
qed

lemma Check_Id_Pwd_register:
  assumes "store_rel st L" and "cln_wf a" and "n \<noteq> 0" and "L (reg_list a) = x # xs"
  shows "Check_Id_Pwd st n a = Some (Inr (if \<exists>y\<in>set (x # butlast xs). cstr (USERID a) = cstr (u_USERID (node st y))
    then 1 else -1))"
proof -
  have c: "chain (heap st) (h_next (head st (reg_list a))) (x # xs)"
    using assms(1,4) by (metis store_rel_def)
  note h = chain_step [OF c]
  then have "chain (heap st) x (x # xs)" using c by simp
  note l = check_reg_loop_ok [OF this, of "ById (USERID a)"]
  have "check_reg st (reg_list a) (ById (USERID a)) = Some (Inr (if \<exists>y\<in>set (x # butlast xs). matches (ById (USERID a)) (node st y) then 1 else -1))"
    using h l by (cases xs) (auto simp: check_reg_def node_eq)
  then show ?thesis using strlen_USERID [OF assms(2)] assms(3)
    by (auto simp: Check_Id_Pwd_def Let_def reg_list_def strcmp_eq_def)
qed


lemma alloc_loop_ok: "mal k \<noteq> 0 \<Longrightarrow> k < 99 \<Longrightarrow> n \<le> k \<Longrightarrow>
  \<exists>m. alloc_loop mal n = (mal m, Suc m) \<and> m \<le> k \<and> mal m \<noteq> 0"
proof (induction mal n rule: alloc_loop.induct)
  case (1 mal n)
  show ?case
  proof (cases "mal n = 0")
    case True
    then have "n < k" using "1.prems" by (cases "n = k") auto
    then show ?thesis using "1.IH" "1.prems" True by (subst alloc_loop.simps) simp
  next
    case False
    then show ?thesis using "1.prems" by (subst alloc_loop.simps) auto
  qed
qed

lemma newOnline_node:
  assumes "cln_wf a" and "mal k \<noteq> 0" and "k < 99"
    and "length (u_USERID junk) = 12" and "length (u_USERPASSWORD junk) = 33" and "length (u_info junk) = 100"
  shows "\<exists>u m. newOnlineUserOrIotDev mal junk a st = Inr (1, push (online_list a) (mal m) u st) \<and> m \<le> k \<and> mal m \<noteq> 0
    \<and> cstr (u_USERID u) = cstr (USERID a) \<and> u_USERKEY_ID u = USERKEY_ID a \<and> USER_SOCKET u = SOCKET a
    \<and> CONNHANDLE u = conn a"
proof -
  note w = assms(1) [unfolded cln_wf_def]
  obtain uid where uid: "strcpy (u_USERID junk) (USERID a) = Inr uid" "cstr uid = cstr (USERID a)"
    using strcpy_field [of 12 "USERID a" "u_USERID junk"] w assms(4) by auto
  obtain pw where pw: "strcpy (u_USERPASSWORD junk) (USERPASSWORD a) = Inr pw"
    using strcpy_field [of 33 "USERPASSWORD a" "u_USERPASSWORD junk"] w assms(5) by auto
  obtain i where i: "strcpy (u_info junk) (info a) = Inr i"
    using strcpy_field [of 100 "info a" "u_info junk"] w assms(6) by auto
  obtain m where m: "alloc_loop mal 0 = (mal m, Suc m)" "m \<le> k" "mal m \<noteq> 0"
    using alloc_loop_ok [of mal k 0] assms(2,3) by auto
  let ?u = "junk\<lparr>u_USERID := uid, u_USERPASSWORD := pw, USER_ADDR := ADDR a, USER_SOCKET := SOCKET a,
    u_USERKEY_ID := USERKEY_ID a, CONNHANDLE := conn a, u_info := i\<rparr>"
  have "newOnlineUserOrIotDev mal junk a st = Inr (1, push (online_list a) (mal m) ?u st)"
    using uid pw i m assms(3) strlen_USERID [OF assms(1)]
    by (simp add: newOnlineUserOrIotDev_def online_list_def)
  then show ?thesis using m uid(2) by (intro exI [of _ ?u] exI [of _ m]) simp
qed

lemma del_loop_none:
  "chain (heap st) x (x # xs) \<Longrightarrow> \<forall>y\<in>set xs. \<not> matches q (node st y) \<Longrightarrow> del_loop l q st x = Some (Inr (0, st))"
proof (induction xs arbitrary: x)
  case Nil
  from chain_step [OF Nil(1)] show ?case by (subst del_loop.simps) simp
next
  case (Cons y ys)
  note x = chain_step [OF Cons.prems(1)]
  then have c: "chain (heap st) y (y # ys)" and n: "u_next (the (heap st x)) = y" "y \<noteq> 0" by auto
  show ?case
    using Cons.IH [OF c] x n chain_step [OF c] Cons.prems(2) by (subst del_loop.simps) (auto simp: node_eq)
qed

lemma del_loop_hit:
  assumes "chain (heap st) x (x # as @ m # rest)" and "\<forall>y\<in>set as. \<not> matches q (node st y)" and "matches q (node st m)"
  shows "del_loop l q st x =
    (let t = last (x # as); n = u_next (node st m) in
     Some (rbind (free n ((heap st)(t \<mapsto> (node st t)\<lparr>u_next := n\<rparr>))) (\<lambda>h. Inr (1, decrement l (st\<lparr>heap := h\<rparr>)))))"
  using assms
proof (induction as arbitrary: x)
  case Nil
  note x = chain_step [OF Nil.prems(1)[simplified append_Nil]]
  then have c: "chain (heap st) m (m # rest)" and n: "u_next (the (heap st x)) = m" "m \<noteq> 0" by auto
  show ?case
    using x n chain_step [OF c] Nil.prems(3) by (subst del_loop.simps) (simp add: node_eq Let_def)
next
  case (Cons y ys)
  note x = chain_step [OF Cons.prems(1)[simplified append_Cons]]
  then have c: "chain (heap st) y (y # ys @ m # rest)" and n: "u_next (the (heap st x)) = y" "y \<noteq> 0" by auto
  have "del_loop l q st x = del_loop l q st y"
    using x n chain_step [OF c] Cons.prems(2) by (subst del_loop.simps) (simp add: node_eq)
  moreover have "last (x # y # ys) = last (y # ys)" by simp
  ultimately show ?case using Cons.IH [OF c] Cons.prems(2,3) by (simp only: list.set_intros ball_simps) simp
qed


lemma chain_last_update:
  assumes "chain h x (x # as @ m # rest)"
  shows "chain (h(last (x # as) \<mapsto> (the (h (last (x # as))))\<lparr>u_next := u_next (the (h m))\<rparr>)) x (x # as @ rest)"
  using assms
proof (induction as arbitrary: x)
  case Nil
  then have c: "chain h m (m # rest)" and x: "x \<noteq> 0" by (auto split: option.splits)
  have "x \<notin> set rest" using chain_distinct [OF Nil] by simp
  moreover define h' where "h' = h(x \<mapsto> (the (h x))\<lparr>u_next := u_next (the (h m))\<rparr>)"
  ultimately have "chain h' n rest = chain h n rest" for n by (intro chain_cong) auto
  moreover have "h' x = Some ((the (h x))\<lparr>u_next := u_next (the (h m))\<rparr>)" by (simp add: h'_def)
  ultimately have "chain h' x (x # rest)" using chain_step [OF c] x by simp
  then show ?case by (simp only: h'_def last.simps simp_thms if_True append_Nil)
next
  case (Cons y ys)
  define t where "t = last (y # ys)"
  define h' where "h' = h(t \<mapsto> (the (h t))\<lparr>u_next := u_next (the (h m))\<rparr>)"
  note x = chain_step [OF Cons.prems [simplified append_Cons]]
  then have c0: "chain h y (y # ys @ m # rest)" and n: "u_next (the (h x)) = y" by auto
  have c: "chain h' y (y # ys @ rest)" using Cons.IH [OF c0] by (simp only: h'_def t_def)
  have "x \<notin> set (y # ys)" using chain_distinct [OF Cons.prems] by auto
  moreover have "t \<in> set (y # ys)" unfolding t_def by (rule last_in_set) simp
  ultimately have "x \<noteq> t" by blast
  moreover obtain v where v: "h x = Some v" using x by blast
  ultimately have "h' x = Some v" by (simp add: h'_def)
  then have "chain h' x (x # (y # ys) @ rest)" using c x n v by simp
  moreover have "last (x # y # ys) = t" by (simp add: t_def)
  ultimately show ?case by (simp only: h'_def)
qed

lemma decrement_fields [simp]:
  "heap (decrement l st) = heap st" "h_next (head (decrement l st) l') = h_next (head st l')"
  "OnlineUserNum (head (decrement l st) l') = (if l' = l then i32 (OnlineUserNum (head st l) - 1) else OnlineUserNum (head st l'))"
  by (simp_all add: decrement_def)

lemma delete_unfold:
  assumes "store_rel st L" and "cln_wf a" and "6 \<le> length (cstr (USERID a))" and "L (online_list a) = x # xs"
  shows "delete_out_user a st =
    (let l = online_list a; q = BySocket (USERID a) (SOCKET a); u = node st x in
     if matches q u
     then Some (rbind (free x (heap st)) (\<lambda>h. Inr (1, decrement l (st\<lparr>heap := h, head := (head st)(l := (head st l)\<lparr>h_next := u_next u\<rparr>)\<rparr>))))
     else del_loop l q st x)"
proof -
  have "chain (heap st) (h_next (head st (online_list a))) (x # xs)" using assms(1,4) by (metis store_rel_def)
  note c = chain_step [OF this]
  have o: "online_list a = (if 11 \<le> length (cstr (USERID a)) then OnlineUser else OnlineIot)"
    by (simp add: online_list_def)
  show ?thesis using c assms(3) strlen_USERID [OF assms(2)]
    by (simp add: delete_out_user_def Let_def node_def flip: o)
qed


text \<open>A list segment that ends at \<open>n\<close>; a search that reaches a freed \<open>n\<close> is a fault.\<close>

fun seg :: "heap \<Rightarrow> nat \<Rightarrow> nat list \<Rightarrow> nat \<Rightarrow> bool" where
  "seg h p [] n = (p = n)"
| "seg h p (x # xs) n = (p = x \<and> x \<noteq> 0 \<and> (case h x of None \<Rightarrow> False | Some u \<Rightarrow> seg h (u_next u) xs n))"

lemma chain_seg: "chain h p (xs @ n # rest) \<Longrightarrow> seg h p xs n"
  by (induction xs arbitrary: p) (auto split: option.splits)

lemma seg_cong: "(\<And>x. x \<in> set xs \<Longrightarrow> h' x = h x) \<Longrightarrow> seg h' p xs n = seg h p xs n"
  by (induction xs arbitrary: p) (auto split: option.splits)

lemma seg_step:
  "seg h p (x # xs) n \<Longrightarrow> deref h x = Inr (the (h x)) \<and> p = x \<and> x \<noteq> 0 \<and> seg h (u_next (the (h x))) xs n"
  by (auto simp: deref_def split: option.splits)

lemma find_next_freed:
  "seg h x (x # xs) n \<Longrightarrow> n \<noteq> 0 \<Longrightarrow> h n = None \<Longrightarrow> \<forall>y\<in>set (x # xs). \<not> matches q (the (h y)) \<Longrightarrow>
    find_next h q x = Some (Inl UseAfterFree)"
proof (induction xs arbitrary: x)
  case Nil
  have "deref h n = Inl UseAfterFree" using Nil(2,3) by (simp add: deref_def)
  with seg_step [OF Nil(1)] Nil(2) show ?case by (subst find_next.simps) simp
next
  case (Cons y ys)
  note x = seg_step [OF Cons.prems(1)]
  then have c: "seg h y (y # ys) n" and n: "u_next (the (h x)) = y" "y \<noteq> 0" by auto
  have "find_next h q x = find_next h q y"
    using x n seg_step [OF c] Cons.prems(4) by (subst find_next.simps) simp
  with Cons.IH [OF c] Cons.prems show ?case by simp
qed

section \<open>Properties\<close>

lemma AddtoLocal_ok:
  assumes "store_rel st L" and "cln_wf a" and "fresh_block st (mal 0)" and "Suc (length (L (reg_list a))) < 2 ^ 31"
    and "length (cstr (USERID a)) < 11 \<Longrightarrow> length (cstr (checkcode a)) + length (cstr (info a)) + 2 < 100"
  shows "\<exists>st'. AddtoLocal mal a st = Inr (1, st') \<and> store_rel st' (L(reg_list a := mal 0 # L (reg_list a)))
    \<and> FindRegisterUserOrIotNode st' (if reg_list a = RegistedIot then 10 else 0) (Some (USERID a)) k = Some (Inr (mal 0))
    \<and> Check_Id_Pwd st' 0 a = Some (Inr 1)"
proof -
  obtain u where u: "AddtoLocal mal a st = Inr (1, push (reg_list a) (mal 0) u st)" "cstr (u_USERID u) = cstr (USERID a)"
    "cstr (u_USERPASSWORD u) = cstr (USERPASSWORD a)"
    using AddtoLocal_node [OF assms(2)] assms(3,5) by (auto simp: fresh_block_def)
  let ?st = "push (reg_list a) (mal 0) u st"
  have r: "store_rel ?st (L(reg_list a := mal 0 # L (reg_list a)))" by (rule ul.link_rel [OF assms(1,3,4)])
  have f: "find_in ?st (reg_list a) (ById (USERID a)) = Some (Inr (mal 0))"
    by (rule ul.lookup_link_same [OF assms(1,3,4)]) (simp add: u strcmp_eq_def)
  have "Check_Id_Pwd ?st 0 a = Some (Inr 1)"
    using Check_Id_Pwd_signin [OF r assms(2)] u by (simp add: push_def node_def)
  then show ?thesis using u(1) r f
    by (auto simp: FindRegisterUserOrIotNode_def query_of_def reg_list_def split: if_splits)
qed

text \<open>
  C17: Registration is visible. When \<open>AddtoLocal\<close> gets a block of memory, it returns 1 with the new node in
  front of the registered users (id of 11 characters) or devices, all four lists stay well-formed with
  exact counters, the id is found by \<open>FindRegisterUserOrIotNode\<close>, and the sign-in check accepts the id
  with its password.
\<close>

theorem AddtoLocal_registers:
  assumes "store_rel st L" and "cln_wf a" and "fresh_block st (mal 0)" and "Suc (length (L (reg_list a))) < 2 ^ 31"
    and "length (cstr (USERID a)) < 11 \<Longrightarrow> length (cstr (checkcode a)) + length (cstr (info a)) + 2 < 100"
  shows "\<exists>st'. AddtoLocal mal a st = Inr (1, st') \<and> store_rel st' (L(reg_list a := mal 0 # L (reg_list a)))
    \<and> FindRegisterUserOrIotNode st' (if reg_list a = RegistedIot then 10 else 0) (Some (USERID a)) k = Some (Inr (mal 0))
    \<and> Check_Id_Pwd st' 0 a = Some (Inr 1)"
  using assms by (rule AddtoLocal_ok)

definition store0 :: store where
  "store0 = \<lparr>heap = (\<lambda>_. None), head = (\<lambda>_. \<lparr>OnlineUserNum = 0, h_next = 0\<rparr>)\<rparr>"

definition cln1 :: CLN where
  "cln1 = empty_cln\<lparr>USERID := ''13800000001'' @ [NUL], USERPASSWORD := ''pw'' @ replicate 31 NUL, SOCKET := 5\<rparr>"

lemma store0_rel: "store_rel store0 (\<lambda>_. [])"
  by (simp add: store_rel_def store0_def)

lemma cln1_wf: "cln_wf cln1"
  by (simp add: cln1_def cln_wf_def empty_cln_def str_field_def last_replicate)

lemma cstr_cln1: "cstr (USERID cln1) = ''13800000001''"
  by (simp add: cln1_def cstr_def)

theorem AddtoLocal_registers_witness:
  "\<exists>st'. AddtoLocal (\<lambda>_. 7) cln1 store0 = Inr (1, st') \<and> Check_Id_Pwd st' 0 cln1 = Some (Inr 1)
    \<and> FindRegisterUserOrIotNode st' 0 (Some (USERID cln1)) 0 = Some (Inr 7)"
  using AddtoLocal_registers [OF store0_rel cln1_wf, of "\<lambda>_. 7" 0]
  by (auto simp: fresh_block_def store0_def reg_list_def cstr_cln1)

lemma newOnline_ok:
  assumes "store_rel st L" and "cln_wf a" and "\<And>i. mal i = 0 \<or> fresh_block st (mal i)" and "mal k \<noteq> 0" and "k < 99"
    and "Suc (length (L (online_list a))) < 2 ^ 31"
    and "length (u_USERID junk) = 12" and "length (u_USERPASSWORD junk) = 33" and "length (u_info junk) = 100"
  shows "\<exists>st' p. newOnlineUserOrIotDev mal junk a st = Inr (1, st') \<and> store_rel st' (L(online_list a := p # L (online_list a)))
    \<and> FindOnlineUserOrIot st' (if online_list a = OnlineIot then 10 else 0) (Some (USERID a)) i = Some (Inr p)
    \<and> USER_SOCKET (node st' p) = SOCKET a \<and> u_USERKEY_ID (node st' p) = USERKEY_ID a \<and> CONNHANDLE (node st' p) = conn a
    \<and> (\<forall>l q. l \<noteq> online_list a \<longrightarrow> find_in st' l q = find_in st l q)"
proof -
  obtain u m where u: "newOnlineUserOrIotDev mal junk a st = Inr (1, push (online_list a) (mal m) u st)" "mal m \<noteq> 0"
    "cstr (u_USERID u) = cstr (USERID a)" "u_USERKEY_ID u = USERKEY_ID a" "USER_SOCKET u = SOCKET a" "CONNHANDLE u = conn a"
    using newOnline_node [where mal = mal and k = k and st = st, OF assms(2,4,5,7-9)] by blast
  have fr: "fresh_block st (mal m)" using assms(3) [of m] u(2) by simp
  let ?st = "push (online_list a) (mal m) u st"
  note r = ul.link_rel [OF assms(1) fr assms(6), of u]
  have f: "find_in ?st (online_list a) (ById (USERID a)) = Some (Inr (mal m))"
    by (rule ul.lookup_link_same [OF assms(1) fr assms(6)]) (simp add: u strcmp_eq_def)
  have o: "\<forall>l q. l \<noteq> online_list a \<longrightarrow> find_in ?st l q = find_in st l q"
    using ul.lookup_link_other [OF assms(1) fr assms(6)] by blast
  have n: "node ?st (mal m) = u\<lparr>u_next := h_next (head st (online_list a))\<rparr>" by (simp add: node_def push_def)
  have g: "FindOnlineUserOrIot ?st (if online_list a = OnlineIot then 10 else 0) (Some (USERID a)) i = Some (Inr (mal m))"
    using f by (auto simp: FindOnlineUserOrIot_def query_of_def online_list_def split: if_splits)
  show ?thesis using u(1,4-6) r o g n by (intro exI [of _ ?st] exI [of _ "mal m"]) simp
qed

text \<open>
  C20: Going online is visible. When one of the first 99 allocations succeeds, \<open>newOnlineUserOrIotDev\<close>
  returns 1, keeps the lists well-formed, and \<open>FindOnlineUserOrIot\<close> finds the new node, while searches in
  the other lists are unchanged.
\<close>

theorem newOnline_visible:
  assumes "store_rel st L" and "cln_wf a" and "\<And>i. mal i = 0 \<or> fresh_block st (mal i)" and "mal k \<noteq> 0" and "k < 99"
    and "Suc (length (L (online_list a))) < 2 ^ 31"
    and "length (u_USERID junk) = 12" and "length (u_USERPASSWORD junk) = 33" and "length (u_info junk) = 100"
  shows "\<exists>st' p. newOnlineUserOrIotDev mal junk a st = Inr (1, st') \<and> store_rel st' (L(online_list a := p # L (online_list a)))
    \<and> FindOnlineUserOrIot st' (if online_list a = OnlineIot then 10 else 0) (Some (USERID a)) i = Some (Inr p)
    \<and> USER_SOCKET (node st' p) = SOCKET a \<and> u_USERKEY_ID (node st' p) = USERKEY_ID a \<and> CONNHANDLE (node st' p) = conn a
    \<and> (\<forall>l q. l \<noteq> online_list a \<longrightarrow> find_in st' l q = find_in st l q)"
  using assms by (rule newOnline_ok)

theorem newOnline_visible_witness:
  "\<exists>st' p. newOnlineUserOrIotDev (\<lambda>i. if i = 2 then 9 else 0) zero_user cln1 store0 = Inr (1, st')
    \<and> FindOnlineUserOrIot st' 0 (Some (USERID cln1)) 0 = Some (Inr p) \<and> USER_SOCKET (node st' p) = 5"
proof -
  have "online_list cln1 = OnlineUser" "SOCKET cln1 = 5" by (simp_all add: online_list_def cstr_cln1) (simp add: cln1_def)
  then show ?thesis
    using newOnline_visible [OF store0_rel cln1_wf, of "\<lambda>i. if i = 2 then 9 else 0" 2 zero_user 0]
    by (auto simp: fresh_block_def store0_def zero_user_def)
qed


text \<open>
  C19: The sign-in check accepts an id and a password exactly when a registered user (11-character id) or
  device (shorter id) has both, and returns -1 otherwise; the search always ends.
\<close>

theorem Check_Id_Pwd_exact:
  assumes "store_rel st L" and "cln_wf a"
  shows "Check_Id_Pwd st 0 a = Some (Inr (if \<exists>x\<in>set (L (reg_list a)). cstr (USERID a) = cstr (u_USERID (node st x))
      \<and> cstr (USERPASSWORD a) = cstr (u_USERPASSWORD (node st x)) then 1 else -1))"
  using assms by (rule Check_Id_Pwd_signin)

theorem Check_Id_Pwd_exact_witness: "Check_Id_Pwd store0 0 cln1 = Some (Inr (-1))"
  using Check_Id_Pwd_exact [OF store0_rel cln1_wf] by simp

text \<open>
  The registration check never compares the last of two or more registered entries: its loop stops
  when it reaches that node. An id that only the oldest entry has is reported as free.
\<close>

theorem Check_Id_Pwd_skips_last:
  assumes "store_rel st L" and "cln_wf a" and "L (reg_list a) = x # xs @ [y]"
    and "cstr (USERID a) = cstr (u_USERID (node st y))"
    and "\<forall>z\<in>set (x # xs). cstr (USERID a) \<noteq> cstr (u_USERID (node st z))"
  shows "Check_Id_Pwd st 1 a = Some (Inr (-1))"
  using Check_Id_Pwd_register [OF assms(1,2), of 1 x "xs @ [y]"] assms(3,5) by (auto simp: butlast_append)

definition store2 :: store where
  "store2 = push RegistedUser 8 (zero_user\<lparr>u_USERID := ''13900000002'' @ [NUL]\<rparr>)
     (push RegistedUser 7 (zero_user\<lparr>u_USERID := ''13800000001'' @ [NUL]\<rparr>) store0)"

lemma store2_rel: "store_rel store2 ((\<lambda>_. [])(RegistedUser := [8, 7]))"
proof -
  have "store_rel (push RegistedUser 7 u store0) ((\<lambda>_. [])(RegistedUser := [7]))" for u
    using ul.link_rel [OF store0_rel, of 7 RegistedUser] by (simp add: fresh_block_def store0_def)
  from ul.link_rel [OF this, where p = 8 and l = RegistedUser] show ?thesis
    by (simp add: fresh_block_def store0_def store2_def push_def)
qed

theorem Check_Id_Pwd_skips_last_witness: "Check_Id_Pwd store2 1 cln1 = Some (Inr (-1))"
proof -
  have n: "node store2 7 = zero_user\<lparr>u_USERID := ''13800000001'' @ [NUL], u_next := 0\<rparr>"
    "node store2 8 = zero_user\<lparr>u_USERID := ''13900000002'' @ [NUL], u_next := 7\<rparr>"
    by (simp_all add: store2_def node_def push_def store0_def)
  have "reg_list cln1 = RegistedUser" by (simp add: reg_list_def cstr_cln1)
  then show ?thesis
    using Check_Id_Pwd_skips_last [OF store2_rel cln1_wf, of 8 "[]" 7] n cstr_cln1 by (simp add: cstr_def)
qed

lemma delete_head_ok:
  assumes "store_rel st L" and "cln_wf a" and "6 \<le> length (cstr (USERID a))" and "L (online_list a) = x # xs"
    and "matches (BySocket (USERID a) (SOCKET a)) (node st x)"
  shows "\<exists>st'. delete_out_user a st = Some (Inr (1, st')) \<and> store_rel st' (L(online_list a := xs)) \<and> heap st' x = None"
proof -
  let ?l = "online_list a"
  let ?st = "decrement ?l (st\<lparr>heap := (heap st)(x := None), head := (head st)(?l := (head st ?l)\<lparr>h_next := u_next (node st x)\<rparr>)\<rparr>)"
  have "chain (heap st) (h_next (head st ?l)) (L ?l) \<and> OnlineUserNum (head st ?l) = int (length (L ?l)) \<and> length (L ?l) < 2 ^ 31"
    using assms(1) unfolding store_rel_def by blast
  then have c: "chain (heap st) (h_next (head st ?l)) (x # xs)" "OnlineUserNum (head st ?l) = int (Suc (length xs))"
    "Suc (length xs) < 2 ^ 31" unfolding assms(4) by simp_all
  note x = chain_step [OF c(1)]
  have nx: "x \<notin> set xs" using chain_distinct [OF c(1)] by simp
  have ny: "x \<notin> set (L l)" if "l \<noteq> ?l" for l
    using assms(1,4) that unfolding store_rel_def by (metis disjoint_iff list.set_intros(1))
  have cg: "chain ((heap st)(x := None)) p zs = chain (heap st) p zs" if "x \<notin> set zs" for p zs
    using that by (intro chain_cong) auto
  obtain v where "heap st x = Some v" using x by blast
  then have d: "delete_out_user a st = Some (Inr (1, ?st))"
    using delete_unfold [OF assms(1-4)] assms(5) x by (simp add: Let_def free_def)
  have "store_rel ?st (L(?l := xs))"
    unfolding store_rel_def
  proof (intro conjI allI impI)
    fix l
    show "chain (heap ?st) (h_next (head ?st l)) ((L(?l := xs)) l)"
      using x nx ny [of l] cg assms(1) by (simp add: node_def store_rel_def)
    show "OnlineUserNum (head ?st l) = int (length ((L(?l := xs)) l))"
      using c assms(1) by (simp add: store_rel_def)
    show "length ((L(?l := xs)) l) < 2 ^ 31" using c assms(1) by (simp add: store_rel_def)
    show "set ((L(?l := xs)) l) \<inter> set ((L(?l := xs)) l') = {}" if "l \<noteq> l'" for l'
      using assms(1,4) that unfolding store_rel_def by (auto, (metis disjoint_iff list.set_intros(2))+)
  qed
  then show ?thesis using d by auto
qed


text \<open>
  C21: \<open>delete_out_user\<close> is correct for the newest online entry: it unlinks and frees exactly that node,
  decrements the counter, and keeps all four lists well-formed.
\<close>

theorem delete_out_user_head:
  assumes "store_rel st L" and "cln_wf a" and "6 \<le> length (cstr (USERID a))" and "L (online_list a) = x # xs"
    and "matches (BySocket (USERID a) (SOCKET a)) (node st x)"
  shows "\<exists>st'. delete_out_user a st = Some (Inr (1, st')) \<and> store_rel st' (L(online_list a := xs)) \<and> heap st' x = None"
  using assms by (rule delete_head_ok)

definition store_on :: store where
  "store_on = push OnlineUser 7 (zero_user\<lparr>u_USERID := ''13800000001'' @ [NUL], USER_SOCKET := 5\<rparr>) store0"

lemma store_on_rel: "store_rel store_on ((\<lambda>_. [])(OnlineUser := [7]))"
  using ul.link_rel [OF store0_rel, of 7 OnlineUser] by (simp add: store_on_def fresh_block_def store0_def)

lemma node_store_on: "node store_on 7 = zero_user\<lparr>u_USERID := ''13800000001'' @ [NUL], USER_SOCKET := 5, u_next := 0\<rparr>"
  by (simp add: store_on_def node_def push_def store0_def)

theorem delete_out_user_head_witness:
  "\<exists>st'. delete_out_user cln1 store_on = Some (Inr (1, st')) \<and> heap st' 7 = None"
proof -
  have "online_list cln1 = OnlineUser" "SOCKET cln1 = 5" "USERID cln1 = ''13800000001'' @ [NUL]"
    by (simp_all add: online_list_def cstr_cln1) (simp_all add: cln1_def)
  then show ?thesis
    using delete_out_user_head [OF store_on_rel cln1_wf, of 7 "[]"] cstr_cln1
    by (auto simp: node_store_on strcmp_eq_def)
qed

text \<open>
  Behind the head \<open>delete_out_user\<close> frees the wrong node. If the entry to remove is neither the first
  nor the last, the function returns 1, but the freed block is the successor, which stays linked: the
  next search that passes it is a use after free.
\<close>

theorem delete_out_user_dangling:
  assumes "store_rel st L" and "cln_wf a" and "6 \<le> length (cstr (USERID a))"
    and "L (online_list a) = x # as @ m # n # rest"
    and "\<forall>y\<in>set (x # as). \<not> matches (BySocket (USERID a) (SOCKET a)) (node st y)"
    and "matches (BySocket (USERID a) (SOCKET a)) (node st m)"
    and "\<forall>y\<in>set (x # as). \<not> matches q (node st y)"
  shows "\<exists>st'. delete_out_user a st = Some (Inr (1, st')) \<and> heap st' n = None \<and> heap st' m \<noteq> None
    \<and> find_in st' (online_list a) q = Some (Inl UseAfterFree)"
proof -
  let ?l = "online_list a" and ?q = "BySocket (USERID a) (SOCKET a)"
  define t where "t = last (x # as)"
  define h' where "h' = (heap st)(t \<mapsto> (node st t)\<lparr>u_next := n\<rparr>, n := None)"
  let ?st = "decrement ?l (st\<lparr>heap := h'\<rparr>)"
  have c0: "chain (heap st) (h_next (head st ?l)) (x # as @ m # n # rest)"
    using assms(1,4) by (metis store_rel_def)
  then have c: "chain (heap st) x (x # as @ m # n # rest)" and x: "h_next (head st ?l) = x" by auto
  have dis: "distinct (x # as @ m # n # rest)" by (rule chain_distinct [OF c0])
  have "chain (heap st) m (m # n # rest)" using c by (intro chain_suffix [of _ x "x # as"]) (simp only: append_Cons)
  then have mn: "u_next (node st m) = n" "n \<noteq> 0" by (auto simp: node_def split: option.splits)
  have tin: "t \<in> set (x # as)" unfolding t_def by (rule last_in_set) simp
  then have tn: "t \<noteq> n" "t \<noteq> m" "n \<noteq> m" using dis by auto
  have "\<exists>v. heap st n = Some v" "\<exists>v. heap st m = Some v" by (rule chain_alloc [OF c0], simp)+
  then obtain vn vm where v: "heap st n = Some vn" "heap st m = Some vm" by blast
  have fr: "free n ((heap st)(t \<mapsto> (node st t)\<lparr>u_next := n\<rparr>)) = Inr h'"
    using v tn mn by (simp add: free_def h'_def)
  have d: "delete_out_user a st = Some (Inr (1, ?st))"
    using delete_unfold [OF assms(1-4)] assms(5,6) del_loop_hit [OF c, of ?q ?l] fr mn
    by (simp add: Let_def t_def [symmetric] del: last.simps matches.simps)
  have "chain ((heap st)(t \<mapsto> (node st t)\<lparr>u_next := n\<rparr>)) x (x # as @ n # rest)"
    using chain_last_update [OF c] mn(1) by (simp only: t_def node_def)
  then have "seg ((heap st)(t \<mapsto> (node st t)\<lparr>u_next := n\<rparr>)) x (x # as) n"
    by (intro chain_seg [of _ x "x # as" n rest]) (simp only: append_Cons)
  moreover have "seg h' x (x # as) n = seg ((heap st)(t \<mapsto> (node st t)\<lparr>u_next := n\<rparr>)) x (x # as) n"
    by (rule seg_cong) (use dis in \<open>auto simp: h'_def\<close>)
  ultimately have sg: "seg h' x (x # as) n" by simp
  have nm: "\<forall>y\<in>set (x # as). \<not> matches q (the (h' y))"
    using assms(7) dis by (auto simp: h'_def node_def)
  have hn: "h' n = None" by (simp add: h'_def)
  have "find_in ?st ?l q = Some (Inl UseAfterFree)"
    using find_next_freed [OF sg mn(2) hn nm] seg_step [OF sg] nm x by (simp add: find_in_def)
  then show ?thesis using d v tn by (auto simp: h'_def)
qed

text \<open>The three-entry list of the witness, in which the middle entry signs out.\<close>

definition store3 :: store where
  "store3 = push OnlineUser 9 (zero_user\<lparr>u_USERID := ''13900000003'' @ [NUL]\<rparr>)
     (push OnlineUser 8 (zero_user\<lparr>u_USERID := ''13800000001'' @ [NUL], USER_SOCKET := 5\<rparr>)
       (push OnlineUser 7 (zero_user\<lparr>u_USERID := ''13900000002'' @ [NUL]\<rparr>) store0))"

lemma store3_rel: "store_rel store3 ((\<lambda>_. [])(OnlineUser := [9, 8, 7]))"
proof -
  have 1: "store_rel (push OnlineUser 7 u store0) ((\<lambda>_. [])(OnlineUser := [7]))" for u
    using ul.link_rel [OF store0_rel, of 7 OnlineUser] by (simp add: fresh_block_def store0_def)
  have 2: "store_rel (push OnlineUser 8 v (push OnlineUser 7 u store0)) ((\<lambda>_. [])(OnlineUser := [8, 7]))" for u v
    using ul.link_rel [OF 1, where p = 8 and l = OnlineUser] by (simp add: fresh_block_def store0_def push_def)
  show ?thesis unfolding store3_def
    using ul.link_rel [OF 2, where p = 9 and l = OnlineUser] by (simp add: fresh_block_def store0_def push_def)
qed

theorem delete_out_user_dangling_witness:
  "\<exists>st'. delete_out_user cln1 store3 = Some (Inr (1, st'))
    \<and> find_in st' OnlineUser (ById (''13900000002'' @ [NUL])) = Some (Inl UseAfterFree)"
proof -
  have "node store3 9 = zero_user\<lparr>u_USERID := ''13900000003'' @ [NUL], u_next := 8\<rparr>"
    "node store3 8 = zero_user\<lparr>u_USERID := ''13800000001'' @ [NUL], USER_SOCKET := 5, u_next := 7\<rparr>"
    by (simp_all add: store3_def node_def push_def store0_def)
  moreover have "online_list cln1 = OnlineUser" "SOCKET cln1 = 5" by (simp_all add: online_list_def cstr_cln1) (simp add: cln1_def)
  ultimately show ?thesis
    using delete_out_user_dangling [OF store3_rel cln1_wf, of 9 "[]" 8 7 "[]" "ById (''13900000002'' @ [NUL])"] cstr_cln1
    by (auto simp: strcmp_eq_def cstr_def)
qed

end
