(* ===== verification/SqlPool.thy ===== *)
theory SqlPool
  imports Prelude
begin

text \<open>
  The MySQL connection pool: src/src/sqlpool.c, src/src/MySqlConnInit.c and src/src/MysqlConnCheck.c.
  The MySQL client library is a parameter: \<open>mysql_env\<close> gives the outcome of its \<open>t\<close>-th call, and every
  function passes the number of calls made so far. A mutex is its locked bit; \<open>pthread_mutex_init\<close>
  makes it unlocked. Logging is left out.
\<close>

section \<open>State\<close>

definition POOL_MAX_NUMBER :: nat where
  "POOL_MAX_NUMBER = 30"

datatype db_state = DB_DISCONN | DB_CONN

text \<open>\<open>mysql_sock\<close> records whether the pointer to the connection is set.\<close>

record SQL_NODE =
  mysql_sock :: bool
  lock :: bool
  used :: int
  index :: int
  sql_state :: db_state

record SQL_CONN_POOL =
  sp_shutdown :: bool
  sql_pool :: "SQL_NODE list"
  pool_number :: nat
  busy_number :: int

record mysql_env =
  mysql_init :: "nat \<Rightarrow> bool"
  mysql_real_connect :: "nat \<Rightarrow> bool"
  mysql_ping :: "nat \<Rightarrow> int"

section \<open>Connections\<close>

text \<open>The result is whether a connection was made, and the number of library calls so far.\<close>

definition MySqlInit :: "mysql_env \<Rightarrow> nat \<Rightarrow> bool \<times> nat" where
  "MySqlInit env t =
     (if \<not> mysql_init env t then (False, t + 1)
      else (mysql_real_connect env (t + 1), t + 2))"

text \<open>
  \<open>mysql_master_connect_ping\<close>: 1 connected, 2 repaired by another thread in the meantime, 0 lost. The
  mutex is unlocked on every path.
\<close>

definition mysql_master_connect_ping :: "mysql_env \<Rightarrow> nat \<Rightarrow> int \<times> nat" where
  "mysql_master_connect_ping env t =
     (if mysql_ping env t \<noteq> 0
      then if mysql_ping env (t + 1) \<noteq> 0
           then (case MySqlInit env (t + 2) of (c, t') \<Rightarrow> (if c then 1 else 0, t'))
           else (2, t + 2)
      else (1, t + 1))"

definition create_db_connect :: "mysql_env \<Rightarrow> bool \<Rightarrow> SQL_NODE \<Rightarrow> nat \<Rightarrow> int \<times> SQL_NODE \<times> nat" where
  "create_db_connect env shut node t =
     (if shut then (-1, node, t)
      else let node1 = node\<lparr>lock := False\<rparr> in
        case MySqlInit env t of (c, t') \<Rightarrow>
          if \<not> c then (0, node1\<lparr>mysql_sock := False, sql_state := DB_DISCONN\<rparr>, t')
          else (1, node1\<lparr>mysql_sock := True, used := 0, sql_state := DB_CONN\<rparr>, t'))"

section \<open>Releasing and destroying\<close>

definition release_node :: "SQL_CONN_POOL \<Rightarrow> nat \<Rightarrow> SQL_CONN_POOL" where
  "release_node sp i =
     sp\<lparr>sql_pool := (sql_pool sp)[i := (sql_pool sp ! i)\<lparr>used := 0, lock := False\<rparr>],
        busy_number := busy_number sp - 1\<rparr>"

definition close_node :: "SQL_NODE \<Rightarrow> SQL_NODE" where
  "close_node node = node\<lparr>mysql_sock := False, sql_state := DB_DISCONN\<rparr>"

text \<open>The loop compares \<open>index\<close> with the \<open>pool_number\<close> that its body decrements.\<close>

function destroy_loop :: "nat \<Rightarrow> SQL_CONN_POOL \<Rightarrow> SQL_CONN_POOL" where
  "destroy_loop i sp =
     (if i < pool_number sp
      then destroy_loop (i + 1)
             (sp\<lparr>sql_pool := (sql_pool sp)[i := close_node (sql_pool sp ! i)], pool_number := pool_number sp - 1\<rparr>)
      else sp)"
  by pat_completeness auto
termination
  by (relation "measure (\<lambda>(i, sp). pool_number sp - i)") auto

declare destroy_loop.simps [simp del]

definition sql_pool_destroy :: "SQL_CONN_POOL \<Rightarrow> SQL_CONN_POOL" where
  "sql_pool_destroy sp = destroy_loop 0 (sp\<lparr>sp_shutdown := True\<rparr>)"

section \<open>Creating\<close>

text \<open>
  Opens connections from \<open>i\<close> up to, but not including, \<open>n\<close>. Writing beyond the array is a fault. \<open>None\<close> is the null
  pointer returned after a failure, with the pool that has been destroyed.
\<close>

function open_loop :: "mysql_env \<Rightarrow> nat \<Rightarrow> nat \<Rightarrow> SQL_CONN_POOL \<Rightarrow> nat \<Rightarrow> (SQL_CONN_POOL option \<times> SQL_CONN_POOL \<times> nat) res" where
  "open_loop env i n sp t =
     (if i < n
      then if length (sql_pool sp) \<le> i then fault BufferOverflow
        else (case create_db_connect env (sp_shutdown sp) (sql_pool sp ! i) t of (r, node, t') \<Rightarrow>
          let sp1 = sp\<lparr>sql_pool := (sql_pool sp)[i := node]\<rparr> in
          if r = 0 then ok (None, sql_pool_destroy sp1, t')
          else open_loop env (i + 1) n
                 (sp1\<lparr>sql_pool := (sql_pool sp1)[i := node\<lparr>index := int i\<rparr>], pool_number := pool_number sp1 + 1\<rparr>) t')
      else ok (Some sp, sp, t))"
  by pat_completeness auto
termination
  by (relation "measure (\<lambda>(env, i, n, sp, t). n - i)") auto

declare open_loop.simps [simp del]

text \<open>\<open>junk\<close> is the content of the allocated array; \<open>None\<close> when \<open>malloc\<close> fails.\<close>

definition sql_pool_create :: "mysql_env \<Rightarrow> bool \<Rightarrow> SQL_NODE list \<Rightarrow> int \<Rightarrow> nat \<Rightarrow> (SQL_CONN_POOL option \<times> nat) res" where
  "sql_pool_create env malloc_ok junk n t =
     (let n1 = (if n < 1 then 1 else n) in
      if \<not> malloc_ok then ok (None, t)
      else let n2 = (if int POOL_MAX_NUMBER < n1 then int POOL_MAX_NUMBER else n1) in
        rbind (open_loop env 0 (nat n2)
                 \<lparr>sp_shutdown = False, sql_pool = junk, pool_number = 0, busy_number = 0\<rparr> t)
          (\<lambda>(r, sp, t'). ok (r, t')))"

section \<open>Getting a connection\<close>

function get_loop :: "mysql_env \<Rightarrow> nat \<Rightarrow> nat \<Rightarrow> SQL_CONN_POOL \<Rightarrow> nat \<Rightarrow> nat option \<times> SQL_CONN_POOL \<times> nat" where
  "get_loop env start i sp t =
     (if i < pool_number sp
      then let k = (start + i) mod pool_number sp; node = sql_pool sp ! k in
        if lock node then get_loop env start (i + 1) sp t
        else (case (if sql_state node = DB_DISCONN
                    then create_db_connect env (sp_shutdown sp) (node\<lparr>lock := True\<rparr>) t
                    else (1, node\<lparr>lock := True\<rparr>, t)) of (r, node1, t1) \<Rightarrow>
          let sp1 = sp\<lparr>sql_pool := (sql_pool sp)[k := node1]\<rparr> in
          if r = 0 then get_loop env start (i + 1) (release_node sp1 k) t1
          else if mysql_ping env t1 \<noteq> 0
          then get_loop env start (i + 1)
                 (release_node (sp1\<lparr>sql_pool := (sql_pool sp1)[k := node1\<lparr>sql_state := DB_DISCONN\<rparr>]\<rparr>) k) (t1 + 1)
          else (Some k, sp1\<lparr>sql_pool := (sql_pool sp1)[k := node1\<lparr>used := 1\<rparr>],
                            busy_number := busy_number sp1 + 1\<rparr>, t1 + 1))
      else (None, sp, t))"
  by pat_completeness auto
termination
  by (relation "measure (\<lambda>(env, start, i, sp, t). pool_number sp - i)") (auto simp: release_node_def)

declare get_loop.simps [simp del]

text \<open>\<open>r\<close> is the value of \<open>rand()\<close>.\<close>

definition get_db_connect :: "mysql_env \<Rightarrow> nat \<Rightarrow> SQL_CONN_POOL \<Rightarrow> nat \<Rightarrow> (nat option \<times> SQL_CONN_POOL \<times> nat) res" where
  "get_db_connect env r sp t =
     (if sp_shutdown sp then ok (None, sp, t)
      else if pool_number sp = 0 then fault DivByZero
      else ok (get_loop env (r mod pool_number sp) 0 sp t))"

section \<open>Growing and shrinking\<close>

fun shrink_loop :: "nat \<Rightarrow> SQL_CONN_POOL \<Rightarrow> SQL_CONN_POOL" where
  "shrink_loop 0 sp = sp"
| "shrink_loop (Suc k) sp =
     (if pool_number sp = 0 then sp
      else let i = pool_number sp - 1 in
        shrink_loop k (sp\<lparr>sql_pool := (sql_pool sp)[i := close_node (sql_pool sp ! i)], pool_number := i\<rparr>))"

definition changeNodeNum :: "mysql_env \<Rightarrow> SQL_CONN_POOL \<Rightarrow> int \<Rightarrow> nat \<Rightarrow> (SQL_CONN_POOL option \<times> SQL_CONN_POOL \<times> nat) res" where
  "changeNodeNum env sp op t =
     (if op = 1 then open_loop env (pool_number sp) (pool_number sp + 5) sp t
      else if op = 0 then let sp' = shrink_loop 5 sp in ok (Some sp', sp', t)
      else ok (Some sp, sp, t))"


section \<open>What a scan does\<close>

lemma create_cases:
  assumes "create_db_connect env False node t = (r, node', t')"
  shows "lock node' = False \<and> (r = 0 \<or> r = 1) \<and> sql_state node' = (if r = 0 then DB_DISCONN else DB_CONN)"
  using assms by (auto simp: create_db_connect_def Let_def split: prod.splits if_splits)

definition frame :: "SQL_CONN_POOL \<Rightarrow> SQL_CONN_POOL \<Rightarrow> bool" where
  "frame sp sp' = (length (sql_pool sp') = length (sql_pool sp) \<and> pool_number sp' = pool_number sp
     \<and> sp_shutdown sp' = sp_shutdown sp)"

text \<open>The node that the scan visits in round \<open>i\<close>, and what the round does with it.\<close>

definition scan :: "nat \<Rightarrow> nat \<Rightarrow> SQL_CONN_POOL \<Rightarrow> nat" where
  "scan start i sp = (start + i) mod pool_number sp"

lemma get_loop_step:
  assumes "i < pool_number sp" and "\<not> sp_shutdown sp" and "pool_number sp \<le> length (sql_pool sp)"
    and "k = scan start i sp"
  obtains (hit) sp' t' where "get_loop env start i sp t = (Some k, sp', t')" "frame sp sp'"
      "\<not> lock (sql_pool sp ! k)" "sql_state (sql_pool sp' ! k) = DB_CONN" "used (sql_pool sp' ! k) = 1"
      "lock (sql_pool sp' ! k) = (sql_state (sql_pool sp ! k) = DB_CONN)"
      "\<forall>j. j \<noteq> k \<longrightarrow> sql_pool sp' ! j = sql_pool sp ! j" "busy_number sp' = busy_number sp + 1"
  | (miss) sp1 t1 where "get_loop env start i sp t = get_loop env start (i + 1) sp1 t1" "frame sp sp1"
      "lock (sql_pool sp1 ! k) = lock (sql_pool sp ! k)" "\<forall>j. j \<noteq> k \<longrightarrow> sql_pool sp1 ! j = sql_pool sp ! j"
      "lock (sql_pool sp ! k) \<or> sql_state (sql_pool sp ! k) = DB_DISCONN \<or> (\<exists>t. mysql_ping env t \<noteq> 0)"
      "busy_number sp1 \<le> busy_number sp" "lock (sql_pool sp ! k) \<longrightarrow> sp1 = sp"
proof -
  let ?node = "sql_pool sp ! k"
  have k: "k < length (sql_pool sp)" "k = (start + i) mod pool_number sp"
    using assms by (auto simp: scan_def intro: less_le_trans [OF mod_less_divisor])
  obtain r node1 t1 where c: "(if sql_state ?node = DB_DISCONN then create_db_connect env (sp_shutdown sp) (?node\<lparr>lock := True\<rparr>) t
      else (1, ?node\<lparr>lock := True\<rparr>, t)) = (r, node1, t1)" by (metis prod_cases3)
  let ?sp1 = "sp\<lparr>sql_pool := (sql_pool sp)[k := node1]\<rparr>"
  have n1: "r \<noteq> 0 \<Longrightarrow> sql_state node1 = DB_CONN" "lock node1 = (sql_state ?node = DB_CONN)" "r = 0 \<Longrightarrow> sql_state ?node = DB_DISCONN"
    using c create_cases [of env "?node\<lparr>lock := True\<rparr>" t r node1 t1] assms(2)
    by (auto split: if_splits) (cases "sql_state ?node"; auto)+
  note u = get_loop.simps [of env start i sp t, unfolded Let_def, folded k(2)]
  consider "lock ?node" | "\<not> lock ?node" "r = 0" | "\<not> lock ?node" "r \<noteq> 0" "mysql_ping env t1 \<noteq> 0"
    | "\<not> lock ?node" "r \<noteq> 0" "mysql_ping env t1 = 0" by blast
  then show thesis
  proof cases
    case 1
    then show ?thesis using u assms(1) by (intro miss [of sp t]) (simp_all add: frame_def)
  next
    case 2
    then show ?thesis using u assms(1) c k(1) n1(3)
      by (intro miss [of "release_node ?sp1 k" t1]) (simp_all add: frame_def release_node_def)
  next
    case 3
    then show ?thesis using u assms(1) c k(1)
      by (intro miss [of "release_node (?sp1\<lparr>sql_pool := (sql_pool ?sp1)[k := node1\<lparr>sql_state := DB_DISCONN\<rparr>]\<rparr>) k" "t1 + 1"])
        (auto simp: frame_def release_node_def)
  next
    case 4
    then show ?thesis using u assms(1) c k(1) n1
      by (intro hit [of "?sp1\<lparr>sql_pool := (sql_pool ?sp1)[k := node1\<lparr>used := 1\<rparr>], busy_number := busy_number ?sp1 + 1\<rparr>" "t1 + 1"])
        (simp_all add: frame_def)
  qed
qed


definition get_post :: "nat \<Rightarrow> nat \<Rightarrow> SQL_CONN_POOL \<Rightarrow> nat option \<Rightarrow> SQL_CONN_POOL \<Rightarrow> bool" where
  "get_post start i sp r sp' = (frame sp sp' \<and>
     (case r of
        None \<Rightarrow> \<forall>j. lock (sql_pool sp' ! j) = lock (sql_pool sp ! j)
      | Some k \<Rightarrow> (\<exists>j\<ge>i. j < pool_number sp \<and> k = scan start j sp)
          \<and> \<not> lock (sql_pool sp ! k) \<and> lock (sql_pool sp' ! k) = (sql_state (sql_pool sp ! k) = DB_CONN)
          \<and> sql_state (sql_pool sp' ! k) = DB_CONN \<and> used (sql_pool sp' ! k) = 1
          \<and> (\<forall>j. j \<noteq> k \<longrightarrow> lock (sql_pool sp' ! j) = lock (sql_pool sp ! j))))"

lemma scan_distinct: "i < j \<Longrightarrow> j < pool_number sp \<Longrightarrow> scan start j sp \<noteq> scan start i sp"
  unfolding scan_def by (rule ring_distinct)

lemma get_loop_post:
  assumes "\<not> sp_shutdown sp" and "pool_number sp \<le> length (sql_pool sp)" and "get_loop env start i sp t = (r, sp', t')"
  shows "get_post start i sp r sp'"
  using assms
proof (induction "pool_number sp - i" arbitrary: i sp t)
  case 0
  then have "\<not> i < pool_number sp" by simp
  then show ?case using "0.prems"(3) by (subst (asm) get_loop.simps) (auto simp: get_post_def frame_def)
next
  case (Suc n)
  then have i: "i < pool_number sp" by simp
  define k where "k = scan start i sp"
  show ?case
  proof (cases rule: get_loop_step [OF i Suc.prems(1,2) k_def, of env t])
    case (1 sp2 t2)
    note hit = 1
    from hit show ?thesis using Suc.prems(3) i k_def
      by (auto simp: get_post_def)
  next
    case (2 sp1 t1)
    note miss = 2
    have f: "pool_number sp1 = pool_number sp" "\<not> sp_shutdown sp1" "length (sql_pool sp1) = length (sql_pool sp)"
      using miss(2) Suc.prems(1) by (auto simp: frame_def)
    have ih: "get_post start (i + 1) sp1 r sp'"
      using Suc.prems(2,3) Suc.hyps(2) miss(1) f by (intro Suc.hyps(1) [of sp1 "i + 1" t1]) auto
    have fr: "frame sp sp'" using ih miss(2) by (auto simp: get_post_def frame_def)
    have lk: "lock (sql_pool sp1 ! j) = lock (sql_pool sp ! j)" for j
      using miss(3,4) by (cases "j = k") auto
    show ?thesis
    proof (cases r)
      case None
      then show ?thesis using ih fr lk by (simp add: get_post_def)
    next
      case (Some m)
      then obtain j where j: "j \<ge> i + 1" "j < pool_number sp" "m = scan start j sp"
        using ih f(1) by (auto simp: get_post_def scan_def)
      then have "m \<noteq> k" using scan_distinct [of i j sp start] k_def by simp
      then have "sql_pool sp1 ! m = sql_pool sp ! m" using miss(4) by simp
      then show ?thesis using ih fr lk j Some by (auto simp: get_post_def intro!: exI [of _ j])
    qed
  qed
qed

lemma get_loop_none:
  assumes "\<not> sp_shutdown sp" and "pool_number sp \<le> length (sql_pool sp)" and "\<forall>t. mysql_ping env t = 0"
    and "get_loop env start i sp t = (None, sp', t')" and "i \<le> j" and "j < pool_number sp"
  shows "lock (sql_pool sp ! scan start j sp) \<or> sql_state (sql_pool sp ! scan start j sp) = DB_DISCONN"
  using assms
proof (induction "pool_number sp - i" arbitrary: i sp t)
  case (Suc n)
  then have i: "i < pool_number sp" by simp
  define k where "k = scan start i sp"
  show ?case
  proof (cases rule: get_loop_step [OF i Suc.prems(1,2) k_def, of env t])
    case (1 sp2 t2)
    note hit = 1
    from hit show ?thesis using Suc.prems(4) by simp
  next
    case (2 sp1 t1)
    note miss = 2
    have f: "pool_number sp1 = pool_number sp" "\<not> sp_shutdown sp1" "length (sql_pool sp1) = length (sql_pool sp)"
      using miss(2) Suc.prems(1) by (auto simp: frame_def)
    show ?thesis
    proof (cases "j = i")
      case True
      then show ?thesis using miss(5) Suc.prems(3) k_def by auto
    next
      case False
      then have j: "i + 1 \<le> j" using Suc.prems(5) by simp
      have "lock (sql_pool sp1 ! scan start j sp1) \<or> sql_state (sql_pool sp1 ! scan start j sp1) = DB_DISCONN"
        using Suc.prems Suc.hyps(2) miss(1) f j by (intro Suc.hyps(1) [of sp1 "i + 1" t1]) auto
      moreover have "scan start j sp \<noteq> k" using scan_distinct [of i j sp start] j Suc.prems(6) k_def by simp
      ultimately show ?thesis using miss(4) f(1) by (simp add: scan_def)
    qed
  qed
qed simp

section \<open>The pool as an interface\<close>

text \<open>
  What the database operations rely on, whatever the MySQL server does. A connection that is handed out
  was not locked before, no other lock changes, and a release opens exactly the lock of its connection.
  The law does not say that the returned connection is locked, since a reconnected one is not.
\<close>

locale conn_pool =
  fixes inv :: "'s \<Rightarrow> bool" and held :: "'s \<Rightarrow> nat set" and acquire :: "'s \<Rightarrow> (nat option \<times> 's) res"
    and release :: "'s \<Rightarrow> nat \<Rightarrow> 's" and cap :: "'s \<Rightarrow> nat"
  assumes acquire_total: "inv s \<Longrightarrow> \<exists>r s'. acquire s = Inr (r, s')"
    and acquire_some: "inv s \<Longrightarrow> acquire s = Inr (Some k, s') \<Longrightarrow>
      inv s' \<and> k \<notin> held s \<and> held s \<subseteq> held s' \<and> held s' \<subseteq> insert k (held s)"
    and acquire_none: "inv s \<Longrightarrow> acquire s = Inr (None, s') \<Longrightarrow> inv s' \<and> held s' = held s"
    and acquire_cap: "inv s \<Longrightarrow> acquire s = Inr (r, s') \<Longrightarrow> cap s' = cap s"
    and held_cap: "inv s \<Longrightarrow> held s \<subseteq> {..<cap s}"
    and release_held: "inv s \<Longrightarrow> inv (release s k) \<and> held (release s k) = held s - {k}"
begin

lemma acquire_inv: "inv s \<Longrightarrow> acquire s = Inr (r, s') \<Longrightarrow> inv s'"
  using acquire_some [of s _ s'] acquire_none [of s s'] by (cases r) auto

text \<open>The held connections of a state after an acquisition, without the acquired one, are those before it.\<close>

lemma acquire_minus: "inv s \<Longrightarrow> acquire s = Inr (Some k, s') \<Longrightarrow> held s' - {k} = held s"
  using acquire_some [of s k s'] by blast

lemma acquire_release: "inv s \<Longrightarrow> acquire s = Inr (Some k, s') \<Longrightarrow> inv (release s' k) \<and> held (release s' k) = held s"
  using acquire_some [of s k s'] release_held [of s' k] acquire_minus [of s k s'] by simp

end

text \<open>A pool that also locks what it hands out: then no connection has two holders.\<close>

locale conn_pool_up = conn_pool +
  assumes acquire_locks: "inv s \<Longrightarrow> acquire s = Inr (Some k, s') \<Longrightarrow> k \<in> held s'"
begin

lemma acquire_insert: "inv s \<Longrightarrow> acquire s = Inr (Some k, s') \<Longrightarrow> inv s' \<and> k \<notin> held s \<and> held s' = insert k (held s)"
  using acquire_some [of s k s'] acquire_locks [of s k s'] by blast

lemma acquire_twice:
  "inv s \<Longrightarrow> acquire s = Inr (Some k, s') \<Longrightarrow> acquire s' = Inr (Some k', s'') \<Longrightarrow> k \<noteq> k' \<and> held s'' = insert k' (insert k (held s))"
  using acquire_insert [of s k s'] acquire_insert [of s' k' s''] by auto

text \<open>When all connections are held, none is returned.\<close>

lemma acquire_full:
  assumes "inv s" and "held s = {..<cap s}"
  shows "\<exists>s'. acquire s = Inr (None, s') \<and> inv s' \<and> held s' = {..<cap s'}"
proof -
  obtain r s' where a: "acquire s = Inr (r, s')" using acquire_total [OF assms(1)] by blast
  have c: "cap s' = cap s" by (rule acquire_cap [OF assms(1) a])
  show ?thesis
  proof (cases r)
    case None
    then show ?thesis using acquire_none [OF assms(1)] a c assms(2) by auto
  next
    case (Some k)
    then have k: "inv s'" "k \<notin> held s" "held s' = insert k (held s)" using acquire_insert [OF assms(1)] a by auto
    then have "k < cap s" using held_cap [OF k(1)] c by auto
    then show ?thesis using k(2) assms(2) by simp
  qed
qed

end


text \<open>The pool with its surroundings: the client library, the numbers of calls made, and \<open>rand\<close>.\<close>

record sqlw =
  w_env :: mysql_env
  w_sp :: SQL_CONN_POOL
  w_tick :: nat
  w_rand :: "nat \<Rightarrow> nat"
  w_rcount :: nat

definition sql_get :: "sqlw \<Rightarrow> (nat option \<times> sqlw) res" where
  "sql_get w = rbind (get_db_connect (w_env w) (w_rand w (w_rcount w)) (w_sp w) (w_tick w)) (\<lambda>(r, sp, t).
     ok (r, w\<lparr>w_sp := sp, w_tick := t, w_rcount := w_rcount w + 1\<rparr>))"

definition sql_release :: "sqlw \<Rightarrow> nat \<Rightarrow> sqlw" where
  "sql_release w k = w\<lparr>w_sp := release_node (w_sp w) k\<rparr>"

definition held :: "sqlw \<Rightarrow> nat set" where
  "held w = {k. k < pool_number (w_sp w) \<and> lock (sql_pool (w_sp w) ! k)}"

text \<open>A running pool, on any server; and one whose connections are all up, on a server that answers every ping.\<close>

definition running :: "sqlw \<Rightarrow> bool" where
  "running w = (\<not> sp_shutdown (w_sp w) \<and> 0 < pool_number (w_sp w) \<and> pool_number (w_sp w) \<le> length (sql_pool (w_sp w)))"

definition pool_up :: "SQL_CONN_POOL \<Rightarrow> bool" where
  "pool_up sp = (\<not> sp_shutdown sp \<and> 0 < pool_number sp \<and> pool_number sp \<le> length (sql_pool sp)
     \<and> (\<forall>k<pool_number sp. sql_state (sql_pool sp ! k) = DB_CONN))"

definition healthy :: "sqlw \<Rightarrow> bool" where
  "healthy w = (pool_up (w_sp w) \<and> (\<forall>t. mysql_ping (w_env w) t = 0))"

lemma healthy_running: "healthy w \<Longrightarrow> running w"
  by (simp add: healthy_def running_def pool_up_def)

lemma get_loop_up:
  assumes "pool_up sp" and "\<forall>t. mysql_ping env t = 0" and "get_loop env start i sp t = (r, sp', t')"
  shows "pool_up sp'"
  using assms
proof (induction "pool_number sp - i" arbitrary: i sp t)
  case 0
  then show ?case by (subst (asm) get_loop.simps) auto
next
  case (Suc n)
  then have i: "i < pool_number sp" and up: "\<not> sp_shutdown sp" "pool_number sp \<le> length (sql_pool sp)"
    by (auto simp: pool_up_def)
  define k where "k = scan start i sp"
  have k: "k < pool_number sp" using i by (auto simp: k_def scan_def)
  show ?case
  proof (cases rule: get_loop_step [OF i up k_def, of env t])
    case (1 sp2 t2)
    have "sql_state (sql_pool sp2 ! j) = DB_CONN" if "j < pool_number sp" for j
      using 1(4,7) Suc.prems(1) that by (cases "j = k") (auto simp: pool_up_def)
    then show ?thesis using 1(1,2) Suc.prems(1,3) by (auto simp: pool_up_def frame_def)
  next
    case (2 sp1 t1)
    have "sql_state (sql_pool sp ! k) = DB_CONN" using Suc.prems(1) k by (simp add: pool_up_def)
    then have "sp1 = sp" using 2(5,7) Suc.prems(2) by auto
    then show ?thesis using Suc.hyps(1) [of sp "i + 1" t1] Suc.hyps(2) Suc.prems 2(1) by simp
  qed
qed

lemma sql_get_unfold:
  assumes "running w"
  obtains r sp t where "get_loop (w_env w) (w_rand w (w_rcount w) mod pool_number (w_sp w)) 0 (w_sp w) (w_tick w) = (r, sp, t)"
    "sql_get w = Inr (r, w\<lparr>w_sp := sp, w_tick := t, w_rcount := w_rcount w + 1\<rparr>)"
    "get_post (w_rand w (w_rcount w) mod pool_number (w_sp w)) 0 (w_sp w) r sp"
proof -
  obtain r sp t where g: "get_loop (w_env w) (w_rand w (w_rcount w) mod pool_number (w_sp w)) 0 (w_sp w) (w_tick w) = (r, sp, t)"
    by (metis prod_cases3)
  have "sql_get w = Inr (r, w\<lparr>w_sp := sp, w_tick := t, w_rcount := w_rcount w + 1\<rparr>)"
    using assms g by (simp add: sql_get_def get_db_connect_def running_def)
  moreover have "get_post (w_rand w (w_rcount w) mod pool_number (w_sp w)) 0 (w_sp w) r sp"
    using assms g by (intro get_loop_post) (auto simp: running_def)
  ultimately show ?thesis using g that by blast
qed

lemma sql_get_post:
  assumes "running w" and "sql_get w = Inr (r, w')"
  obtains sp t where "w' = w\<lparr>w_sp := sp, w_tick := t, w_rcount := w_rcount w + 1\<rparr>"
    "get_loop (w_env w) (w_rand w (w_rcount w) mod pool_number (w_sp w)) 0 (w_sp w) (w_tick w) = (r, sp, t)"
    "get_post (w_rand w (w_rcount w) mod pool_number (w_sp w)) 0 (w_sp w) r sp"
  using sql_get_unfold [OF assms(1)] assms(2) by (metis Inr_inject prod.inject)

text \<open>Every running pool keeps the first contract, also while connections are lost and opened again.\<close>

interpretation rp: conn_pool running held sql_get sql_release "\<lambda>w. pool_number (w_sp w)"
proof
  fix w assume h: "running w"
  show "\<exists>r w'. sql_get w = Inr (r, w')" using sql_get_unfold [OF h] by metis
  {
    fix k w' assume g: "sql_get w = Inr (Some k, w')"
    obtain sp t where s: "w' = w\<lparr>w_sp := sp, w_tick := t, w_rcount := w_rcount w + 1\<rparr>"
      "get_post (w_rand w (w_rcount w) mod pool_number (w_sp w)) 0 (w_sp w) (Some k) sp"
      using sql_get_post [OF h g] by blast
    have f: "frame (w_sp w) sp" and lk: "\<not> lock (sql_pool (w_sp w) ! k)"
      and ol: "\<forall>j. j \<noteq> k \<longrightarrow> lock (sql_pool sp ! j) = lock (sql_pool (w_sp w) ! j)"
      using s(2) by (auto simp: get_post_def)
    have "held w \<subseteq> held w'" "held w' \<subseteq> insert k (held w)"
      using s(1) f ol lk by (auto simp: held_def frame_def)
    then show "running w' \<and> k \<notin> held w \<and> held w \<subseteq> held w' \<and> held w' \<subseteq> insert k (held w)"
      using s(1) f h lk by (simp add: running_def frame_def held_def)
  }
  {
    fix w' assume g: "sql_get w = Inr (None, w')"
    obtain sp t where "w' = w\<lparr>w_sp := sp, w_tick := t, w_rcount := w_rcount w + 1\<rparr>"
      "get_post (w_rand w (w_rcount w) mod pool_number (w_sp w)) 0 (w_sp w) None sp"
      using sql_get_post [OF h g] by blast
    then show "running w' \<and> held w' = held w"
      using h by (auto simp: get_post_def frame_def running_def held_def)
  }
  {
    fix r w' assume g: "sql_get w = Inr (r, w')"
    obtain sp t where "w' = w\<lparr>w_sp := sp, w_tick := t, w_rcount := w_rcount w + 1\<rparr>"
      "get_post (w_rand w (w_rcount w) mod pool_number (w_sp w)) 0 (w_sp w) r sp"
      using sql_get_post [OF h g] by blast
    then show "pool_number (w_sp w') = pool_number (w_sp w)"
      by (auto simp: get_post_def frame_def split: option.splits)
  }
  show "held w \<subseteq> {..<pool_number (w_sp w)}" by (auto simp: held_def)
  show "running (sql_release w k) \<and> held (sql_release w k) = held w - {k}" for k
    using h by (cases "k < length (sql_pool (w_sp w))")
      (auto simp: running_def held_def sql_release_def release_node_def nth_list_update)
qed

lemma sql_get_healthy:
  assumes "healthy w" and "sql_get w = Inr (r, w')"
  shows "healthy w' \<and> (\<forall>k. r = Some k \<longrightarrow> k \<in> held w')"
proof -
  have u: "pool_up (w_sp w)" "\<forall>t. mysql_ping (w_env w) t = 0" using assms(1) by (auto simp: healthy_def)
  obtain sp t where s: "w' = w\<lparr>w_sp := sp, w_tick := t, w_rcount := w_rcount w + 1\<rparr>"
    "get_loop (w_env w) (w_rand w (w_rcount w) mod pool_number (w_sp w)) 0 (w_sp w) (w_tick w) = (r, sp, t)"
    "get_post (w_rand w (w_rcount w) mod pool_number (w_sp w)) 0 (w_sp w) r sp"
    using sql_get_post [OF healthy_running [OF assms(1)] assms(2)] by blast
  have "k \<in> held w'" if "r = Some k" for k
    using s(1,3) that u(1) by (auto simp: get_post_def held_def frame_def scan_def pool_up_def)
  then show ?thesis using s(1) get_loop_up [OF u s(2)] u(2) by (simp add: healthy_def)
qed

lemma release_healthy: "healthy w \<Longrightarrow> healthy (sql_release w k)"
  by (cases "k < length (sql_pool (w_sp w))")
    (auto simp: healthy_def pool_up_def sql_release_def release_node_def nth_list_update)

text \<open>A pool whose connections stay up keeps the second one too.\<close>

interpretation cp: conn_pool_up healthy held sql_get sql_release "\<lambda>w. pool_number (w_sp w)"
proof
  fix w assume h: "healthy w"
  note r = healthy_running [OF h]
  show "\<exists>r w'. sql_get w = Inr (r, w')" by (rule rp.acquire_total [OF r])
  show "held w \<subseteq> {..<pool_number (w_sp w)}" by (rule rp.held_cap [OF r])
  show "healthy (sql_release w k) \<and> held (sql_release w k) = held w - {k}" for k
    using rp.release_held [OF r] release_healthy [OF h] by simp
  show "pool_number (w_sp w') = pool_number (w_sp w)" if "sql_get w = Inr (c, w')" for c w'
    by (rule rp.acquire_cap [OF r that])
  show "healthy w' \<and> held w' = held w" if "sql_get w = Inr (None, w')" for w'
    using rp.acquire_none [OF r that] sql_get_healthy [OF h that] by simp
  show "healthy w' \<and> k \<notin> held w \<and> held w \<subseteq> held w' \<and> held w' \<subseteq> insert k (held w)"
    if "sql_get w = Inr (Some k, w')" for k w'
    using rp.acquire_some [OF r that] sql_get_healthy [OF h that] by simp
  show "k \<in> held w'" if "sql_get w = Inr (Some k, w')" for k w'
    using sql_get_healthy [OF h that] by simp
qed


section \<open>Creating and destroying\<close>

lemma destroy_loop_ok:
  assumes "pool_number sp \<le> length (sql_pool sp)" and "i \<le> pool_number sp"
  shows "pool_number (destroy_loop i sp) = pool_number sp - (pool_number sp - i + 1) div 2
    \<and> length (sql_pool (destroy_loop i sp)) = length (sql_pool sp)
    \<and> (\<forall>j. sql_pool (destroy_loop i sp) ! j =
        (if i \<le> j \<and> j < i + (pool_number sp - i + 1) div 2 then close_node (sql_pool sp ! j) else sql_pool sp ! j))"
  using assms
proof (induction i sp rule: destroy_loop.induct)
  case (1 i sp)
  show ?case
  proof (cases "i < pool_number sp")
    case False
    then have "i = pool_number sp" using "1.prems" by simp
    then show ?thesis by (subst (1 2 3) destroy_loop.simps) auto
  next
    case True
    let ?sp = "sp\<lparr>sql_pool := (sql_pool sp)[i := close_node (sql_pool sp ! i)], pool_number := pool_number sp - 1\<rparr>"
    have d: "destroy_loop i sp = destroy_loop (i + 1) ?sp" using True by (subst destroy_loop.simps) simp
    have half: "(pool_number sp - i + 1) div 2 = Suc ((pool_number sp - 1 - (i + 1) + 1) div 2)"
      if "i + 1 \<le> pool_number sp - 1" using that by presburger
    show ?thesis
    proof (cases "i + 1 \<le> pool_number sp - 1")
      case True
      then have "pool_number (destroy_loop (i + 1) ?sp) = pool_number ?sp - (pool_number ?sp - (i + 1) + 1) div 2
        \<and> length (sql_pool (destroy_loop (i + 1) ?sp)) = length (sql_pool ?sp)
        \<and> (\<forall>j. sql_pool (destroy_loop (i + 1) ?sp) ! j =
          (if i + 1 \<le> j \<and> j < i + 1 + (pool_number ?sp - (i + 1) + 1) div 2 then close_node (sql_pool ?sp ! j) else sql_pool ?sp ! j))"
        using "1.prems" \<open>i < pool_number sp\<close> by (intro "1.IH") auto
      then show ?thesis
        unfolding d half [OF True] using "1.prems" \<open>i < pool_number sp\<close> by (auto simp: nth_list_update)
    next
      case False
      then have e: "pool_number sp = i + 1" using \<open>i < pool_number sp\<close> by simp
      then have "destroy_loop (i + 1) ?sp = ?sp" by (subst destroy_loop.simps) simp
      then show ?thesis unfolding d using e "1.prems" by (auto simp: nth_list_update)
    qed
  qed
qed

definition opened :: "nat \<Rightarrow> nat \<Rightarrow> SQL_CONN_POOL \<Rightarrow> SQL_CONN_POOL \<Rightarrow> bool" where
  "opened i n sp sp' = (pool_number sp' = n \<and> \<not> sp_shutdown sp' \<and> busy_number sp' = busy_number sp
     \<and> length (sql_pool sp') = length (sql_pool sp)
     \<and> (\<forall>j. if i \<le> j \<and> j < n then sql_state (sql_pool sp' ! j) = DB_CONN \<and> \<not> lock (sql_pool sp' ! j)
          \<and> mysql_sock (sql_pool sp' ! j) \<and> index (sql_pool sp' ! j) = int j else sql_pool sp' ! j = sql_pool sp ! j))"

lemma open_loop_ok:
  assumes "\<forall>t. mysql_init env t" and "\<forall>t. mysql_real_connect env t" and "\<not> sp_shutdown sp"
    and "pool_number sp = i" and "i \<le> n" and "n \<le> length (sql_pool sp)"
  shows "\<exists>sp' t'. open_loop env i n sp t = Inr (Some sp', sp', t') \<and> opened i n sp sp'"
  using assms(3-6)
proof (induction "n - i" arbitrary: i sp t)
  case 0
  then show ?case by (subst open_loop.simps) (auto simp: opened_def)
next
  case (Suc m)
  then have i: "i < n" by simp
  let ?nd = "(sql_pool sp ! i)\<lparr>lock := False, mysql_sock := True, used := 0, sql_state := DB_CONN, index := int i\<rparr>"
  let ?sp = "sp\<lparr>sql_pool := (sql_pool sp)[i := ?nd], pool_number := pool_number sp + 1\<rparr>"
  have st: "open_loop env i n sp t = open_loop env (i + 1) n ?sp (t + 2)"
    using i Suc.prems assms(1,2) by (subst open_loop.simps) (simp add: create_db_connect_def MySqlInit_def)
  have "\<exists>sp' t'. open_loop env (i + 1) n ?sp (t + 2) = Inr (Some sp', sp', t') \<and> opened (i + 1) n ?sp sp'"
    using Suc.hyps(2) Suc.prems i by (intro Suc.hyps(1)) auto
  then obtain sp' t' where sp': "open_loop env (i + 1) n ?sp (t + 2) = Inr (Some sp', sp', t')" "opened (i + 1) n ?sp sp'"
    by blast
  have "opened i n sp sp'"
    unfolding opened_def
  proof (intro conjI allI)
    fix j
    have "if i + 1 \<le> j \<and> j < n then sql_state (sql_pool sp' ! j) = DB_CONN \<and> \<not> lock (sql_pool sp' ! j)
      \<and> mysql_sock (sql_pool sp' ! j) \<and> index (sql_pool sp' ! j) = int j else sql_pool sp' ! j = sql_pool ?sp ! j"
      using sp'(2) unfolding opened_def by blast
    then show "if i \<le> j \<and> j < n then sql_state (sql_pool sp' ! j) = DB_CONN \<and> \<not> lock (sql_pool sp' ! j)
      \<and> mysql_sock (sql_pool sp' ! j) \<and> index (sql_pool sp' ! j) = int j else sql_pool sp' ! j = sql_pool sp ! j"
      using Suc.prems(4) i by (cases "j = i") auto
  qed (use sp'(2) in \<open>simp_all add: opened_def\<close>)
  then show ?case using st sp'(1) by auto
qed

section \<open>Properties\<close>


definition up_env :: mysql_env where
  "up_env = \<lparr>mysql_init = (\<lambda>_. True), mysql_real_connect = (\<lambda>_. True), mysql_ping = (\<lambda>_. 0)\<rparr>"

definition node0 :: SQL_NODE where
  "node0 = \<lparr>mysql_sock = True, lock = False, used = 0, index = 0, sql_state = DB_CONN\<rparr>"

definition pool2 :: SQL_CONN_POOL where
  "pool2 = \<lparr>sp_shutdown = False, sql_pool = [node0\<lparr>lock := True\<rparr>, node0], pool_number = 2, busy_number = 1\<rparr>"

lemma get_pool2: "get_db_connect up_env 0 pool2 0
  = Inr (Some 1, pool2\<lparr>sql_pool := [node0\<lparr>lock := True\<rparr>, node0\<lparr>lock := True, used := 1\<rparr>], busy_number := 2\<rparr>, 1)"
  by (simp add: get_db_connect_def pool2_def get_loop.simps node0_def up_env_def Let_def)


text \<open>
  C23: \<open>get_db_connect\<close> finds a free connection whenever there is one: if the server answers pings and some
  connection of the pool is up and unlocked, the result is not null, wherever the random scan starts.
\<close>

theorem get_db_connect_complete:
  assumes "\<not> sp_shutdown sp" and "pool_number sp \<le> length (sql_pool sp)" and "\<forall>t. mysql_ping env t = 0"
    and "k < pool_number sp" and "\<not> lock (sql_pool sp ! k)" and "sql_state (sql_pool sp ! k) = DB_CONN"
  shows "\<exists>m sp' t'. get_db_connect env r sp t = Inr (Some m, sp', t')"
proof -
  let ?s = "r mod pool_number sp"
  obtain c sp' t' where g: "get_loop env ?s 0 sp t = (c, sp', t')" by (metis prod_cases3)
  obtain j where j: "j < pool_number sp" "scan ?s j sp = k"
    using ring_covers [OF assms(4), of ?s] by (auto simp: scan_def)
  have "c \<noteq> None"
  proof
    assume "c = None"
    then have "lock (sql_pool sp ! k) \<or> sql_state (sql_pool sp ! k) = DB_DISCONN"
      using get_loop_none [OF assms(1-3), of ?s 0 t sp' t' j] g j by simp
    then show False using assms(5,6) by simp
  qed
  then show ?thesis using g assms(1,4) by (auto simp: get_db_connect_def)
qed

theorem get_db_connect_complete_witness: "\<exists>m sp' t'. get_db_connect up_env 4 pool2 0 = Inr (Some m, sp', t')"
  using get_db_connect_complete [of pool2 up_env 1 4 0] by (simp add: pool2_def node0_def up_env_def)

text \<open>
  A reconnected connection can be handed out twice. \<open>create_db_connect\<close> initialises the mutex that
  \<open>get_db_connect\<close> has just locked, so that after a reconnection the connection is given away with its
  lock open, and the next caller gets the same one.
\<close>

theorem get_db_connect_reconnect_shared:
  "\<exists>sp1 t1 sp2 t2.
     get_db_connect up_env 0 \<lparr>sp_shutdown = False, sql_pool = [node0\<lparr>sql_state := DB_DISCONN\<rparr>], pool_number = 1, busy_number = 0\<rparr> 0
       = Inr (Some 0, sp1, t1)
   \<and> get_db_connect up_env 0 sp1 t1 = Inr (Some 0, sp2, t2) \<and> busy_number sp2 = 2"
  by (simp add: get_db_connect_def get_loop.simps node0_def up_env_def Let_def create_db_connect_def MySqlInit_def)

text \<open>
  C24: \<open>sql_pool_create\<close> with a server that accepts connections: the requested number, at least 1 and at
  most 30, is opened; all are connected, unlocked and numbered by their position, and none is busy.
\<close>

theorem sql_pool_create_ok:
  assumes "\<forall>t. mysql_init env t" and "\<forall>t. mysql_real_connect env t" and "length junk = POOL_MAX_NUMBER"
  shows "\<exists>sp t'. sql_pool_create env True junk n t = Inr (Some sp, t') \<and> int (pool_number sp) = min 30 (max 1 n)
    \<and> busy_number sp = 0 \<and> length (sql_pool sp) = 30 \<and> pool_up sp
    \<and> (\<forall>j<pool_number sp. \<not> lock (sql_pool sp ! j) \<and> index (sql_pool sp ! j) = int j)"
proof -
  let ?n = "nat (if int POOL_MAX_NUMBER < (if n < 1 then 1 else n) then int POOL_MAX_NUMBER else if n < 1 then 1 else n)"
  let ?sp = "\<lparr>sp_shutdown = False, sql_pool = junk, pool_number = 0, busy_number = 0\<rparr>"
  have n: "int ?n = min 30 (max 1 n)" "?n \<le> 30" "0 < ?n" by (auto simp: POOL_MAX_NUMBER_def)
  obtain sp' t' where o1: "open_loop env 0 ?n ?sp t = Inr (Some sp', sp', t')" "opened 0 ?n ?sp sp'"
    using open_loop_ok [OF assms(1,2), of ?sp 0 ?n t] n(2) assms(3) by (auto simp: POOL_MAX_NUMBER_def)
  then have o: "open_loop env 0 ?n ?sp t = Inr (Some sp', sp', t')" "pool_number sp' = ?n" "\<not> sp_shutdown sp'"
    "busy_number sp' = 0" "length (sql_pool sp') = 30"
    "\<forall>j<?n. sql_state (sql_pool sp' ! j) = DB_CONN \<and> \<not> lock (sql_pool sp' ! j) \<and> index (sql_pool sp' ! j) = int j"
    using assms(3) unfolding opened_def POOL_MAX_NUMBER_def by simp_all
  have "sql_pool_create env True junk n t = Inr (Some sp', t')"
    using o(1) by (simp add: sql_pool_create_def Let_def)
  then show ?thesis using o(2-6) n by (auto simp: pool_up_def)
qed

theorem sql_pool_create_ok_witness:
  "\<exists>sp t'. sql_pool_create up_env True (replicate 30 node0) 36 0 = Inr (Some sp, t') \<and> int (pool_number sp) = 30"
  using sql_pool_create_ok [of up_env "replicate 30 node0" 36 0] by (auto simp: up_env_def POOL_MAX_NUMBER_def)

text \<open>
  \<open>sql_pool_destroy\<close> closes only half of the connections: its loop bound shrinks while the index grows.
  Of \<open>n\<close> connections the first \<open>(n + 1) div 2\<close> are closed and the others stay open.
\<close>

theorem sql_pool_destroy_half:
  assumes "pool_number sp \<le> length (sql_pool sp)"
  shows "pool_number (sql_pool_destroy sp) = pool_number sp div 2
    \<and> (\<forall>j. sql_pool (sql_pool_destroy sp) ! j =
      (if j < (pool_number sp + 1) div 2 then close_node (sql_pool sp ! j) else sql_pool sp ! j))"
proof -
  have "n - (n + 1) div 2 = n div 2" for n :: nat by presburger
  then show ?thesis using destroy_loop_ok [of "sp\<lparr>sp_shutdown := True\<rparr>" 0] assms by (simp add: sql_pool_destroy_def)
qed

theorem sql_pool_destroy_half_witness:
  "pool_number (sql_pool_destroy pool2) = 1 \<and> sql_pool (sql_pool_destroy pool2) ! 1 = node0"
  using sql_pool_destroy_half [of pool2] by (simp add: pool2_def)

lemma open_loop_overflow:
  assumes "\<forall>t. mysql_init env t" and "\<forall>t. mysql_real_connect env t" and "\<not> sp_shutdown sp"
    and "i \<le> length (sql_pool sp)" and "length (sql_pool sp) < n"
  shows "open_loop env i n sp t = Inl BufferOverflow"
  using assms(3-5)
proof (induction "length (sql_pool sp) - i" arbitrary: i sp t)
  case 0
  then show ?case by (subst open_loop.simps) simp
next
  case (Suc m)
  then have i: "i < length (sql_pool sp)" by simp
  let ?nd = "(sql_pool sp ! i)\<lparr>lock := False, mysql_sock := True, used := 0, sql_state := DB_CONN, index := int i\<rparr>"
  let ?sp = "sp\<lparr>sql_pool := (sql_pool sp)[i := ?nd], pool_number := pool_number sp + 1\<rparr>"
  have st: "open_loop env i n sp t = open_loop env (i + 1) n ?sp (t + 2)"
    using i Suc.prems assms(1,2) by (subst open_loop.simps) (simp add: create_db_connect_def MySqlInit_def)
  then show ?case using Suc.hyps(1) [of ?sp "i + 1" "t + 2"] Suc.hyps(2) Suc.prems i by simp
qed

text \<open>
  \<open>changeNodeNum\<close> may write beyond the array: growing a pool of more than 25 connections by 5, with a
  server that accepts them, leaves the array of 30.
\<close>

theorem changeNodeNum_overflow:
  assumes "\<forall>t. mysql_init env t" and "\<forall>t. mysql_real_connect env t" and "\<not> sp_shutdown sp"
    and "length (sql_pool sp) = POOL_MAX_NUMBER" and "25 < pool_number sp" and "pool_number sp \<le> POOL_MAX_NUMBER"
  shows "changeNodeNum env sp 1 t = Inl BufferOverflow"
  using open_loop_overflow [OF assms(1-3), of "pool_number sp" "pool_number sp + 5"] assms(4-6)
  by (simp add: changeNodeNum_def POOL_MAX_NUMBER_def)

theorem changeNodeNum_overflow_witness:
  "changeNodeNum up_env \<lparr>sp_shutdown = False, sql_pool = replicate 30 node0, pool_number = 30, busy_number = 0\<rparr> 1 0 = Inl BufferOverflow"
  using changeNodeNum_overflow [of up_env "\<lparr>sp_shutdown = False, sql_pool = replicate 30 node0, pool_number = 30, busy_number = 0\<rparr>" 0]
  by (simp add: up_env_def POOL_MAX_NUMBER_def)

end
