(* ===== verification/Db.thy ===== *)
theory Db
  imports UserList SqlPool
begin

text \<open>
  The state that the request handlers share, and the primitives with which they use it: the connection
  pool, the MySQL server, the lists of users and devices, the connections and the network. A handler
  is a function on this state; its result is \<open>None\<close> if it does not end, a fault, or a value with the new
  state. MySQL and the network are parameters: \<open>wd_query\<close> and \<open>wd_net\<close> give the result of the next query
  and of the next \<open>send\<close>; \<open>wd_mal c\<close> are the results of \<open>malloc\<close> in the \<open>c\<close>-th function that allocates list
  nodes, \<open>wd_junk\<close> what such a block holds, \<open>wd_stack\<close> what an uninitialised local structure holds.
  \<open>wd_pkt\<close> the same for a device packet. \<open>wd_mute\<close> are the mutexes of the list heads. \<open>wd_rand\<close> are the results of
  \<open>rand\<close>, of which \<open>wd_rt\<close> have been used; \<open>wd_smal c\<close> says which allocations of the \<open>c\<close>-th call of \<open>StrSplit\<close>
  succeed and \<open>wd_sjunk\<close> what they hold; \<open>wd_md5\<close> is the digest library, \<open>wd_cmds\<close> the commands given to
  \<open>system\<close>, \<open>wd_version\<close> the array \<open>app_version\<close> and \<open>wd_top\<close> the socket of the top server. Log output is left out.
\<close>

section \<open>The shared state\<close>

text \<open>
  The answer of the server to a query: an error text, whether \<open>mysql_store_result\<close> then gives a null pointer
  (it may, after a query that succeeded), the rows of the result, the affected rows.
\<close>

record qres =
  q_err :: "string option"
  q_null :: bool
  q_rows :: "string option list list"
  q_affected :: int

record world =
  wd_sql :: sqlw
  wd_query :: "nat \<Rightarrow> string \<Rightarrow> qres"
  wd_qlog :: "string list"
  wd_store :: store
  wd_conns :: "nat \<Rightarrow> CLN option"
  wd_net :: "nat \<Rightarrow> int"
  wd_sent :: "(nat \<times> buf) list"
  wd_closed :: "nat list"
  wd_today :: string
  wd_mal :: "nat \<Rightarrow> nat \<Rightarrow> nat"
  wd_junk :: "nat \<Rightarrow> user"
  wd_mc :: nat
  wd_mute :: "lst \<Rightarrow> bool"
  wd_stack :: CLN
  wd_pkt :: buf
  wd_rand :: "nat \<Rightarrow> int"
  wd_rt :: nat
  wd_smal :: "nat \<Rightarrow> nat \<Rightarrow> bool"
  wd_smc :: nat
  wd_sjunk :: char
  wd_md5 :: "string \<Rightarrow> string"
  wd_cmds :: "string list"
  wd_version :: buf
  wd_top :: nat

type_synonym 'a op = "world \<Rightarrow> ('a \<times> world) res option"

section \<open>Operations in sequence\<close>

definition oret :: "'a \<Rightarrow> 'a op" where
  "oret x w = Some (ok (x, w))"

definition obind :: "'a op \<Rightarrow> ('a \<Rightarrow> 'b op) \<Rightarrow> 'b op" where
  "obind m f w = (case m w of None \<Rightarrow> None | Some (Inl e) \<Rightarrow> Some (Inl e) | Some (Inr (x, w')) \<Rightarrow> f x w')"

definition ofault :: "fault \<Rightarrow> 'a op" where
  "ofault e w = Some (fault e)"

definition olift :: "'a res \<Rightarrow> 'a op" where
  "olift r w = Some (rbind r (\<lambda>x. ok (x, w)))"

section \<open>Primitives\<close>

definition db_get :: "nat option op" where
  "db_get w = Some (rbind (sql_get (wd_sql w)) (\<lambda>(r, s). ok (r, w\<lparr>wd_sql := s\<rparr>)))"

definition db_release :: "nat \<Rightarrow> unit op" where
  "db_release k w = Some (ok ((), w\<lparr>wd_sql := sql_release (wd_sql w) k\<rparr>))"

definition db_query :: "string \<Rightarrow> qres op" where
  "db_query q w = Some (ok (wd_query w (length (wd_qlog w)) q, w\<lparr>wd_qlog := wd_qlog w @ [q]\<rparr>))"

text \<open>\<open>if ((temmp = get_db_connect(MySqlConnPool)) == NULL) return none;\<close> and the code after it.\<close>

definition with_conn :: "'a \<Rightarrow> (nat \<Rightarrow> 'a op) \<Rightarrow> 'a op" where
  "with_conn none body = obind db_get (\<lambda>r. case r of None \<Rightarrow> oret none | Some k \<Rightarrow> body k)"

definition release_then :: "nat \<Rightarrow> 'a op \<Rightarrow> 'a op" where
  "release_then k m = obind (db_release k) (\<lambda>_. m)"

text \<open>\<open>sprintf\<close> into a local \<open>char buf[n]\<close>; the result is the text that is then sent to the server.\<close>

definition fmt :: "nat \<Rightarrow> string \<Rightarrow> string op" where
  "fmt n s = olift (rbind (sprintf (replicate n NUL) s) (\<lambda>_. ok s))"

definition cstring :: "buf \<Rightarrow> string op" where
  "cstring b = olift (str_of b)"

definition find_reg :: "int \<Rightarrow> buf option \<Rightarrow> int \<Rightarrow> nat op" where
  "find_reg n uid k w = map_option (\<lambda>r. rbind r (\<lambda>p. ok (p, w))) (FindRegisterUserOrIotNode (wd_store w) n uid k)"

definition find_online :: "int \<Rightarrow> buf option \<Rightarrow> int \<Rightarrow> nat op" where
  "find_online n uid k w = map_option (\<lambda>r. rbind r (\<lambda>p. ok (p, w))) (FindOnlineUserOrIot (wd_store w) n uid k)"

definition check_id :: "int \<Rightarrow> CLN \<Rightarrow> int op" where
  "check_id n a w = map_option (\<lambda>r. rbind r (\<lambda>c. ok (c, w))) (Check_Id_Pwd (wd_store w) n a)"

definition new_online :: "CLN \<Rightarrow> int op" where
  "new_online a w = Some (rbind (newOnlineUserOrIotDev (wd_mal w (wd_mc w)) (wd_junk w (wd_mc w)) a (wd_store w))
     (\<lambda>(r, st). ok (r, w\<lparr>wd_store := st, wd_mc := wd_mc w + 1\<rparr>)))"

definition add_local :: "CLN \<Rightarrow> int op" where
  "add_local a w = Some (rbind (AddtoLocal (wd_mal w (wd_mc w)) a (wd_store w))
     (\<lambda>(r, st). ok (r, w\<lparr>wd_store := st, wd_mc := wd_mc w + 1\<rparr>)))"

definition delete_user :: "CLN \<Rightarrow> int op" where
  "delete_user a w = map_option (\<lambda>r. rbind r (\<lambda>(c, st). ok (c, w\<lparr>wd_store := st\<rparr>))) (delete_out_user a (wd_store w))"

definition first_node :: "lst \<Rightarrow> nat op" where
  "first_node l w = oret (h_next (UserList.head (wd_store w) l)) w"

text \<open>What an uninitialised local structure holds.\<close>

definition uninit_cln :: "CLN op" where
  "uninit_cln w = oret (wd_stack w) w"

definition uninit_pkt :: "buf op" where
  "uninit_pkt w = oret (wd_pkt w) w"

text \<open>The mutex of a list head: locking a locked mutex does not return.\<close>

definition lock_head :: "lst \<Rightarrow> unit op" where
  "lock_head l w = (if wd_mute w l then None else oret () (w\<lparr>wd_mute := (wd_mute w)(l := True)\<rparr>))"

definition unlock_head :: "lst \<Rightarrow> unit op" where
  "unlock_head l w = oret () (w\<lparr>wd_mute := (wd_mute w)(l := False)\<rparr>)"

definition user_at :: "nat \<Rightarrow> user op" where
  "user_at p w = olift (deref (heap (wd_store w)) p) w"

definition deref_conn :: "nat \<Rightarrow> CLN op" where
  "deref_conn p w =
     (if p = 0 then ofault NullDeref w
      else case wd_conns w p of None \<Rightarrow> ofault UseAfterFree w | Some c \<Rightarrow> oret c w)"

definition set_conn :: "nat \<Rightarrow> CLN \<Rightarrow> unit op" where
  "set_conn p c w = oret () (w\<lparr>wd_conns := (wd_conns w)(p \<mapsto> c)\<rparr>)"

definition upd_conn :: "nat \<Rightarrow> (CLN \<Rightarrow> CLN) \<Rightarrow> unit op" where
  "upd_conn q f = obind (deref_conn q) (\<lambda>c. set_conn q (f c))"

text \<open>\<open>SyncSend\<close> with the mutex of the connection at \<open>p\<close>.\<close>

definition SyncSend :: "nat \<Rightarrow> buf \<Rightarrow> nat \<Rightarrow> int op" where
  "SyncSend sock b p = obind (deref_conn p) (\<lambda>_ w.
     oret (wd_net w (length (wd_sent w))) (w\<lparr>wd_sent := wd_sent w @ [(sock, b)]\<rparr>))"

definition closesocket :: "nat \<Rightarrow> unit op" where
  "closesocket sock w = oret () (w\<lparr>wd_closed := wd_closed w @ [sock]\<rparr>)"

text \<open>
  \<open>mysql_store_result\<close> and the first \<open>mysql_fetch_row\<close>: the pointer is used without a test. What the library
  does with a null pointer is not documented; it is a fault here.
\<close>

definition fetch_rows :: "qres \<Rightarrow> string option list list op" where
  "fetch_rows r = (if q_null r then ofault NullDeref else oret (q_rows r))"

text \<open>A column of a result row: reading beyond the row, or a NULL column where text is needed, is a fault.\<close>

definition col :: "string option list \<Rightarrow> nat \<Rightarrow> string op" where
  "col row i =
     (if length row \<le> i then ofault OutOfBounds
      else case row ! i of None \<Rightarrow> ofault NullDeref | Some s \<Rightarrow> oret (cstr s))"

section \<open>Numbers as text\<close>

function dec_nat :: "nat \<Rightarrow> string" where
  "dec_nat n = (if n < 10 then [char_of (48 + n)] else dec_nat (n div 10) @ [char_of (48 + n mod 10)])"
  by pat_completeness auto
termination
  by (relation "measure id") auto

declare dec_nat.simps [simp del]

definition dec_int :: "int \<Rightarrow> string" where
  "dec_int i = (if i < 0 then CHR ''-'' # dec_nat (nat (- i)) else dec_nat (nat i))"

fun atoi_digits :: "int \<Rightarrow> string \<Rightarrow> int" where
  "atoi_digits acc [] = acc"
| "atoi_digits acc (c # cs) =
     (if 48 \<le> (of_char c :: nat) \<and> (of_char c :: nat) \<le> 57
      then atoi_digits (i32 (acc * 10 + (of_char c - 48))) cs else acc)"

fun atoi :: "string \<Rightarrow> int" where
  "atoi [] = 0"
| "atoi (c # cs) =
     (if c = CHR '' '' then atoi cs
      else if c = CHR ''-'' then - atoi_digits 0 cs
      else if c = CHR ''+'' then atoi_digits 0 cs
      else atoi_digits 0 (c # cs))"

text \<open>\<open>strstr(h, n) != NULL\<close>\<close>

fun strstr :: "string \<Rightarrow> string \<Rightarrow> bool" where
  "strstr [] n = (n = [])"
| "strstr (c # cs) n = (take (length n) (c # cs) = n \<or> strstr cs n)"

lemma dec_nat_digits: "c \<in> set (dec_nat n) \<Longrightarrow> 48 \<le> (of_char c :: nat) \<and> (of_char c :: nat) \<le> 57"
proof (induction n rule: dec_nat.induct)
  case (1 n)
  have d: "(of_char (char_of (48 + k) :: char) :: nat) = 48 + k" if "k < 10" for k :: nat
    using that by (simp add: of_char_of)
  show ?case
  proof (cases "n < 10")
    case True
    then show ?thesis using "1.prems" d [of n] by (auto simp: dec_nat.simps [of n])
  next
    case False
    then have "c \<in> set (dec_nat (n div 10)) \<or> c = char_of (48 + n mod 10)"
      using "1.prems" by (auto simp: dec_nat.simps [of n])
    then show ?thesis using "1.IH" False d [of "n mod 10"] by auto
  qed
qed

lemma dec_int_no_NUL: "NUL \<notin> set (dec_int i)"
  using dec_nat_digits [of NUL "nat i"] dec_nat_digits [of NUL "nat (- i)"] by (auto simp: dec_int_def)

lemma length_dec_nat: "n < 10 ^ Suc k \<Longrightarrow> length (dec_nat n) \<le> Suc k"
proof (induction k arbitrary: n)
  case 0
  then show ?case by (simp add: dec_nat.simps [of n])
next
  case (Suc k)
  show ?case
  proof (cases "n < 10")
    case True
    then show ?thesis by (simp add: dec_nat.simps [of n])
  next
    case False
    have "n div 10 < 10 ^ Suc k" using Suc.prems by (simp add: less_mult_imp_div_less)
    from Suc.IH [OF this] False show ?thesis by (simp add: dec_nat.simps [of n])
  qed
qed

text \<open>An \<open>int\<close> prints in at most 11 characters.\<close>

lemma length_dec_int: "- (2 ^ 31) \<le> i \<Longrightarrow> i < 2 ^ 31 \<Longrightarrow> length (dec_int i) \<le> 11"
proof -
  assume i: "- (2 ^ 31) \<le> i" "i < 2 ^ 31"
  then have "nat i < 10 ^ Suc 9" "nat (- i) < 10 ^ Suc 9" by auto
  from length_dec_nat [OF this(1)] length_dec_nat [OF this(2)] show ?thesis by (auto simp: dec_int_def)
qed


section \<open>Operations that give their connection back\<close>

text \<open>
  The state in order: the pool is running, whatever the MySQL server does with its connections, and the
  lists are well-formed. \<open>balanced m\<close>: when \<open>m\<close> returns, the state is in order and exactly the
  connections held before are held. \<open>releasing k m\<close>: the same, except that connection \<open>k\<close> is not held.
\<close>

definition wok :: "world \<Rightarrow> bool" where
  "wok w = (running (wd_sql w) \<and> (\<exists>L. store_rel (wd_store w) L))"

abbreviation wheld :: "world \<Rightarrow> nat set" where
  "wheld w \<equiv> held (wd_sql w)"

definition balanced :: "'a op \<Rightarrow> bool" where
  "balanced m = (\<forall>w x w'. wok w \<longrightarrow> m w = Some (Inr (x, w')) \<longrightarrow> wok w' \<and> wheld w' = wheld w)"

definition releasing :: "nat \<Rightarrow> 'a op \<Rightarrow> bool" where
  "releasing k m = (\<forall>w x w'. wok w \<longrightarrow> m w = Some (Inr (x, w')) \<longrightarrow> wok w' \<and> wheld w' = wheld w - {k})"

named_theorems balance \<open>rules for balanced and releasing operations\<close>

lemma obind_Inr: "obind m f w = Some (Inr (y, w'')) \<longleftrightarrow> (\<exists>x w'. m w = Some (Inr (x, w')) \<and> f x w' = Some (Inr (y, w'')))"
  by (auto simp: obind_def split: option.splits sum.splits)

lemma obind_step: "m w = Some (Inr (x, w')) \<Longrightarrow> obind m f w = f x w'"
  by (simp add: obind_def)

lemma balanced_oret [balance]: "balanced (oret x)"
  by (simp add: balanced_def oret_def)

lemma balanced_ofault [balance]: "balanced (ofault e)" "releasing k (ofault e)"
  by (simp_all add: balanced_def releasing_def ofault_def)

lemma balanced_olift [balance]: "balanced (olift r)"
  by (cases r) (simp_all add: balanced_def olift_def)

lemma balanced_obind [balance]:
  assumes "balanced m" and "\<And>x. balanced (f x)"
  shows "balanced (obind m f)"
  using assms unfolding balanced_def obind_Inr by metis

lemma releasing_obind [balance]:
  assumes "balanced m" and "\<And>x. releasing k (f x)"
  shows "releasing k (obind m f)"
  using assms unfolding balanced_def releasing_def obind_Inr by metis

lemma balanced_if [balance]: "balanced a \<Longrightarrow> balanced b \<Longrightarrow> balanced (if c then a else b)"
  by simp

lemma releasing_if [balance]: "releasing k a \<Longrightarrow> releasing k b \<Longrightarrow> releasing k (if c then a else b)"
  by simp

lemma balanced_option [balance]:
  "balanced a \<Longrightarrow> (\<And>x. balanced (b x)) \<Longrightarrow> balanced (case v of None \<Rightarrow> a | Some x \<Rightarrow> b x)"
  by (cases v) simp_all

lemma releasing_option [balance]:
  "releasing k a \<Longrightarrow> (\<And>x. releasing k (b x)) \<Longrightarrow> releasing k (case v of None \<Rightarrow> a | Some x \<Rightarrow> b x)"
  by (cases v) simp_all

lemma balanced_with_conn [balance]:
  assumes "\<And>k. releasing k (body k)"
  shows "balanced (with_conn none body)"
  unfolding balanced_def
proof (intro allI impI)
  fix w x w'
  assume w: "wok w" and r: "with_conn none body w = Some (Inr (x, w'))"
  then have h: "running (wd_sql w)" and L: "\<exists>L. store_rel (wd_store w) L" by (auto simp: wok_def)
  obtain c s where g: "sql_get (wd_sql w) = Inr (c, s)" using rp.acquire_total [OF h] by blast
  let ?w = "w\<lparr>wd_sql := s\<rparr>"
  have dg: "db_get w = Some (Inr (c, ?w))" using g by (simp add: db_get_def)
  show "wok w' \<and> wheld w' = wheld w"
  proof (cases c)
    case None
    then have "w' = ?w" using r dg by (simp add: with_conn_def obind_def oret_def)
    then show ?thesis using rp.acquire_none [OF h] g None L by (simp add: wok_def)
  next
    case (Some k)
    then have b: "body k ?w = Some (Inr (x, w'))" using r dg by (simp add: with_conn_def obind_def)
    have "wok ?w" using rp.acquire_inv [OF h g] L by (simp add: wok_def)
    with assms [of k] b have "wok w'" "wheld w' = wheld ?w - {k}" unfolding releasing_def by blast+
    then show ?thesis using rp.acquire_minus [OF h] g Some by simp
  qed
qed

lemma releasing_then [balance]:
  assumes "balanced m" shows "releasing k (release_then k m)"
  unfolding releasing_def
proof (intro allI impI)
  fix w x w'
  assume w: "wok w" and r: "release_then k m w = Some (Inr (x, w'))"
  let ?w = "w\<lparr>wd_sql := sql_release (wd_sql w) k\<rparr>"
  have "m ?w = Some (Inr (x, w'))" using r by (simp add: release_then_def obind_def db_release_def)
  moreover have "wok ?w" "wheld ?w = wheld w - {k}"
    using w rp.release_held [of "wd_sql w" k] by (auto simp: wok_def)
  ultimately show "wok w' \<and> wheld w' = wheld w - {k}" using assms unfolding balanced_def by blast
qed

lemma balanced_prims [balance]:
  "balanced (db_query q)" "balanced (fmt len s)" "balanced (cstring b)" "balanced (find_reg n uid k)"
  "balanced (find_online n uid k)" "balanced (user_at p)" "balanced (deref_conn p)" "balanced (set_conn p c)"
  "balanced (SyncSend sock b p)" "balanced (closesocket sock)" "balanced (col row i)" "balanced (fetch_rows r)"
  by (auto simp: balanced_def db_query_def fmt_def olift_def cstring_def find_reg_def find_online_def user_at_def
      deref_conn_def set_conn_def SyncSend_def closesocket_def col_def fetch_rows_def oret_def ofault_def obind_def wok_def
      rbind_eq_Inr split: if_splits option.splits sum.splits)

end
