(* ===== verification/DbOps.thy ===== *)
theory DbOps
  imports Db Cipher
begin

text \<open>
  The database operations of src/src, one definition per function: new friends, devices, scenes,
  commands and messages, deletions, queries whose rows are sent to the client, status updates and
  registration records. Every operation formats its SQL text into a local array (a fault when it does
  not fit), takes a connection from the pool, sends the text, and gives the connection back.
\<close>

section \<open>Text\<close>

abbreviation sq :: string where
  "sq \<equiv> [CHR 0x27]"

abbreviation comma :: string where
  "comma \<equiv> sq @ '', '' @ sq"

definition HC :: char where
  "HC = CHR 0x0A"

definition failed :: "qres \<Rightarrow> bool" where
  "failed r = (q_err r \<noteq> None)"

definition err_has :: "qres \<Rightarrow> string \<Rightarrow> bool" where
  "err_has r s = (case q_err r of None \<Rightarrow> False | Some e \<Rightarrow> strstr e s)"

section \<open>Insertions, updates and deletions\<close>

definition update_sql :: "int \<Rightarrow> int \<Rightarrow> int \<Rightarrow> string" where
  "update_sql uid idx flag =
     (let wh = '' WHERE `iotserverinfo`.`userId` = '' @ dec_int uid in
      if idx = 1 then ''UPDATE `iotserverinfo` SET `FriendRelUpdateTime` = CURRENT_TIME()'' @ wh
      else if idx = 2 then ''UPDATE `iotserverinfo` SET `IotRelUpdateTime` = CURRENT_TIME()'' @ wh
      else if idx = 3 then ''UPDATE `iotserverinfo` SET `MsgRecUpdateTime` = CURRENT_TIME()'' @ wh
      else if idx = 4 then ''UPDATE `iotserverinfo` SET `IsRegisterRecord` = '' @ dec_int flag @ wh
      else [])"

definition UpdateSqlInfoTimestamp :: "int \<Rightarrow> int \<Rightarrow> int \<Rightarrow> int op" where
  "UpdateSqlInfoTimestamp uid idx flag =
     obind (fmt 200 (update_sql uid idx flag)) (\<lambda>q.
     with_conn 0 (\<lambda>k.
     obind (db_query q) (\<lambda>r. if failed r then release_then k (oret (-1)) else release_then k (oret 1))))"

text \<open>The key of a registered user or device, or \<open>None\<close> if there is none.\<close>

definition reg_key :: "int \<Rightarrow> buf \<Rightarrow> int option op" where
  "reg_key n uid = obind (find_reg n (Some uid) 0) (\<lambda>p.
     if p = 0 then oret None else obind (user_at p) (\<lambda>u. oret (Some (u_USERKEY_ID u))))"

definition friend_sql :: "int \<Rightarrow> int \<Rightarrow> string" where
  "friend_sql u f = ''INSERT INTO `userrelationship` (`userId`, `friendId`, `RelCreateDate`) VALUES ('' @ sq
     @ dec_int u @ comma @ dec_int f @ sq @ '', '' @ ''CURRENT_TIMESTAMP)''"

definition NewUserFriend :: "CLN \<Rightarrow> int \<Rightarrow> int op" where
  "NewUserFriend a friendId =
     obind (if friendId = 0 then reg_key 0 (TalktoID a) else oret (Some friendId)) (\<lambda>f.
     case f of None \<Rightarrow> oret 0
     | Some fid \<Rightarrow>
        obind (fmt 150 (friend_sql (USERKEY_ID a) fid)) (\<lambda>q.
        with_conn 0 (\<lambda>k.
        obind (db_query q) (\<lambda>r.
          if failed r then release_then k (oret 0)
          else obind (UpdateSqlInfoTimestamp (USERKEY_ID a) 1 0) (\<lambda>_. release_then k (oret 1))))))"

definition iot_sql :: "int \<Rightarrow> int \<Rightarrow> string" where
  "iot_sql u i = ''INSERT INTO `iotrelationship` (`userId`, `iotId`, `bondDate`) VALUES ('' @ sq
     @ dec_int u @ comma @ dec_int i @ sq @ '', '' @ ''CURRENT_TIMESTAMP)''"

definition NewUserIot :: "CLN \<Rightarrow> int \<Rightarrow> int op" where
  "NewUserIot a iotId =
     obind (if iotId = 0 then reg_key 10 (TalktoID a) else oret (Some iotId)) (\<lambda>f.
     case f of None \<Rightarrow> oret 0
     | Some iid \<Rightarrow>
        obind (fmt 150 (iot_sql (USERKEY_ID a) iid)) (\<lambda>q.
        with_conn 0 (\<lambda>k.
        obind (db_query q) (\<lambda>r.
          if failed r then release_then k (oret 0)
          else obind (UpdateSqlInfoTimestamp (USERKEY_ID a) 2 0) (\<lambda>_. release_then k (oret 1))))))"

definition scene_sql :: "int \<Rightarrow> int \<Rightarrow> string \<Rightarrow> int \<Rightarrow> string \<Rightarrow> string \<Rightarrow> int \<Rightarrow> int \<Rightarrow> string" where
  "scene_sql iot cls cmd status tm ed grp u =
     ''INSERT INTO `userscenecmd` (`iotid`, `devClass`, `cmdContent`, `status`, `CmdTime`, `ExeDate`, `CmdGroup`, `fromUserId`) VALUES ('' @ sq
     @ dec_int iot @ comma @ dec_int cls @ comma @ cmd @ comma @ dec_int status @ comma @ tm @ comma @ ed
     @ comma @ dec_int grp @ comma @ dec_int u @ sq @ '')''"

definition NewUserSceneCmdStore :: "CLN \<Rightarrow> string \<Rightarrow> int \<Rightarrow> int \<Rightarrow> int \<Rightarrow> string \<Rightarrow> string \<Rightarrow> int op" where
  "NewUserSceneCmdStore a Cmd status devclass cmdGroup TimeStamp ExeDate =
     obind (reg_key 10 (TalktoID a)) (\<lambda>f.
     case f of None \<Rightarrow> oret 0
     | Some iot \<Rightarrow>
        obind (fmt 300 (scene_sql iot devclass Cmd status TimeStamp ExeDate cmdGroup (USERKEY_ID a))) (\<lambda>q.
        with_conn 0 (\<lambda>k.
        obind (db_query q) (\<lambda>r. if failed r then release_then k (oret 0) else release_then k (oret 1)))))"

definition cmd_sql :: "int \<Rightarrow> int \<Rightarrow> int \<Rightarrow> string \<Rightarrow> int \<Rightarrow> string \<Rightarrow> string" where
  "cmd_sql iot cls status cmd u tm =
     ''INSERT INTO `iotcmd` (`iotid`, `class`, `status`, `cmd`, `fromid`, `cmdDate`, `cmdStatus`) VALUES ('' @ sq
     @ dec_int iot @ comma @ dec_int cls @ comma @ dec_int status @ comma @ cmd @ comma @ dec_int u
     @ sq @ '','' @ sq @ tm @ comma @ ''0'' @ sq @ '')''"

text \<open>The node is used without a test: an unknown device is a null dereference.\<close>

definition NewIotCmdToBeExecute :: "CLN \<Rightarrow> string \<Rightarrow> int \<Rightarrow> int \<Rightarrow> string \<Rightarrow> int op" where
  "NewIotCmdToBeExecute a cmd Devclass status tm =
     obind (find_reg 10 (Some (TalktoID a)) 0) (\<lambda>p.
     obind (user_at p) (\<lambda>u.
     obind (fmt 200 (cmd_sql (u_USERKEY_ID u) Devclass status cmd (USERKEY_ID a) tm)) (\<lambda>q.
     with_conn 0 (\<lambda>k.
     obind (db_query q) (\<lambda>r. if failed r then release_then k (oret 0) else release_then k (oret 1))))))"

definition today :: "string op" where
  "today w = obind (fmt 20 (wd_today w)) oret w"

definition msg_sql :: "string \<Rightarrow> int \<Rightarrow> int \<Rightarrow> string \<Rightarrow> string" where
  "msg_sql day u to_id content = ''INSERT INTO `'' @ day @ ''` (`userId`, `friendId`, `Content`, `SendDate`) VALUES ('' @ sq
     @ dec_int u @ comma @ dec_int to_id @ comma @ content @ sq @ '', '' @ ''CURRENT_TIMESTAMP)''"

definition NewUserMsgStorage :: "CLN \<Rightarrow> int \<Rightarrow> int op" where
  "NewUserMsgStorage a ToId =
     obind today (\<lambda>day.
     obind (cstring (data a)) (\<lambda>d.
     obind (fmt 700 (msg_sql day (USERKEY_ID a) ToId d)) (\<lambda>q.
     with_conn 0 (\<lambda>k.
     obind (db_query q) (\<lambda>r.
       if failed r then release_then k (oret 0)
       else obind (UpdateSqlInfoTimestamp (USERKEY_ID a) 3 0) (\<lambda>_. release_then k (oret 1)))))))"

definition table_sql :: "string \<Rightarrow> string" where
  "table_sql day = ''CREATE TABLE `iotserver`.`'' @ day @ ''` ( `userId` INT UNSIGNED NOT NULL , `friendId` INT UNSIGNED NOT NULL , `Content` TEXT NOT NULL , `SendDate` TIMESTAMP NOT NULL DEFAULT CURRENT_TIMESTAMP ) ENGINE = InnoDB''"

definition NewUserMsgTableInSQL :: "int op" where
  "NewUserMsgTableInSQL =
     obind today (\<lambda>day.
     obind (fmt 300 (table_sql day)) (\<lambda>q.
     with_conn 0 (\<lambda>k.
     obind (db_query q) (\<lambda>r.
       if failed r then if err_has r ''already'' then release_then k (oret (-1)) else release_then k (oret 0)
       else release_then k (oret 1)))))"

definition UserDeleteSce :: "CLN \<Rightarrow> int \<Rightarrow> int op" where
  "UserDeleteSce a iotid =
     obind (fmt 100 (''DELETE FROM `userscenecmd` WHERE `userscenecmd`.`iotid`  = '' @ dec_int iotid)) (\<lambda>q.
     with_conn 0 (\<lambda>k.
     obind (db_query q) (\<lambda>r. if failed r then release_then k (oret 0) else release_then k (oret 1))))"

definition evt_insert_sql :: "int \<Rightarrow> int \<Rightarrow> int \<Rightarrow> string \<Rightarrow> string" where
  "evt_insert_sql u cls status d =
     ''INSERT INTO `iotevtcache` (`iotId`, `evtClass`, `status`, `content`, `updateDate`) VALUES ('' @ sq
     @ dec_int u @ comma @ dec_int cls @ comma @ dec_int status @ comma @ d @ sq @ '', CURRENT_TIMESTAMP)''"

definition evt_update_sql :: "int \<Rightarrow> int \<Rightarrow> int \<Rightarrow> string \<Rightarrow> string" where
  "evt_update_sql u cls status d =
     ''UPDATE `iotevtcache` SET `status` = '' @ sq @ dec_int status @ sq @ '', `content` = '' @ sq @ d
     @ sq @ '', `updateDate` = CURRENT_TIME() WHERE `iotevtcache`.`iotId` = '' @ dec_int u
     @ '' AND `iotevtcache`.`evtClass` =  '' @ dec_int cls"

definition IotUpdateStatus :: "CLN \<Rightarrow> int \<Rightarrow> int \<Rightarrow> int op" where
  "IotUpdateStatus a EvtClass status =
     obind (cstring (data a)) (\<lambda>d.
     obind (fmt 800 (evt_insert_sql (USERKEY_ID a) EvtClass status d)) (\<lambda>ins.
     obind (fmt 800 (evt_update_sql (USERKEY_ID a) EvtClass status d)) (\<lambda>upd.
     with_conn 0 (\<lambda>k.
     obind (db_query ins) (\<lambda>r.
       if failed r
       then if \<not> err_has r ''Duplicate'' then release_then k (oret 0)
            else release_then k (with_conn 0 (\<lambda>k'.
                   obind (db_query upd) (\<lambda>r'.
                     if q_affected r' = 0 then release_then k' (oret 0) else release_then k' (oret 1))))
       else release_then k (oret 1))))))"

section \<open>Registration records\<close>

definition user_sql :: "string \<Rightarrow> string \<Rightarrow> string \<Rightarrow> string \<Rightarrow> string" where
  "user_sql uid nick pw d =
     ''INSERT INTO user (id, userId, nickName, passWord, email, registDate) VALUES (NULL, '' @ sq
     @ uid @ comma @ nick @ comma @ pw @ comma @ d @ sq @ '', '' @ ''CURRENT_TIMESTAMP)''"

definition info_sql :: string where
  "info_sql = ''INSERT INTO `iotserverinfo` (`userId`, `FriendRelUpdateTime`, `IotRelUpdateTime`, `MsgRecUpdateTime`, `IsRegisterRecord`) VALUES (NULL,CURRENT_TIMESTAMP, CURRENT_TIMESTAMP, CURRENT_TIMESTAMP, '' @ sq @ dec_int 0 @ sq @ '')''"

text \<open>On success the connection is not given back.\<close>

definition UserRegiter :: "CLN \<Rightarrow> int op" where
  "UserRegiter a =
     obind (cstring (USERID a)) (\<lambda>uid.
     obind (cstring (info a)) (\<lambda>nick.
     obind (cstring (USERPASSWORD a)) (\<lambda>pw.
     obind (cstring (data a)) (\<lambda>d.
     obind (fmt 800 (user_sql uid nick pw d)) (\<lambda>q.
     with_conn 0 (\<lambda>k.
     obind (db_query q) (\<lambda>r.
       if failed r then release_then k (oret (-1))
       else obind (fmt 800 info_sql) (\<lambda>q1.
            obind (db_query q1) (\<lambda>r1.
              if failed r1 then release_then k (oret (-1)) else oret 1)))))))))"

definition node_sql :: "string \<Rightarrow> int \<Rightarrow> string \<Rightarrow> string" where
  "node_sql uid cls pw =
     ''INSERT INTO `iotnode` (`id`, `pinCode`, `deviceClass`, `openId`, `RegistDate`) VALUES (NULL, '' @ sq
     @ uid @ comma @ dec_int cls @ comma @ pw @ sq @ '', '' @ ''CURRENT_TIMESTAMP)''"

definition IotRegister :: "CLN \<Rightarrow> int \<Rightarrow> int op" where
  "IotRegister a DevClass =
     obind (cstring (USERID a)) (\<lambda>uid.
     obind (cstring (USERPASSWORD a)) (\<lambda>pw.
     obind (fmt 200 (node_sql uid DevClass pw)) (\<lambda>q.
     with_conn 0 (\<lambda>k.
     obind (db_query q) (\<lambda>r.
       if failed r \<and> \<not> err_has r ''Duplicate'' then release_then k (oret (-1))
       else release_then k (oret 1))))))"


section \<open>Queries whose rows are sent\<close>

definition zero_packet :: UserPacketInterface where
  "zero_packet = \<lparr>pk_checkcode = replicate 18 NUL, pk_USERID = replicate 12 NUL, pk_USERPASSWORD = replicate 33 NUL,
     pk_TalktoID = replicate 12 NUL, pk_REUSERPASSWORD = replicate 33 NUL, pk_DATA = replicate 513 NUL,
     pk_save = replicate 100 NUL\<rparr>"

text \<open>
  The packet of the rows: the tag, the partner and the user as strings copied over what the structure
  already holds.
\<close>

definition pk_head :: "UserPacketInterface \<Rightarrow> string \<Rightarrow> string \<Rightarrow> string \<Rightarrow> UserPacketInterface op" where
  "pk_head pk tag talkto uid =
     obind (olift (sprintf (pk_checkcode pk) tag)) (\<lambda>c.
     obind (olift (sprintf (pk_TalktoID pk) talkto)) (\<lambda>t.
     obind (olift (sprintf (pk_USERID pk) uid)) (\<lambda>u.
       oret (pk\<lparr>pk_checkcode := c, pk_TalktoID := t, pk_USERID := u\<rparr>))))"

definition pk_set_save :: "UserPacketInterface \<Rightarrow> string \<Rightarrow> UserPacketInterface op" where
  "pk_set_save pk s = obind (olift (sprintf (pk_save pk) s)) (\<lambda>v. oret (pk\<lparr>pk_save := v\<rparr>))"

definition pk_set_data :: "UserPacketInterface \<Rightarrow> string \<Rightarrow> UserPacketInterface op" where
  "pk_set_data pk s = obind (olift (sprintf (pk_DATA pk) s)) (\<lambda>v. oret (pk\<lparr>pk_DATA := v\<rparr>))"

definition pk_mark :: "UserPacketInterface \<Rightarrow> UserPacketInterface" where
  "pk_mark pk = pk\<lparr>pk_save := (pk_save pk)[99 := HC]\<rparr>"

text \<open>Sends \<open>b\<close>; after a failed send the socket is closed, connection \<open>k\<close> is given back and the result is 0.\<close>

definition send_row :: "CLN \<Rightarrow> nat \<Rightarrow> buf \<Rightarrow> int op \<Rightarrow> int op" where
  "send_row a k b rest =
     obind (SyncSend (SOCKET a) b (conn a)) (\<lambda>len.
       if len = -1 \<or> len = 0 then obind (closesocket (SOCKET a)) (\<lambda>_. release_then k (oret 0)) else rest)"

fun iot_rows :: "CLN \<Rightarrow> nat \<Rightarrow> UserPacketInterface \<Rightarrow> string option list list \<Rightarrow> int op" where
  "iot_rows a k pk [] = release_then k (oret 1)"
| "iot_rows a k pk (row # rows) =
     obind (col row 4) (\<lambda>d.
     obind (pk_set_save pk d) (\<lambda>pk1.
     obind (col row 1) (\<lambda>r1. obind (col row 2) (\<lambda>r2. obind (col row 3) (\<lambda>r3.
     obind (pk_set_data (pk_mark pk1) (dec_int (atoi r1) @ ''_'' @ dec_int (atoi r2) @ ''_'' @ r3 @ ''_'' @ d @ ''_'')) (\<lambda>pk2.
       send_row a k (user_packet_bytes pk2) (\<lambda>w. iot_rows a k pk2 rows w)))))))"

definition UserGetIotData :: "CLN \<Rightarrow> int op" where
  "UserGetIotData a =
     obind (find_reg 10 (Some (TalktoID a)) 0) (\<lambda>p.
     obind (user_at p) (\<lambda>u.
     obind (fmt 100 (''SELECT * FROM `iotevtcache` WHERE `iotId` ='' @ dec_int (u_USERKEY_ID u))) (\<lambda>q.
     with_conn 0 (\<lambda>k.
     obind (db_query q) (\<lambda>r.
       if failed r then release_then k (oret 0)
       else obind (cstring (TalktoID a)) (\<lambda>t.
            obind (cstring (USERID a)) (\<lambda>i.
            obind (pk_head zero_packet ''IOT'' t i) (\<lambda>pk. obind (fetch_rows r) (iot_rows a k pk)))))))))"

fun friend_rows :: "CLN \<Rightarrow> nat \<Rightarrow> string option list list \<Rightarrow> int op" where
  "friend_rows a k [] = release_then k (oret 1)"
| "friend_rows a k (row # rows) =
     obind (col row 1) (\<lambda>r1.
     obind (find_reg 0 None (atoi r1)) (\<lambda>p.
       if p = 0 then release_then k (oret 0)
       else obind (user_at p) (\<lambda>u.
            obind (cstring (u_USERID u)) (\<lambda>t.
            obind (cstring (USERID a)) (\<lambda>i.
            obind (pk_head zero_packet ''RCO'' t i) (\<lambda>pk.
            obind (col row 2) (\<lambda>r2.
            obind (pk_set_save pk r2) (\<lambda>pk1.
              send_row a k (user_packet_bytes (pk_mark pk1)) (\<lambda>w. friend_rows a k rows w)))))))))"

definition UserReqFriendRel :: "CLN \<Rightarrow> int op" where
  "UserReqFriendRel a =
     obind (fmt 100 (''SELECT * FROM `userrelationship` WHERE `userId` = '' @ dec_int (USERKEY_ID a))) (\<lambda>q.
     with_conn 0 (\<lambda>k.
     obind (db_query q) (\<lambda>r.
       if failed r then release_then k (oret 0) else obind (fetch_rows r) (friend_rows a k))))"

fun iotrel_rows :: "CLN \<Rightarrow> nat \<Rightarrow> UserPacketInterface \<Rightarrow> string option list list \<Rightarrow> int op" where
  "iotrel_rows a k pk [] = release_then k (oret 1)"
| "iotrel_rows a k pk (row # rows) =
     obind (col row 1) (\<lambda>r1.
     obind (find_reg 10 None (atoi r1)) (\<lambda>p.
       if p = 0 then release_then k (oret 0)
       else obind (user_at p) (\<lambda>u.
            obind (cstring (u_USERID u)) (\<lambda>t.
            obind (olift (sprintf (pk_TalktoID pk) t)) (\<lambda>tk.
            obind (cstring (u_info u)) (\<lambda>i.
            obind (pk_set_data (pk\<lparr>pk_TalktoID := tk\<rparr>) i) (\<lambda>pk1.
            obind (col row 2) (\<lambda>r2.
            obind (pk_set_save pk1 r2) (\<lambda>pk2.
              send_row a k (user_packet_bytes (pk_mark pk2)) (\<lambda>w. iotrel_rows a k (pk_mark pk2) rows w))))))))))"

definition UserReqIotRel :: "CLN \<Rightarrow> int op" where
  "UserReqIotRel a =
     obind (fmt 100 (''SELECT * FROM `iotrelationship` WHERE `userId` = '' @ dec_int (USERKEY_ID a))) (\<lambda>q.
     with_conn 0 (\<lambda>k.
     obind (db_query q) (\<lambda>r.
       if failed r then release_then k (oret 0)
       else obind (cstring (USERID a)) (\<lambda>i.
            obind (olift (sprintf (pk_checkcode zero_packet) ''RCI'')) (\<lambda>c.
            obind (olift (sprintf (pk_USERID zero_packet) i)) (\<lambda>u.
              obind (fetch_rows r) (iotrel_rows a k (zero_packet\<lparr>pk_checkcode := c, pk_USERID := u\<rparr>))))))))"

fun msg_rows :: "CLN \<Rightarrow> nat \<Rightarrow> UserPacketInterface \<Rightarrow> string option list list \<Rightarrow> int op" where
  "msg_rows a k pk [] = release_then k (oret 1)"
| "msg_rows a k pk (row # rows) =
     obind (col row 2) (\<lambda>r2.
     obind (pk_set_data pk r2) (\<lambda>pk1.
     obind (col row 3) (\<lambda>r3.
     obind (pk_set_save pk1 r3) (\<lambda>pk2.
       send_row a k (user_packet_bytes pk2) (\<lambda>w. msg_rows a k pk2 rows w)))))"

text \<open>\<open>day\<close> is the formatted \<open>SqlTime\<close>.\<close>

definition UserRequestMessage :: "CLN \<Rightarrow> int \<Rightarrow> string \<Rightarrow> string \<Rightarrow> string \<Rightarrow> int op" where
  "UserRequestMessage a Direction DateFirst DateLast day =
     obind (fmt 20 day) (\<lambda>tn.
     obind (find_reg 0 (Some (TalktoID a)) 0) (\<lambda>p.
     obind (user_at p) (\<lambda>u.
     let f = u_USERKEY_ID u; x = (if Direction = 0 then USERKEY_ID a else f); y = (if Direction = 0 then f else USERKEY_ID a) in
     obind (fmt 200 (''SELECT * FROM `'' @ tn @ ''` WHERE `userId` = '' @ dec_int x @ '' AND `friendId` = '' @ dec_int y
            @ '' AND `SendDate` BETWEEN '' @ sq @ DateFirst @ sq @ '' AND '' @ sq @ DateLast @ sq @ '' '')) (\<lambda>q.
     obind (cstring (TalktoID a)) (\<lambda>t.
     obind (cstring (USERID a)) (\<lambda>i.
     obind (if Direction = 0 then pk_head zero_packet ''NME'' t i else pk_head zero_packet ''NME'' i t) (\<lambda>pk.
     with_conn 0 (\<lambda>k.
     obind (db_query q) (\<lambda>r.
       if failed r then release_then k (oret 0) else obind (fetch_rows r) (msg_rows a k pk))))))))))"

fun scene_rows :: "CLN \<Rightarrow> nat \<Rightarrow> string option list list \<Rightarrow> int op" where
  "scene_rows a k [] = release_then k (oret 1)"
| "scene_rows a k (row # rows) =
     obind (col row 1) (\<lambda>r1.
     obind (find_reg 10 None (atoi r1)) (\<lambda>p.
       if p = 0 then release_then k (oret 0)
       else obind (user_at p) (\<lambda>u.
            obind (cstring (u_USERID u)) (\<lambda>t.
            obind (cstring (USERID a)) (\<lambda>i.
            obind (pk_head zero_packet ''SCENE DATA'' t i) (\<lambda>pk.
            obind (col row 2) (\<lambda>c2. obind (col row 3) (\<lambda>c3. obind (col row 4) (\<lambda>c4. obind (col row 5) (\<lambda>c5.
            obind (col row 6) (\<lambda>c6. obind (col row 7) (\<lambda>c7. obind (col row 8) (\<lambda>c8.
            obind (pk_set_data pk (c2 @ ''_'' @ c3 @ ''_'' @ c4 @ ''_'' @ c5 @ ''_'' @ c6 @ ''_'' @ c7 @ ''_'' @ c8 @ ''_'')) (\<lambda>pk1.
              send_row a k (user_packet_bytes (pk_mark pk1)) (\<lambda>w. scene_rows a k rows w)))))))))))))))"

definition ReadOrDeleteUserScene :: "CLN \<Rightarrow> buf \<Rightarrow> int \<Rightarrow> int \<Rightarrow> int op" where
  "ReadOrDeleteUserScene a UserId CmdGroupId del =
     obind (find_reg 0 (Some UserId) 0) (\<lambda>p.
     obind (user_at p) (\<lambda>u.
     if del = 1
     then obind (fmt 150 (''DELETE FROM `userscenecmd` WHERE `userscenecmd`.`CmdGroup` = '' @ sq @ dec_int CmdGroupId @ sq
                 @ ''AND `userscenecmd`.`fromUserId` = '' @ sq @ dec_int (u_USERKEY_ID u) @ sq)) (\<lambda>q.
          with_conn 0 (\<lambda>k.
          obind (db_query q) (\<lambda>r. if failed r then release_then k (oret 0) else release_then k (oret 1))))
     else obind (fmt 100 (''SELECT * FROM `userscenecmd` WHERE `fromUserId` = '' @ dec_int (u_USERKEY_ID u))) (\<lambda>q.
          with_conn 0 (\<lambda>k.
          obind (db_query q) (\<lambda>r. if failed r then release_then k (oret 0) else obind (fetch_rows r) (scene_rows a k))))))"


section \<open>Queries of devices\<close>

text \<open>The result is the return value and the connection structure, whose \<open>data\<close> the function fills.\<close>

definition IotReadCmd :: "CLN \<Rightarrow> int \<Rightarrow> int \<Rightarrow> (int \<times> CLN) op" where
  "IotReadCmd a Devclass del =
     (if del = 0
      then obind (fmt 200 (''SELECT * FROM `iotcmd` WHERE `iotid` ='' @ sq @ dec_int (USERKEY_ID a) @ sq
                  @ ''AND `class` = '' @ sq @ dec_int Devclass @ sq)) (\<lambda>q.
           with_conn (0, a) (\<lambda>k.
           obind (db_query q) (\<lambda>r.
             if failed r then release_then k (oret (0, a))
             else obind (fetch_rows r) (\<lambda>rows. case rows of
                 [] \<Rightarrow> release_then k (oret (0, a))
               | row # _ \<Rightarrow>
                   obind (col row 1) (\<lambda>c1. obind (col row 2) (\<lambda>c2. obind (col row 3) (\<lambda>c3. obind (col row 4) (\<lambda>c4.
                   obind (col row 5) (\<lambda>c5.
                   obind (olift (sprintf (data a) (c1 @ ''_'' @ c2 @ ''_'' @ c3 @ ''_'' @ c4 @ ''_'' @ c5 @ ''_''))) (\<lambda>d.
                     release_then k (oret (1, a\<lparr>data := d\<rparr>)))))))))))) 
      else obind (fmt 200 (''DELETE FROM `iotcmd` WHERE `iotcmd`.`iotid` = '' @ sq @ dec_int (USERKEY_ID a) @ sq
                  @ ''AND `iotcmd`.`class` = '' @ sq @ dec_int Devclass @ sq)) (\<lambda>q.
           with_conn (0, a) (\<lambda>k.
           obind (db_query q) (\<lambda>r.
             if failed r then release_then k (oret (0, a)) else release_then k (oret (1, a))))))"

text \<open>
  The sequence number of the connection: incremented before each packet, and 1 again after 127. The
  result is the number put into the packet. \<open>SeqNum\<close> is a \<open>char\<close> that is incremented as a 32-bit word; it is
  the last member of the structure and follows an \<open>int\<close>, so that the word is the byte and the three bytes of
  padding after it. A carry out of the byte goes into the padding, which nothing reads: the byte wraps.
\<close>

definition next_seq :: "nat \<Rightarrow> char op" where
  "next_seq p = obind (deref_conn p) (\<lambda>c.
     let s = i8 (SeqNum c + 1) in
     obind (set_conn p (c\<lparr>SeqNum := (if s = 127 then 1 else s)\<rparr>)) (\<lambda>_. oret (char_of_int s)))"

text \<open>
  A device packet: operation code, sequence number, and payload encrypted in place with the PIN. The
  last byte of the packet is the end mark.
\<close>

definition iot_packet :: "string \<Rightarrow> char \<Rightarrow> buf \<Rightarrow> buf" where
  "iot_packet op sn payload = ((op @ replicate (3 - length op) NUL) @ [sn, NUL] @ payload)[204 := HC]"

definition encrypt_payload :: "buf \<Rightarrow> buf \<Rightarrow> buf op" where
  "encrypt_payload payload pin = olift (rbind (strlen payload) (\<lambda>n. Encrypt 0 (int n) pin 0 payload))"

definition iot_row_packet :: "CLN \<Rightarrow> string \<Rightarrow> string \<Rightarrow> buf op" where
  "iot_row_packet a op txt =
     obind (olift (sprintf (replicate 200 NUL) txt)) (\<lambda>pl.
     obind (encrypt_payload pl (Pin a)) (\<lambda>e.
     obind (next_seq (conn a)) (\<lambda>sn. oret (iot_packet op sn e))))"

fun selfscene_rows :: "CLN \<Rightarrow> nat \<Rightarrow> string option list list \<Rightarrow> int op" where
  "selfscene_rows a k [] = release_then k (oret 1)"
| "selfscene_rows a k (row # rows) =
     obind (col row 2) (\<lambda>c2. obind (col row 3) (\<lambda>c3. obind (col row 4) (\<lambda>c4. obind (col row 5) (\<lambda>c5.
     obind (col row 6) (\<lambda>c6. obind (col row 7) (\<lambda>c7. obind (col row 8) (\<lambda>c8.
     obind (iot_row_packet a ''06'' (c2 @ ''_'' @ c3 @ ''_'' @ c4 @ ''_'' @ c5 @ ''_'' @ c6 @ ''_'' @ c7 @ ''_'' @ c8 @ ''_'')) (\<lambda>b.
       send_row a k b (\<lambda>w. selfscene_rows a k rows w)))))))))"

definition IotReadSelfSceneCmd :: "CLN \<Rightarrow> int \<Rightarrow> int op" where
  "IotReadSelfSceneCmd a Iot_key =
     obind (fmt 100 (''SELECT * FROM `userscenecmd` WHERE `iotid` = '' @ dec_int Iot_key)) (\<lambda>q.
     with_conn 0 (\<lambda>k.
     obind (db_query q) (\<lambda>r. if failed r then release_then k (oret 0) else obind (fetch_rows r) (selfscene_rows a k))))"

fun iotdata_rows :: "CLN \<Rightarrow> nat \<Rightarrow> string option list list \<Rightarrow> int op" where
  "iotdata_rows a k [] = release_then k (oret 1)"
| "iotdata_rows a k (row # rows) =
     obind (col row 0) (\<lambda>c0. obind (col row 1) (\<lambda>c1. obind (col row 2) (\<lambda>c2. obind (col row 3) (\<lambda>c3. obind (col row 4) (\<lambda>c4.
     obind (iot_row_packet a ''07'' (dec_int (atoi c0) @ ''_'' @ dec_int (atoi c1) @ ''_'' @ dec_int (atoi c2) @ ''_'' @ c3 @ ''_'' @ c4 @ ''_'')) (\<lambda>b.
       send_row a k b (\<lambda>w. iotdata_rows a k rows w)))))))"

definition IotGetIotData :: "CLN \<Rightarrow> int \<Rightarrow> int op" where
  "IotGetIotData a ReadIotId =
     obind (fmt 100 (''SELECT * FROM `iotevtcache` WHERE `iotId` ='' @ dec_int ReadIotId)) (\<lambda>q.
     with_conn 0 (\<lambda>k.
     obind (db_query q) (\<lambda>r. if failed r then release_then k (oret 0) else obind (fetch_rows r) (iotdata_rows a k))))"

section \<open>Server information\<close>

text \<open>
  \<open>GetUpdateTimeStamp\<close> and \<open>getAppVersion\<close> read the row after \<open>mysql_free_result\<close> has freed it; an empty
  result is a null row. Both send the text with its terminating NUL.
\<close>

definition GetUpdateTimeStamp :: "int \<Rightarrow> int \<Rightarrow> string option op" where
  "GetUpdateTimeStamp UserId idx =
     obind (fmt 100 (''SELECT * FROM `iotserverinfo` WHERE `userId` = '' @ dec_int UserId)) (\<lambda>q.
     with_conn None (\<lambda>k.
     obind (db_query (q @ [NUL])) (\<lambda>r.
       if failed r then release_then k (oret None)
       else obind (fetch_rows r) (\<lambda>rows. release_then k (if rows = [] then ofault NullDeref else ofault UseAfterFree)))))"

definition getAppVersion :: "int op" where
  "getAppVersion =
     obind (fmt 100 ''SELECT * FROM `appinfo`'') (\<lambda>q.
     with_conn 0 (\<lambda>k.
     obind (db_query (q @ [NUL])) (\<lambda>r.
       if failed r then release_then k (oret 0)
       else obind (fetch_rows r) (\<lambda>rows. release_then k (if rows = [] then ofault NullDeref else ofault UseAfterFree)))))"

text \<open>The static flag \<open>isCreated\<close> is never set, so that its test has no effect.\<close>

definition CreateServerInfoInSQL :: "string \<Rightarrow> string \<Rightarrow> unit op" where
  "CreateServerInfoInSQL ServerID NetIP =
     obind (fmt 500 (''INSERT INTO `serverruninfo` (`ServerId`, `name`, `os`, `ip`, `vendor`, `UpdateTime`) VALUES ('' @ sq
            @ ServerID @ comma @ ''TEST'' @ comma @ ''WinServer'' @ comma @ NetIP @ comma @ ''aliyun'' @ sq @ '', '' @ '' CURRENT_TIMESTAMP)'')) (\<lambda>q.
     with_conn () (\<lambda>k.
     obind (db_query q) (\<lambda>r. release_then k (oret ()))))"

definition UpdateServerRunInfo :: "string \<Rightarrow> string \<Rightarrow> int \<Rightarrow> int \<Rightarrow> int \<Rightarrow> int \<Rightarrow> int \<Rightarrow> int op" where
  "UpdateServerRunInfo ServerID NetIP CpuRate Mem TaskNum OnlineUsers OnlineIots =
     obind (fmt 500 (''UPDATE `serverruninfo` SET `cpu` = '' @ sq @ dec_int CpuRate @ sq @ '', `ip` = '' @ sq @ NetIP
            @ sq @ '', `memory` = '' @ sq @ dec_int Mem @ sq @ '', `onlineUserNum` = '' @ sq @ dec_int OnlineUsers
            @ sq @ '', `onlineIotNum` = '' @ sq @ dec_int OnlineIots @ sq @ '', `TaskNum` = '' @ sq @ dec_int TaskNum
            @ sq @ '', `UpdateTime` = CURRENT_TIME() WHERE `serverruninfo`.`ServerId` = '' @ ServerID)) (\<lambda>q.
     with_conn 0 (\<lambda>k.
     obind (db_query q) (\<lambda>r. if failed r then release_then k (oret 0) else release_then k (oret 1))))"

section \<open>Every operation gives its connection back\<close>

lemma balanced_today [balance]: "balanced today"
proof -
  have "balanced (obind (fmt 20 d) oret)" for d by (intro balance)
  then show ?thesis unfolding balanced_def today_def by blast
qed

lemma balanced_reg_key [balance]: "balanced (reg_key n uid)"
  unfolding reg_key_def by (intro balance)

lemma balanced_pk [balance]:
  "balanced (pk_head pk tag t u)" "balanced (pk_set_save pk s)" "balanced (pk_set_data pk s)"
  unfolding pk_head_def pk_set_save_def pk_set_data_def by (intro balance)+

lemma releasing_send_row [balance]: "releasing k rest \<Longrightarrow> releasing k (send_row a k b rest)"
  unfolding send_row_def by (intro balance)

lemma releasing_rows [balance]:
  "releasing k (iot_rows a k pk rows)" "releasing k (friend_rows a k rows)" "releasing k (iotrel_rows a k pk rows)"
  "releasing k (msg_rows a k pk rows)" "releasing k (scene_rows a k rows)"
  by (induction rows arbitrary: pk; simp only: iot_rows.simps friend_rows.simps iotrel_rows.simps msg_rows.simps scene_rows.simps;
      intro balance; assumption?)+


lemma balanced_next_seq [balance]: "balanced (next_seq p)"
  unfolding next_seq_def Let_def by (intro balance)

lemma balanced_iot_row_packet [balance]: "balanced (iot_row_packet a op txt)"
  unfolding iot_row_packet_def encrypt_payload_def by (intro balance)

lemma releasing_iot_rows [balance]:
  "releasing k (selfscene_rows a k rows)" "releasing k (iotdata_rows a k rows)"
  by (induction rows; simp only: selfscene_rows.simps iotdata_rows.simps; intro balance; assumption?)+

lemma balanced_UpdateSqlInfoTimestamp [balance]: "balanced (UpdateSqlInfoTimestamp u i f)"
  unfolding UpdateSqlInfoTimestamp_def by (intro balance)

lemma balanced_list_case [balance]:
  "releasing k x \<Longrightarrow> (\<And>y ys. releasing k (f y ys)) \<Longrightarrow> releasing k (case l of [] \<Rightarrow> x | y # ys \<Rightarrow> f y ys)"
  by (cases l) simp_all

section \<open>Operations that always return\<close>

text \<open>
  \<open>total m Q\<close>: from every working state, \<open>m\<close> returns a value that satisfies \<open>Q\<close>, in a working state. A key
  is an \<open>int\<close> column of the database.
\<close>

definition key_ok :: "int \<Rightarrow> bool" where
  "key_ok i = (- (2 ^ 31) \<le> i \<and> i < 2 ^ 31)"

definition working :: "world \<Rightarrow> bool" where
  "working w = (healthy (wd_sql w) \<and> wok w \<and> (\<forall>p u. heap (wd_store w) p = Some u \<longrightarrow> key_ok (u_USERKEY_ID u)) \<and> length (wd_today w) = 10)"

definition total :: "'a op \<Rightarrow> ('a \<Rightarrow> bool) \<Rightarrow> bool" where
  "total m Q = (\<forall>w. working w \<longrightarrow> (\<exists>x w'. m w = Some (Inr (x, w')) \<and> working w' \<and> Q x))"

named_theorems totality \<open>rules for operations that always return\<close>

lemma total_oret [totality]: "Q x \<Longrightarrow> total (oret x) Q"
  by (simp add: total_def oret_def)

lemma total_obind:
  assumes "total m P" and "\<And>x. P x \<Longrightarrow> total (f x) Q"
  shows "total (obind m f) Q"
  unfolding total_def
proof (intro allI impI)
  fix w assume "working w"
  then obtain x w1 where "m w = Some (Inr (x, w1))" "working w1" "P x" using assms(1) unfolding total_def by blast
  moreover then obtain y w2 where "f x w1 = Some (Inr (y, w2))" "working w2" "Q y" using assms(2) unfolding total_def by blast
  ultimately show "\<exists>y w2. obind m f w = Some (Inr (y, w2)) \<and> working w2 \<and> Q y" by (auto simp: obind_def)
qed

lemma total_query: "total (db_query q) (\<lambda>_. True)"
  by (simp add: total_def db_query_def working_def wok_def)

lemma total_fmt: "length s < n \<Longrightarrow> total (fmt n s) (\<lambda>x. x = s)"
  by (simp add: total_def fmt_def olift_def sprintf_ok)

lemma total_cstring: "terminated b \<Longrightarrow> total (cstring b) (\<lambda>s. s = cstr b)"
  by (simp add: total_def cstring_def olift_def str_of_def)

lemma total_today: "total today (\<lambda>d. length d = 10)"
  by (simp add: total_def today_def obind_def fmt_def olift_def sprintf_ok oret_def working_def)

lemma total_release: assumes "total m Q" shows "total (release_then k m) Q"
  unfolding total_def
proof (intro allI impI)
  fix w assume w: "working w"
  let ?w = "w\<lparr>wd_sql := sql_release (wd_sql w) k\<rparr>"
  have "working ?w" using w release_healthy [of "wd_sql w" k] healthy_running [OF release_healthy, of "wd_sql w" k]
    by (simp add: working_def wok_def)
  then obtain x w' where "m ?w = Some (Inr (x, w'))" "working w'" "Q x" using assms unfolding total_def by blast
  then show "\<exists>x w'. release_then k m w = Some (Inr (x, w')) \<and> working w' \<and> Q x"
    by (auto simp: release_then_def obind_def db_release_def)
qed

lemma total_with_conn: assumes "Q none" and "\<And>k. total (body k) Q" shows "total (with_conn none body) Q"
  unfolding total_def
proof (intro allI impI)
  fix w assume w: "working w"
  then have h: "healthy (wd_sql w)" by (simp add: working_def)
  obtain c s where g: "sql_get (wd_sql w) = Inr (c, s)" using cp.acquire_total [OF h] by blast
  have "healthy s" by (rule cp.acquire_inv [OF h g])
  then have w': "working (w\<lparr>wd_sql := s\<rparr>)" using w healthy_running by (simp add: working_def wok_def)
  have dg: "db_get w = Some (Inr (c, w\<lparr>wd_sql := s\<rparr>))" using g by (simp add: db_get_def)
  show "\<exists>x w'. with_conn none body w = Some (Inr (x, w')) \<and> working w' \<and> Q x"
  proof (cases c)
    case None
    then show ?thesis using dg w' assms(1) by (simp add: with_conn_def obind_def oret_def)
  next
    case (Some k)
    then show ?thesis using dg w' assms(2) [of k] unfolding total_def by (auto simp: with_conn_def obind_def)
  qed
qed

lemma total_reg_key: "n = 0 \<or> n = 10 \<Longrightarrow> total (reg_key n uid) (\<lambda>r. \<forall>i. r = Some i \<longrightarrow> key_ok i)"
  unfolding total_def
proof (intro allI impI)
  fix w assume n: "n = 0 \<or> n = 10" and w: "working w"
  obtain L where L: "store_rel (wd_store w) L" using w by (auto simp: working_def wok_def)
  define l where "l = (if n = 10 then RegistedIot else RegistedUser)"
  define p where "p = first_match (node (wd_store w)) (ById uid) (L l)"
  have f: "find_reg n (Some uid) 0 w = Some (Inr (p, w))"
    using n find_in_ok [OF L] by (auto simp: find_reg_def FindRegisterUserOrIotNode_def query_of_def p_def l_def)
  show "\<exists>r w'. reg_key n uid w = Some (Inr (r, w')) \<and> working w' \<and> (\<forall>i. r = Some i \<longrightarrow> key_ok i)"
  proof (cases "p = 0")
    case True
    then show ?thesis using f w by (simp add: reg_key_def obind_def oret_def)
  next
    case False
    then have "p \<in> set (L l)" using first_match_in by (simp add: p_def)
    moreover have "chain (heap (wd_store w)) (h_next (head (wd_store w) l)) (L l)" using L by (simp add: store_rel_def)
    ultimately obtain u where u: "heap (wd_store w) p = Some u" using chain_alloc by blast
    then have "key_ok (u_USERKEY_ID u)" using w by (auto simp: working_def)
    then show ?thesis using f w u False by (simp add: reg_key_def obind_def oret_def user_at_def olift_def deref_def)
  qed
qed


lemma total_reply:
  assumes "P (0 :: int)" and "P 1"
  shows "total (obind (db_query q) (\<lambda>r. if failed r then release_then k (oret 0) else release_then k (oret 1))) P"
  using assms by (intro total_obind [OF total_query] total_release) (auto intro!: total_release total_oret)

lemma dec_key: "key_ok i \<Longrightarrow> length (dec_int i) \<le> 11"
  unfolding key_ok_def by (rule length_dec_int) auto

lemma total_UpdateSqlInfoTimestamp:
  assumes "key_ok u" and "key_ok f"
  shows "total (UpdateSqlInfoTimestamp u i f) (\<lambda>_. True)"
  unfolding UpdateSqlInfoTimestamp_def
proof (rule total_obind [OF total_fmt])
  show "length (update_sql u i f) < 200"
    using dec_key [OF assms(1)] dec_key [OF assms(2)] by (auto simp: update_sql_def Let_def)
qed (auto intro!: total_with_conn total_obind [OF total_query] total_release total_oret)

lemma total_NewUserFriend:
  assumes "key_ok (USERKEY_ID a)" and "key_ok f"
  shows "total (NewUserFriend a f) (\<lambda>r. r = 0 \<or> r = 1)"
  unfolding NewUserFriend_def
proof (rule total_obind)
  show "total (if f = 0 then reg_key 0 (TalktoID a) else oret (Some f)) (\<lambda>r. \<forall>i. r = Some i \<longrightarrow> key_ok i)"
    using assms(2) total_reg_key by (simp add: total_oret)
next
  fix r assume r: "\<forall>i. r = Some i \<longrightarrow> key_ok i"
  have z: "key_ok 0" by (simp add: key_ok_def)
  show "total (case r of None \<Rightarrow> oret 0 | Some fid \<Rightarrow> obind (fmt 150 (friend_sql (USERKEY_ID a) fid)) (\<lambda>q.
      with_conn 0 (\<lambda>k. obind (db_query q) (\<lambda>r. if failed r then release_then k (oret 0)
        else obind (UpdateSqlInfoTimestamp (USERKEY_ID a) 1 0) (\<lambda>_. release_then k (oret 1)))))) (\<lambda>r. r = 0 \<or> r = 1)"
  proof (cases r)
    case (Some i)
    have "length (friend_sql (USERKEY_ID a) i) < 150"
      using dec_key [OF assms(1)] dec_key [of i] r Some by (simp add: friend_sql_def)
    then show ?thesis using Some
      by (auto intro!: total_obind [OF total_fmt] total_with_conn total_obind [OF total_query] total_release total_oret
          total_obind [OF total_UpdateSqlInfoTimestamp [OF assms(1) z]])
  qed (simp add: total_oret)
qed

lemma total_NewUserMsgStorage:
  assumes "key_ok (USERKEY_ID a)" and "key_ok t" and "str_field 513 (data a)"
  shows "total (NewUserMsgStorage a t) (\<lambda>r. r = 0 \<or> r = 1)"
proof -
  have z: "key_ok 0" by (simp add: key_ok_def)
  have d: "terminated (data a)" "length (cstr (data a)) < 513" using str_field_terminated [OF assms(3)] by auto
  have q: "length (msg_sql day (USERKEY_ID a) t (cstr (data a))) < 700" if "length day = 10" for day
    using that d(2) dec_key [OF assms(1)] dec_key [OF assms(2)] by (simp add: msg_sql_def)
  show ?thesis unfolding NewUserMsgStorage_def
    by (rule total_obind [OF total_today], rule total_obind [OF total_cstring [OF d(1)]])
      (auto intro!: total_obind [OF total_fmt] q total_with_conn total_obind [OF total_query] total_release total_oret
        total_obind [OF total_UpdateSqlInfoTimestamp [OF assms(1) z]])
qed

lemma total_IotUpdateStatus:
  assumes "key_ok (USERKEY_ID a)" and "key_ok c" and "key_ok st" and "str_field 513 (data a)"
  shows "total (IotUpdateStatus a c st) (\<lambda>r. r = 0 \<or> r = 1)"
proof -
  have d: "terminated (data a)" "length (cstr (data a)) < 513" using str_field_terminated [OF assms(4)] by auto
  have q: "length (evt_insert_sql (USERKEY_ID a) c st (cstr (data a))) < 800"
    "length (evt_update_sql (USERKEY_ID a) c st (cstr (data a))) < 800"
    using d(2) dec_key [OF assms(1)] dec_key [OF assms(2)] dec_key [OF assms(3)]
    by (simp_all add: evt_insert_sql_def evt_update_sql_def)
  show ?thesis unfolding IotUpdateStatus_def
    by (rule total_obind [OF total_cstring [OF d(1)]])
      (auto intro!: total_obind [OF total_fmt] q total_with_conn total_obind [OF total_query] total_release total_oret)
qed

section \<open>Properties\<close>

lemma balanced_inserts:
  "balanced (NewUserFriend a f)" "balanced (NewUserIot a f)"
  "balanced (NewUserSceneCmdStore a c st cls g t e)" "balanced (NewIotCmdToBeExecute a c cls st t)"
  "balanced (NewUserMsgStorage a f)" "balanced NewUserMsgTableInSQL" "balanced (UserDeleteSce a f)"
  "balanced (IotUpdateStatus a cls st)" "balanced (IotRegister a cls)"
  unfolding NewUserFriend_def NewUserIot_def NewUserSceneCmdStore_def NewIotCmdToBeExecute_def NewUserMsgStorage_def
    NewUserMsgTableInSQL_def UserDeleteSce_def IotUpdateStatus_def IotRegister_def
  by (intro balance)+

lemma balanced_queries:
  "balanced (UserGetIotData a)" "balanced (UserReqFriendRel a)" "balanced (UserReqIotRel a)"
  "balanced (UserRequestMessage a dir d1 d2 day)" "balanced (ReadOrDeleteUserScene a uid g del)"
  "balanced (IotReadCmd a cls del)" "balanced (IotReadSelfSceneCmd a kid)" "balanced (IotGetIotData a kid)"
  "balanced (GetUpdateTimeStamp kid idx)" "balanced getAppVersion" "balanced (CreateServerInfoInSQL sid ip)"
  "balanced (UpdateServerRunInfo sid ip c1 c2 c3 c4 c5)"
  unfolding UserGetIotData_def UserReqFriendRel_def UserReqIotRel_def UserRequestMessage_def ReadOrDeleteUserScene_def
    IotReadCmd_def IotReadSelfSceneCmd_def IotGetIotData_def GetUpdateTimeStamp_def getAppVersion_def
    CreateServerInfoInSQL_def UpdateServerRunInfo_def Let_def
  by (intro balance)+

lemma balanced_at: "balanced m \<Longrightarrow> wok w \<Longrightarrow> \<forall>r w'. m w = Some (Inr (r, w')) \<longrightarrow> wok w' \<and> wheld w' = wheld w"
  by (simp add: balanced_def)

text \<open>A working state for the witnesses: a pool of two connections, one of them held, and no entries.\<close>

definition sql0 :: sqlw where
  "sql0 = \<lparr>w_env = up_env, w_sp = pool2, w_tick = 0, w_rand = (\<lambda>_. 0), w_rcount = 0\<rparr>"

definition world0 :: world where
  "world0 = \<lparr>wd_sql = sql0, wd_query = (\<lambda>_ _. \<lparr>q_err = None, q_null = False, q_rows = [[Some ''1'']], q_affected = 1\<rparr>), wd_qlog = [],
     wd_store = store0, wd_conns = (\<lambda>_. None), wd_net = (\<lambda>_. 1), wd_sent = [], wd_closed = [], wd_today = ''2020-01-01'',
     wd_mal = (\<lambda>c k. 100 * c + k + 10), wd_junk = (\<lambda>_. zero_user), wd_mc = 0, wd_mute = (\<lambda>_. False), wd_stack = empty_cln,
     wd_pkt = replicate 205 NUL, wd_rand = (\<lambda>n. int n * 17 + 5), wd_rt = 0, wd_smal = (\<lambda>_ _. True), wd_smc = 0, wd_sjunk = NUL,
     wd_md5 = (\<lambda>_. replicate 32 CHR ''0''), wd_cmds = [], wd_version = ''1.0'' @ replicate 17 NUL, wd_top = 1\<rparr>"

lemma world0_working: "working world0"
proof -
  have "healthy sql0" by (auto simp: healthy_def sql0_def pool_up_def pool2_def node0_def up_env_def less_Suc_eq numeral_2_eq_2)
  moreover have "\<exists>L. store_rel (wd_store world0) L" using store0_rel by (auto simp: world0_def)
  ultimately show ?thesis using healthy_running by (simp add: working_def wok_def world0_def store0_def)
qed

lemma world0_wok: "wok world0"
  using world0_working by (simp add: working_def)

lemma world0_healthy: "healthy (wd_sql world0)"
  using world0_working by (simp add: working_def)

lemma cln1_key: "key_ok (USERKEY_ID cln1)" "str_field 513 (data cln1)"
  using cln1_wf by (simp_all add: cln_wf_def) (simp add: cln1_def key_ok_def empty_cln_def)


text \<open>The witness runs on a pool whose free connection has been lost, and a server that does not take it back.\<close>

definition world_lost :: world where
  "world_lost = world0\<lparr>wd_sql := sql0\<lparr>w_env := \<lparr>mysql_init = (\<lambda>_. True), mysql_real_connect = (\<lambda>_. False), mysql_ping = (\<lambda>_. 1)\<rparr>,
     w_sp := pool2\<lparr>sql_pool := [node0\<lparr>lock := True\<rparr>, node0\<lparr>sql_state := DB_DISCONN\<rparr>]\<rparr>\<rparr>\<rparr>"


text \<open>
  C22: The stores of friends, messages and device states always return. From every working state, with a
  terminated payload and keys that are C integers, the statement text fits its array, nothing faults, the
  result is 0 or 1, and the state is working afterwards.
\<close>

theorem db_writes_return:
  assumes "working w" and "key_ok (USERKEY_ID a)" and "str_field 513 (data a)" and "key_ok f" and "key_ok st"
    and "m \<in> {NewUserFriend a f, NewUserMsgStorage a f, IotUpdateStatus a f st}"
  shows "\<exists>r w'. m w = Some (Inr (r, w')) \<and> (r = 0 \<or> r = 1) \<and> working w' \<and> wheld w' = wheld w"
proof -
  have "total m (\<lambda>r. r = 0 \<or> r = 1)" using assms(2-6) total_NewUserFriend total_NewUserMsgStorage total_IotUpdateStatus by blast
  then obtain r w' where r: "m w = Some (Inr (r, w'))" "r = 0 \<or> r = 1" "working w'" using assms(1) unfolding total_def by blast
  have "balanced m" using assms(6) by (auto intro: balanced_inserts)
  then have "wheld w' = wheld w" using r(1) assms(1) unfolding balanced_def working_def by blast
  then show ?thesis using r by blast
qed

theorem db_writes_return_witness:
  "\<exists>r w'. IotUpdateStatus cln1 5 1 world0 = Some (Inr (r, w')) \<and> (r = 0 \<or> r = 1) \<and> wheld w' = wheld world0"
  using db_writes_return [OF world0_working cln1_key, of 5 1 "IotUpdateStatus cln1 5 1"] by (auto simp: key_ok_def)

lemma get_Some:
  assumes "healthy (wd_sql w)" and "db_get w = Some (Inr (Some k, w1))"
  shows "k \<notin> wheld w" "wheld w1 = insert k (wheld w)"
  using assms cp.acquire_insert [of "wd_sql w"] by (auto simp: db_get_def rbind_eq_Inr)

text \<open>
  A successful \<open>UserRegiter\<close> leaks its connection. In a pool whose connections are up, whenever it returns 1, one connection that was free
  before is still locked afterwards; the other results give it back.
\<close>

theorem UserRegiter_leaks:
  assumes "healthy (wd_sql w)" and "UserRegiter a w = Some (Inr (r, w'))"
  shows "if r = 1 then \<exists>k. k \<notin> wheld w \<and> wheld w' = insert k (wheld w) else wheld w' = wheld w"
proof -
  obtain uid nick pw d q where pre: "with_conn 0 (\<lambda>k. obind (db_query q) (\<lambda>r. if failed r then release_then k (oret (-1))
      else obind (fmt 800 info_sql) (\<lambda>q1. obind (db_query q1) (\<lambda>r1.
        if failed r1 then release_then k (oret (-1)) else oret 1)))) w = Some (Inr (r, w'))"
    using assms(2) by (auto simp: UserRegiter_def obind_Inr cstring_def fmt_def olift_def rbind_eq_Inr)
  obtain c w1 where g: "db_get w = Some (Inr (c, w1))" using pre by (auto simp: with_conn_def obind_Inr)
  show ?thesis
  proof (cases c)
    case None
    then have "r = 0" "w' = w1" using pre g by (auto simp: with_conn_def obind_Inr oret_def)
    then show ?thesis using g None cp.acquire_none [OF assms(1)] by (auto simp: db_get_def rbind_eq_Inr)
  next
    case (Some k)
    have rel: "wheld (x\<lparr>wd_sql := sql_release (wd_sql w1) k\<rparr>) = wheld w" for x
    proof -
      have "healthy (wd_sql w1)" "k \<in> wheld w1"
        using g Some cp.acquire_insert [OF assms(1)] by (auto simp: db_get_def rbind_eq_Inr)
      then show ?thesis using cp.release_held [of "wd_sql w1" k] get_Some [OF assms(1), of k w1] g Some by auto
    qed
    show ?thesis using pre g Some get_Some [OF assms(1), of k w1] rel
      by (auto simp: with_conn_def obind_Inr oret_def db_query_def fmt_def olift_def rbind_eq_Inr release_then_def
          db_release_def split: if_splits)
  qed
qed

lemma fmt_ok: "length s < n \<Longrightarrow> fmt n s w = Some (Inr (s, w))"
  by (simp add: fmt_def olift_def sprintf_ok)

lemma fmt_overflow: "n \<le> length s \<Longrightarrow> fmt n s w = Some (Inl BufferOverflow)"
  by (simp add: fmt_def olift_def sprintf_def put_def wr_def)

lemma get_world0: "db_get world0 = Some (Inr (Some 1, world0\<lparr>wd_sql := sql0\<lparr>w_sp := pool2\<lparr>sql_pool := [node0\<lparr>lock := True\<rparr>,
    node0\<lparr>lock := True, used := 1\<rparr>], busy_number := 2\<rparr>, w_tick := 1, w_rcount := 1\<rparr>\<rparr>))"
  using get_pool2 by (simp add: db_get_def world0_def sql_get_def sql0_def)

lemma UserRegiter_world0: "\<exists>w'. UserRegiter cln1 world0 = Some (Inr (1, w'))"
proof -
  have "USERID cln1 = ''13800000001'' @ [NUL]" "info cln1 = replicate 100 NUL" "data cln1 = replicate 513 NUL"
    "USERPASSWORD cln1 = ''pw'' @ replicate 31 NUL" by (simp_all add: cln1_def empty_cln_def)
  then have c: "cstring (USERID cln1) world0 = Some (Inr (''13800000001'', world0))"
    "cstring (info cln1) world0 = Some (Inr ([], world0))" "cstring (data cln1) world0 = Some (Inr ([], world0))"
    "cstring (USERPASSWORD cln1) world0 = Some (Inr (''pw'', world0))"
    by (simp_all add: cstring_def olift_def str_of_def terminated_def cstr_def)
  have l: "length (user_sql ''13800000001'' [] ''pw'' []) < 800" "length info_sql < 800"
    by (simp_all add: user_sql_def info_sql_def dec_int_def dec_nat.simps)
  show ?thesis
    by (simp add: UserRegiter_def obind_def c fmt_ok l with_conn_def get_world0 db_query_def failed_def oret_def)
      (simp add: world0_def)
qed

theorem UserRegiter_leaks_witness:
  "\<exists>w' k. UserRegiter cln1 world0 = Some (Inr (1, w')) \<and> k \<notin> wheld world0 \<and> wheld w' = insert k (wheld world0)"
  using UserRegiter_world0 UserRegiter_leaks [OF world0_healthy, of cln1 1] by fastforce

text \<open>
  Storing a command for a device. An unknown device is a null dereference. For a known device the
  statement text overflows its 200-byte array when it does not fit, as a command of 74 characters makes it;
  otherwise the operation returns 0 or 1.
\<close>

theorem NewIotCmd_outcome:
  assumes "working w" and "store_rel (wd_store w) L"
    and "p = first_match (node (wd_store w)) (ById (TalktoID a)) (L RegistedIot)"
  shows "if p = 0 then NewIotCmdToBeExecute a c cls st t w = Some (Inl NullDeref)
    else if 200 \<le> length (cmd_sql (u_USERKEY_ID (node (wd_store w) p)) cls st c (USERKEY_ID a) t)
    then NewIotCmdToBeExecute a c cls st t w = Some (Inl BufferOverflow)
    else length c < 74 \<and> (\<exists>r w'. NewIotCmdToBeExecute a c cls st t w = Some (Inr (r, w')) \<and> (r = 0 \<or> r = 1) \<and> working w')"
proof -
  have f: "find_reg 10 (Some (TalktoID a)) 0 w = Some (Inr (p, w))"
    using find_in_ok [OF assms(2)] by (simp add: find_reg_def FindRegisterUserOrIotNode_def query_of_def assms(3))
  have u: "user_at p w = Some (Inr (node (wd_store w) p, w))" if "p \<noteq> 0"
  proof -
    have "p \<in> set (L RegistedIot)" using that first_match_in assms(3) by simp
    then obtain v where "heap (wd_store w) p = Some v" using assms(2) chain_alloc unfolding store_rel_def by blast
    then show ?thesis using that by (simp add: user_at_def olift_def deref_def node_def)
  qed
  have "total (with_conn 0 (\<lambda>k. obind (db_query q) (\<lambda>r. if failed r then release_then k (oret 0) else release_then k (oret 1))))
      (\<lambda>r. r = 0 \<or> r = (1 :: int))" for q
    by (intro total_with_conn total_reply) auto
  then have t: "\<exists>r w'. with_conn 0 (\<lambda>k. obind (db_query q) (\<lambda>r. if failed r then release_then k (oret 0)
      else release_then k (oret 1))) w = Some (Inr (r, w')) \<and> (r = 0 \<or> r = (1 :: int)) \<and> working w'" for q
    using assms(1) unfolding total_def by blast
  let ?q = "cmd_sql (u_USERKEY_ID (node (wd_store w) p)) cls st c (USERKEY_ID a) t"
  have "length c + 126 \<le> length ?q" by (simp add: cmd_sql_def)
  moreover have "user_at 0 w = Some (Inl NullDeref)" by (simp add: user_at_def olift_def deref_def)
  ultimately show ?thesis using f u t [of ?q]
    by (auto simp: NewIotCmdToBeExecute_def obind_def fmt_ok fmt_overflow)
qed

definition store_iot :: store where
  "store_iot = push RegistedIot 7 (zero_user\<lparr>u_USERID := ''1000000001'' @ [NUL, NUL]\<rparr>) store0"

lemma store_iot_rel: "store_rel store_iot ((\<lambda>_. [])(RegistedIot := [7]))"
  using ul.link_rel [OF store0_rel, of 7 RegistedIot] by (simp add: fresh_block_def store0_def store_iot_def)

theorem NewIotCmd_outcome_witness:
  "NewIotCmdToBeExecute (cln1\<lparr>TalktoID := ''1000000001'' @ [NUL, NUL]\<rparr>) (replicate 200 CHR ''x'') 1 1 ''2020-01-01''
     (world0\<lparr>wd_store := store_iot\<rparr>) = Some (Inl BufferOverflow)"
proof -
  let ?w = "world0\<lparr>wd_store := store_iot\<rparr>" and ?a = "cln1\<lparr>TalktoID := ''1000000001'' @ [NUL, NUL]\<rparr>"
  have n: "node store_iot 7 = zero_user\<lparr>u_USERID := ''1000000001'' @ [NUL, NUL], u_next := 0\<rparr>"
    by (simp add: store_iot_def node_def push_def store0_def)
  have w: "working ?w" using world0_working store_iot_rel
    by (auto simp: working_def wok_def store_iot_def push_def store0_def zero_user_def key_ok_def)
  have "first_match (node store_iot) (ById (TalktoID ?a)) [7] = 7" by (simp add: n strcmp_eq_def cstr_def)
  then show ?thesis
    using NewIotCmd_outcome [OF w, of "(\<lambda>_. [])(RegistedIot := [7])" 7 ?a "replicate 200 CHR ''x''" 1 1 "''2020-01-01''"]
      store_iot_rel by (simp add: cmd_sql_def)
qed

text \<open>
  The application version is never delivered: \<open>getAppVersion\<close> reads the row after the result has been
  freed. If a connection is free and the server answers, the row access is a use after free, or a null
  dereference when the table is empty or there is no result.
\<close>

theorem getAppVersion_faults:
  assumes "db_get w = Some (Inr (Some k, w1))" and "r = wd_query w1 (length (wd_qlog w1)) (''SELECT * FROM `appinfo`'' @ [NUL])"
    and "q_err r = None"
  shows "getAppVersion w = Some (Inl (if q_null r \<or> q_rows r = [] then NullDeref else UseAfterFree))"
  using assms by (simp add: fetch_rows_def oret_def getAppVersion_def obind_def fmt_ok with_conn_def db_query_def failed_def release_then_def
      db_release_def ofault_def)

theorem getAppVersion_faults_witness: "getAppVersion world0 = Some (Inl UseAfterFree)"
  using getAppVersion_faults [OF get_world0 refl] by (simp add: world0_def)

end
