(* ===== verification/SignIn.thy ===== *)
theory SignIn
  imports DbOps
begin

text \<open>
  Accounts: signing in (src/src/SIGN_IN.c), registering (Register.c, with the records of UserRegister.c and
  IotDevRegister.c), reloading the registered lists from the database (UpdateRegiterIotAndUser.c), changing
  the password (UserRePwd.c), and the daily message table (CreateDailyMsgdb.c).
\<close>

section \<open>Signing in\<close>

text \<open>\<open>a->USERKEY_ID\<close> and \<open>a->conn->USERKEY_ID\<close> are set to the key of the registered node \<open>t\<close>.\<close>

definition take_key :: "CLN \<Rightarrow> nat \<Rightarrow> CLN op" where
  "take_key a t =
     obind (user_at t) (\<lambda>u.
     obind (upd_conn (conn a) (\<lambda>c. c\<lparr>USERKEY_ID := u_USERKEY_ID u\<rparr>)) (\<lambda>_.
       oret (a\<lparr>USERKEY_ID := u_USERKEY_ID u\<rparr>)))"

text \<open>The packet of \<open>SEND_HBA\<close>, which tells the older session to stop.\<close>

definition sto_packet :: "UserPacketInterface op" where
  "sto_packet = obind (olift (sprintf (pk_checkcode zero_packet) ''STO'')) (\<lambda>c. oret (pk_mark (zero_packet\<lparr>pk_checkcode := c\<rparr>)))"

text \<open>\<open>checkuser\<close> is read again for the packet, after \<open>delete_out_user\<close>.\<close>

definition SIGNIN :: "CLN \<Rightarrow> (int \<times> CLN) op" where
  "SIGNIN a =
     obind (olift (strlen (USERID a))) (\<lambda>n.
     if 11 \<le> n
     then obind (check_id 0 a) (\<lambda>check.
          obind (find_online 0 (Some (USERID a)) 0) (\<lambda>checkuser.
          if check = -1 then oret (-1, a)
          else if checkuser = 0
          then obind (find_reg 0 (Some (USERID a)) 0) (\<lambda>temp.
               if temp \<noteq> 0
               then obind (take_key a temp) (\<lambda>a'. obind (new_online a') (\<lambda>_. oret (1, a')))
               else oret (-1, a))
          else obind (user_at checkuser) (\<lambda>u.
               let a' = a\<lparr>USERKEY_ID := u_USERKEY_ID u\<rparr> in
               obind (delete_user (a'\<lparr>SOCKET := USER_SOCKET u\<rparr>)) (\<lambda>_.
               obind sto_packet (\<lambda>pk.
               obind (user_at checkuser) (\<lambda>u'.
               obind (SyncSend (USER_SOCKET u') (user_packet_bytes pk) (CONNHANDLE u')) (\<lambda>_.
               obind (new_online a') (\<lambda>_. oret (1, a')))))))))
     else obind (check_id 0 a) (\<lambda>check.
          obind (find_online 10 (Some (USERID a)) 0) (\<lambda>checkuser.
          if check = -1 then oret (-1, a)
          else if checkuser = 0
          then obind (find_reg 10 (Some (USERID a)) 0) (\<lambda>temp.
               if temp \<noteq> 0
               then obind (take_key a temp) (\<lambda>a'. obind (new_online a') (\<lambda>_. oret (1, a')))
               else oret (-1, a))
          else obind (find_reg 10 (Some (USERID a)) 0) (\<lambda>temp.
               obind (if temp \<noteq> 0 then take_key a temp else oret a) (\<lambda>a'.
               obind (user_at checkuser) (\<lambda>u.
               obind (delete_user (a'\<lparr>SOCKET := USER_SOCKET u\<rparr>)) (\<lambda>_.
               obind (new_online a') (\<lambda>_. oret (1, a')))))))))"

section \<open>Reloading the registered lists\<close>

text \<open>The local \<open>CLN a\<close> is not initialised; every row overwrites the fields it sets and keeps the others.\<close>

definition user_row :: "CLN \<Rightarrow> string option list \<Rightarrow> CLN op" where
  "user_row a row =
     obind (col row 1) (\<lambda>c1. obind (olift (sprintf (USERID a) c1)) (\<lambda>uid.
     obind (col row 3) (\<lambda>c3. obind (olift (sprintf (USERPASSWORD a) c3)) (\<lambda>pw.
     obind (col row 0) (\<lambda>c0.
     obind (col row 4) (\<lambda>c4. obind (olift (sprintf (info a) c4)) (\<lambda>inf.
       oret (a\<lparr>USERID := uid, USERPASSWORD := pw, USERKEY_ID := atoi c0, info := inf\<rparr>))))))))"

definition iot_row :: "CLN \<Rightarrow> string option list \<Rightarrow> CLN op" where
  "iot_row a row =
     obind (user_row a row) (\<lambda>a'.
     obind (col row 2) (\<lambda>c2. obind (olift (sprintf (checkcode a') c2)) (\<lambda>cc. oret (a'\<lparr>checkcode := cc\<rparr>))))"

fun load_rows :: "(CLN \<Rightarrow> string option list \<Rightarrow> CLN op) \<Rightarrow> CLN \<Rightarrow> string option list list \<Rightarrow> CLN op" where
  "load_rows rf a [] = oret a"
| "load_rows rf a (row # rows) =
     obind (rf a row) (\<lambda>a'. obind (add_local a') (\<lambda>_ w. load_rows rf a' rows w))"

definition newer_sql :: "string \<Rightarrow> int \<Rightarrow> string" where
  "newer_sql table k = ''SELECT * FROM `'' @ table @ ''` WHERE `id` > '' @ sq @ dec_int k @ sq @ '' ORDER BY `id` ASC''"

text \<open>
  An early return leaves the mutex of the list locked. After the first list the connection is given back,
  but it is used, and given back once more, for the second.
\<close>

definition load_iots :: "nat \<Rightarrow> CLN \<Rightarrow> int op" where
  "load_iots k a =
     obind (first_node RegistedIot) (\<lambda>p.
     if p = 0 then oret 1
     else obind (lock_head RegistedIot) (\<lambda>_.
          obind (user_at p) (\<lambda>u.
          obind (fmt 200 (newer_sql ''iotnode'' (u_USERKEY_ID u))) (\<lambda>q.
          obind (db_query q) (\<lambda>r.
            if failed r then release_then k (oret (-1))
            else obind (fetch_rows r) (\<lambda>rows. obind (load_rows iot_row a rows) (\<lambda>_.
                 obind (unlock_head RegistedIot) (\<lambda>_. release_then k (oret 1)))))))))"

definition UpdateLocalRegUserAndIotlist :: "int op" where
  "UpdateLocalRegUserAndIotlist =
     obind (lock_head RegistedUser) (\<lambda>_.
     obind (first_node RegistedUser) (\<lambda>p.
     obind (user_at p) (\<lambda>u.
     obind (fmt 200 (newer_sql ''user'' (u_USERKEY_ID u))) (\<lambda>q.
     with_conn 0 (\<lambda>k.
     obind (db_query q) (\<lambda>r.
       if failed r then release_then k (oret (-1))
       else obind uninit_cln (\<lambda>a0. obind (fetch_rows r) (\<lambda>rows. obind (load_rows user_row a0 rows) (\<lambda>a.
            obind (unlock_head RegistedUser) (\<lambda>_. release_then k (load_iots k a)))))))))))"

section \<open>Registering\<close>

text \<open>\<open>IotRegister\<close> and \<open>UserRegiter\<close> return 0 without a connection; only -1 is treated as a failure.\<close>

definition Register :: "CLN \<Rightarrow> int \<Rightarrow> int op" where
  "Register a method =
     obind (check_id 1 a) (\<lambda>c.
     if c = 1 then oret (-1)
     else obind (if method = 1 then obind (olift (rd (info a) 3)) (\<lambda>d. IotRegister a (schar d)) else UserRegiter a) (\<lambda>r.
          if r = -1 then oret (-1)
          else obind UpdateLocalRegUserAndIotlist (\<lambda>_. oret 1)))"

section \<open>Changing the password\<close>

definition find_after :: "nat \<Rightarrow> query \<Rightarrow> nat op" where
  "find_after Tag q w = map_option (\<lambda>r. rbind r (\<lambda>p. ok (p, w))) (find_next (heap (wd_store w)) q Tag)"

definition set_password :: "nat \<Rightarrow> buf \<Rightarrow> unit op" where
  "set_password p pw = obind (user_at p) (\<lambda>u. obind (olift (strcpy (u_USERPASSWORD u) pw)) (\<lambda>b w.
     oret () (w\<lparr>wd_store := (wd_store w)\<lparr>heap := (heap (wd_store w))(p \<mapsto> u\<lparr>u_USERPASSWORD := b\<rparr>)\<rparr>\<rparr>)))"

definition UserRePwd :: "CLN \<Rightarrow> int op" where
  "UserRePwd a =
     obind (first_node RegistedUser) (\<lambda>Tag.
     obind (check_id 0 a) (\<lambda>c.
     if c = 1
     then if Tag = 0 then oret (-1)
          else obind (user_at Tag) (\<lambda>u.
               if strcmp_eq (USERID a) (u_USERID u)
               then obind (set_password Tag (REUSERPASSWORD a)) (\<lambda>_. oret 1)
               else obind (find_after Tag (ById (USERID a))) (\<lambda>p.
                    if p = 0 then oret 0
                    else obind (cstring (REUSERPASSWORD a)) (\<lambda>np.
                         obind (fmt 200 (''UPDATE `user` SET `passWord` = '' @ sq @ np @ sq @ '' WHERE `user`.`id` = ''
                                @ dec_int (USERKEY_ID a))) (\<lambda>q.
                         with_conn 0 (\<lambda>k.
                         obind (db_query q) (\<lambda>r.
                           if failed r then release_then k (oret (-1))
                           else obind (set_password p (REUSERPASSWORD a)) (\<lambda>_. release_then k (oret 1))))))))
     else oret (-1)))"

section \<open>The daily message table\<close>

text \<open>\<open>while (i++ < 100 && !flag)\<close>: the result is \<open>i\<close> and \<open>flag\<close> after the loop.\<close>

function daily_attempts :: "nat \<Rightarrow> bool \<Rightarrow> (nat \<times> bool) op" where
  "daily_attempts i flag =
     (if i < 100 \<and> \<not> flag
      then obind NewUserMsgTableInSQL (\<lambda>ret w. if ret = 0 then daily_attempts (i + 1) flag w else oret (i + 1, True) w)
      else oret (i + 1, flag))"
  by pat_completeness auto
termination
  by (relation "measure (\<lambda>(i, flag). 100 - i)") auto

declare daily_attempts.simps [simp del]

text \<open>
  One pass of the thread's loop, \<open>s\<close> seconds before the coming midnight: \<open>None\<close> is \<open>exit(-12)\<close>, otherwise the
  new value of the flag.
\<close>

definition daily_pass :: "int \<Rightarrow> bool \<Rightarrow> bool option op" where
  "daily_pass s flag =
     (if 0 < s sdiv 60 \<and> s sdiv 60 \<le> 24 * 60
      then obind (daily_attempts 0 flag) (\<lambda>(i, fl). if 99 \<le> i then oret None else oret (Some fl))
      else oret (Some False))"

section \<open>Searches on well-formed lists\<close>

text \<open>What a signed-in request relies on: a registered entry with this id and password.\<close>

definition registered :: "store \<Rightarrow> (lst \<Rightarrow> nat list) \<Rightarrow> CLN \<Rightarrow> bool" where
  "registered st L a = (\<exists>x\<in>set (L (reg_list a)). cstr (USERID a) = cstr (u_USERID (node st x))
     \<and> cstr (USERPASSWORD a) = cstr (u_USERPASSWORD (node st x)))"

lemma check_id_ok:
  assumes "store_rel (wd_store w) L" and "cln_wf a"
  shows "check_id 0 a w = Some (Inr (if registered (wd_store w) L a then 1 else -1, w))"
  using Check_Id_Pwd_signin [OF assms] by (simp add: check_id_def registered_def)

lemma find_online_ok:
  assumes "store_rel (wd_store w) L"
  shows "find_online (if l = OnlineIot then 10 else 0) (Some i) k w
    = Some (Inr (first_match (node (wd_store w)) (ById i) (L (if l = OnlineIot then OnlineIot else OnlineUser)), w))"
  using find_in_ok [OF assms] by (simp add: find_online_def FindOnlineUserOrIot_def query_of_def)

lemma find_reg_ok:
  assumes "store_rel (wd_store w) L"
  shows "find_reg (if l = RegistedIot then 10 else 0) (Some i) k w
    = Some (Inr (first_match (node (wd_store w)) (ById i) (L (if l = RegistedIot then RegistedIot else RegistedUser)), w))"
  using find_in_ok [OF assms] by (simp add: find_reg_def FindRegisterUserOrIotNode_def query_of_def)

lemma user_at_ok:
  assumes "store_rel (wd_store w) L" and "p \<in> set (L l)"
  shows "user_at p w = Some (Inr (node (wd_store w) p, w))" and "p \<noteq> 0"
proof -
  have c: "chain (heap (wd_store w)) (h_next (UserList.head (wd_store w) l)) (L l)" using assms(1) by (simp add: store_rel_def)
  show z: "p \<noteq> 0" using chain_not_zero [OF c] assms(2) by metis
  obtain u where "heap (wd_store w) p = Some u" using chain_alloc [OF c assms(2)] by blast
  then show "user_at p w = Some (Inr (node (wd_store w) p, w))" using z by (simp add: user_at_def olift_def deref_def node_def)
qed

lemma registered_first:
  assumes "store_rel st L" and "registered st L a"
  shows "first_match (node st) (ById (USERID a)) (L (reg_list a)) \<in> set (L (reg_list a))"
    and "first_match (node st) (ById (USERID a)) (L (reg_list a)) \<noteq> 0"
proof -
  have "0 \<notin> set (L (reg_list a))" using assms(1) chain_not_zero by (metis store_rel_def)
  then show n: "first_match (node st) (ById (USERID a)) (L (reg_list a)) \<noteq> 0"
    using assms(2) first_match_zero [of "L (reg_list a)" "node st" "ById (USERID a)"]
    by (auto simp: registered_def strcmp_eq_def)
  then show "first_match (node st) (ById (USERID a)) (L (reg_list a)) \<in> set (L (reg_list a))" by (rule first_match_in)
qed

section \<open>Signing in\<close>

lemma SIGNIN_reject:
  assumes "store_rel (wd_store w) L" and "cln_wf a" and "\<not> registered (wd_store w) L a"
  shows "SIGNIN a w = Some (Inr ((-1, a), w))"
  using check_id_ok [OF assms(1,2)] assms(3) strlen_USERID [OF assms(2)]
    find_online_ok [OF assms(1), of OnlineIot "USERID a" 0] find_online_ok [OF assms(1), of OnlineUser "USERID a" 0]
  by (simp add: SIGNIN_def obind_def olift_def oret_def)

lemma SIGNIN_accept:
  assumes "store_rel (wd_store w) L" and "cln_wf a" and "registered (wd_store w) L a"
    and "SIGNIN a w = Some (Inr ((r, a'), w'))"
  shows "r = 1"
proof -
  note f = registered_first [OF assms(1,3)]
  have "check_id 0 a w = Some (Inr (1, w))" using check_id_ok [OF assms(1,2)] assms(3) by simp
  moreover have "find_reg (if length (cstr (USERID a)) < 11 then 10 else 0) (Some (USERID a)) 0 w
      = Some (Inr (first_match (node (wd_store w)) (ById (USERID a)) (L (reg_list a)), w))"
    using find_reg_ok [OF assms(1), of "reg_list a" "USERID a" 0] by (simp add: reg_list_def split: if_splits)
  moreover note find_online_ok [OF assms(1), of OnlineIot "USERID a" 0] find_online_ok [OF assms(1), of OnlineUser "USERID a" 0]
  ultimately show ?thesis
    using assms(4) f(2) strlen_USERID [OF assms(2)]
    by (auto simp: SIGNIN_def obind_Inr olift_def oret_def Let_def split: if_splits)
qed

text \<open>
  C2: Signing in is decided by the credentials alone. On well-formed lists a request whose id and password
  match no registered entry of its kind is answered -1 and changes nothing; a request with matching
  credentials that returns at all is answered 1.
\<close>

theorem SIGNIN_authentic:
  assumes "store_rel (wd_store w) L" and "cln_wf a"
  shows "(\<not> registered (wd_store w) L a \<longrightarrow> SIGNIN a w = Some (Inr ((-1, a), w)))
    \<and> (SIGNIN a w = Some (Inr ((r, a'), w')) \<longrightarrow> r = (if registered (wd_store w) L a then 1 else -1))"
  using SIGNIN_reject [OF assms] SIGNIN_accept [OF assms, of r a' w'] by auto

theorem SIGNIN_authentic_witness: "SIGNIN cln1 world0 = Some (Inr ((-1, cln1), world0))"
proof -
  have "\<not> registered (wd_store world0) (\<lambda>_. []) cln1" by (simp add: registered_def)
  moreover have "store_rel (wd_store world0) (\<lambda>_. [])" using store0_rel by (simp add: world0_def)
  ultimately show ?thesis using SIGNIN_authentic [OF _ cln1_wf, of world0 "\<lambda>_. []"] by blast
qed

lemma cln_wf_key [simp]: "cln_wf (a\<lparr>USERKEY_ID := k\<rparr>) = cln_wf a" "cln_wf (a\<lparr>SOCKET := s\<rparr>) = cln_wf a"
  by (simp_all add: cln_wf_def)

lemma lists_key [simp]: "online_list (a\<lparr>USERKEY_ID := k\<rparr>) = online_list a" "online_list (a\<lparr>SOCKET := s\<rparr>) = online_list a"
  by (simp_all add: online_list_def)

lemma take_key_ok:
  assumes "user_at t w = Some (Inr (u, w))" and "conn a \<noteq> 0" and "wd_conns w (conn a) = Some c"
  shows "take_key a t w = Some (Inr (a\<lparr>USERKEY_ID := u_USERKEY_ID u\<rparr>,
    w\<lparr>wd_conns := (wd_conns w)(conn a \<mapsto> c\<lparr>USERKEY_ID := u_USERKEY_ID u\<rparr>)\<rparr>))"
  using assms by (simp add: take_key_def obind_def upd_conn_def deref_conn_def set_conn_def oret_def)

text \<open>The resources a new online entry needs: a fresh block within 99 attempts, of the size of the structure.\<close>

definition can_alloc :: "world \<Rightarrow> bool" where
  "can_alloc w = ((\<forall>i. wd_mal w (wd_mc w) i = 0 \<or> fresh_block (wd_store w) (wd_mal w (wd_mc w) i))
     \<and> (\<exists>k<99. wd_mal w (wd_mc w) k \<noteq> 0) \<and> length (u_USERID (wd_junk w (wd_mc w))) = 12
     \<and> length (u_USERPASSWORD (wd_junk w (wd_mc w))) = 33 \<and> length (u_info (wd_junk w (wd_mc w))) = 100)"

lemma new_online_ok:
  assumes "store_rel (wd_store w) L" and "cln_wf a" and "can_alloc w" and "Suc (length (L (online_list a))) < 2 ^ 31"
  shows "\<exists>st p. new_online a w = Some (Inr (1, w\<lparr>wd_store := st, wd_mc := wd_mc w + 1\<rparr>))
    \<and> store_rel st (L(online_list a := p # L (online_list a)))
    \<and> FindOnlineUserOrIot st (if online_list a = OnlineIot then 10 else 0) (Some (USERID a)) 0 = Some (Inr p)
    \<and> USER_SOCKET (node st p) = SOCKET a \<and> u_USERKEY_ID (node st p) = USERKEY_ID a \<and> CONNHANDLE (node st p) = conn a"
proof -
  obtain k where k: "wd_mal w (wd_mc w) k \<noteq> 0" "k < 99" using assms(3) by (auto simp: can_alloc_def)
  have al: "\<And>i. wd_mal w (wd_mc w) i = 0 \<or> fresh_block (wd_store w) (wd_mal w (wd_mc w) i)"
    and j: "length (u_USERID (wd_junk w (wd_mc w))) = 12" "length (u_USERPASSWORD (wd_junk w (wd_mc w))) = 33"
      "length (u_info (wd_junk w (wd_mc w))) = 100" using assms(3) by (auto simp: can_alloc_def)
  show ?thesis
    using newOnline_ok [where i = 0 and mal = "wd_mal w (wd_mc w)", OF assms(1,2) al k assms(4) j] by (auto simp: new_online_def)
qed

text \<open>
  C15: The first sign-in of a registered user or device. With matching credentials, no session under the
  same id, and memory for a node, \<open>SIGNIN\<close> returns 1; the request and the connection get the database key of
  the registered entry, and the online search finds a node with that key, socket and connection, while all
  lists stay well-formed.
\<close>

theorem SIGNIN_first:
  assumes "store_rel (wd_store w) L" and "cln_wf a" and "registered (wd_store w) L a"
    and "\<forall>x\<in>set (L (online_list a)). cstr (u_USERID (node (wd_store w) x)) \<noteq> cstr (USERID a)"
    and "conn a \<noteq> 0" and "wd_conns w (conn a) = Some c" and "can_alloc w" and "Suc (length (L (online_list a))) < 2 ^ 31"
  shows "\<exists>w' p k. SIGNIN a w = Some (Inr ((1, a\<lparr>USERKEY_ID := k\<rparr>), w'))
    \<and> (\<exists>x\<in>set (L (reg_list a)). cstr (u_USERID (node (wd_store w) x)) = cstr (USERID a) \<and> u_USERKEY_ID (node (wd_store w) x) = k)
    \<and> wd_conns w' (conn a) = Some (c\<lparr>USERKEY_ID := k\<rparr>)
    \<and> store_rel (wd_store w') (L(online_list a := p # L (online_list a)))
    \<and> FindOnlineUserOrIot (wd_store w') (if online_list a = OnlineIot then 10 else 0) (Some (USERID a)) 0 = Some (Inr p)
    \<and> USER_SOCKET (node (wd_store w') p) = SOCKET a \<and> u_USERKEY_ID (node (wd_store w') p) = k
    \<and> CONNHANDLE (node (wd_store w') p) = conn a"
proof -
  let ?t = "first_match (node (wd_store w)) (ById (USERID a)) (L (reg_list a))"
  note f = registered_first [OF assms(1,3)]
  note u = user_at_ok [OF assms(1) f(1)]
  let ?k = "u_USERKEY_ID (node (wd_store w) ?t)"
  let ?w = "w\<lparr>wd_conns := (wd_conns w)(conn a \<mapsto> c\<lparr>USERKEY_ID := ?k\<rparr>)\<rparr>" and ?a = "a\<lparr>USERKEY_ID := ?k\<rparr>"
  obtain st p where n: "new_online ?a ?w = Some (Inr (1, ?w\<lparr>wd_store := st, wd_mc := wd_mc w + 1\<rparr>))"
    "store_rel st (L(online_list a := p # L (online_list a)))"
    "FindOnlineUserOrIot st (if online_list a = OnlineIot then 10 else 0) (Some (USERID a)) 0 = Some (Inr p)"
    "USER_SOCKET (node st p) = SOCKET a" "u_USERKEY_ID (node st p) = ?k" "CONNHANDLE (node st p) = conn a"
    using new_online_ok [of ?w L ?a] assms(1,2,7,8) by (auto simp: can_alloc_def)
  have ck: "check_id 0 a w = Some (Inr (1, w))" using check_id_ok [OF assms(1,2)] assms(3) by simp
  have on: "first_match (node (wd_store w)) (ById (USERID a)) (L (online_list a)) = 0"
  proof -
    have "0 \<notin> set (L (online_list a))" using assms(1) chain_not_zero by (metis store_rel_def)
    then show ?thesis using first_match_zero assms(4) by (fastforce simp: strcmp_eq_def)
  qed
  have "SIGNIN a w = Some (Inr ((1, ?a), ?w\<lparr>wd_store := st, wd_mc := wd_mc w + 1\<rparr>))"
    using ck on n(1) u f take_key_ok [OF u(1) assms(5,6)] strlen_USERID [OF assms(2)]
      find_online_ok [OF assms(1), of OnlineIot "USERID a" 0] find_online_ok [OF assms(1), of OnlineUser "USERID a" 0]
      find_reg_ok [OF assms(1), of RegistedIot "USERID a" 0] find_reg_ok [OF assms(1), of RegistedUser "USERID a" 0]
    by (cases "length (cstr (USERID a)) < 11")
      (simp_all add: SIGNIN_def obind_def olift_def oret_def online_list_def reg_list_def)
  moreover have "cstr (u_USERID (node (wd_store w) ?t)) = cstr (USERID a)"
    using first_match_matches [OF f(2)] by (simp add: strcmp_eq_def)
  ultimately show ?thesis using n(2-6) f(1)
    by (intro exI [of _ "?w\<lparr>wd_store := st, wd_mc := wd_mc w + 1\<rparr>"] exI [of _ p] exI [of _ ?k]) auto
qed

text \<open>A registered user whose connection is at address 3, and who is not online.\<close>

definition reg_user :: user where
  "reg_user = zero_user\<lparr>u_USERID := ''13800000001'' @ [NUL], u_USERPASSWORD := ''pw'' @ replicate 31 NUL, u_USERKEY_ID := 42\<rparr>"

definition store_reg :: store where
  "store_reg = push RegistedUser 7 reg_user store0"

definition cln3 :: CLN where
  "cln3 = cln1\<lparr>conn := 3\<rparr>"

definition world1 :: world where
  "world1 = world0\<lparr>wd_store := store_reg, wd_conns := [3 \<mapsto> empty_cln]\<rparr>"

lemma cln3_simps [simp]: "cln_wf cln3" "reg_list cln3 = RegistedUser" "online_list cln3 = OnlineUser" "conn cln3 = 3"
    "USERID cln3 = ''13800000001'' @ [NUL]" "USERPASSWORD cln3 = ''pw'' @ replicate 31 NUL" "SOCKET cln3 = 5"
  using cln1_wf by (simp_all add: cln3_def cln_wf_def reg_list_def online_list_def cln1_def cstr_def)

lemma store_reg_rel: "store_rel store_reg ((\<lambda>_. [])(RegistedUser := [7]))"
  using ul.link_rel [OF store0_rel, of 7 RegistedUser] by (simp add: fresh_block_def store0_def store_reg_def)

lemma node_store_reg: "node store_reg 7 = reg_user\<lparr>u_next := 0\<rparr>"
  by (simp add: store_reg_def node_def push_def store0_def)

lemma world1_registered: "registered (wd_store world1) ((\<lambda>_. [])(RegistedUser := [7])) cln3"
  by (simp add: registered_def world1_def node_store_reg reg_user_def cstr_def)

theorem SIGNIN_first_witness: "\<exists>w' p k. SIGNIN cln3 world1 = Some (Inr ((1, cln3\<lparr>USERKEY_ID := k\<rparr>), w')) \<and> k = 42
    \<and> FindOnlineUserOrIot (wd_store w') 0 (Some (USERID cln3)) 0 = Some (Inr p)"
proof -
  have "can_alloc world1"
    by (auto simp: can_alloc_def world1_def world0_def fresh_block_def store_reg_def push_def store0_def zero_user_def intro: exI [of _ 0])
  moreover have "store_rel (wd_store world1) ((\<lambda>_. [])(RegistedUser := [7]))" using store_reg_rel by (simp add: world1_def)
  moreover have "wd_conns world1 3 = Some empty_cln" by (simp add: world1_def)
  moreover have "u_USERKEY_ID (node (wd_store world1) 7) = 42" by (simp add: world1_def node_store_reg reg_user_def)
  ultimately show ?thesis
    using SIGNIN_first [OF _ _ world1_registered, of empty_cln] by auto
qed

text \<open>
  C34: Signing in a second time from the newest session is a use after free: \<open>delete_out_user\<close> frees the node
  of the old session, and the stop message is then sent to the socket and the connection read from it.
\<close>

theorem SIGNIN_again_faults:
  assumes "store_rel (wd_store w) L" and "cln_wf a" and "registered (wd_store w) L a" and "11 \<le> length (cstr (USERID a))"
    and "L OnlineUser = x # xs" and "cstr (u_USERID (node (wd_store w) x)) = cstr (USERID a)"
  shows "SIGNIN a w = Some (Inl UseAfterFree)"
proof -
  have o: "online_list a = OnlineUser" using assms(4) by (simp add: online_list_def)
  have u: "user_at x w = Some (Inr (node (wd_store w) x, w))" "x \<noteq> 0" using user_at_ok [OF assms(1), of x OnlineUser] assms(5) by auto
  have on: "find_online 0 (Some (USERID a)) 0 w = Some (Inr (x, w))"
    using find_online_ok [OF assms(1), of OnlineUser "USERID a" 0] assms(5,6) by (simp add: strcmp_eq_def)
  let ?a = "a\<lparr>USERKEY_ID := u_USERKEY_ID (node (wd_store w) x), SOCKET := USER_SOCKET (node (wd_store w) x)\<rparr>"
  obtain st where st: "delete_out_user ?a (wd_store w) = Some (Inr (1, st))" "heap st x = None"
    using delete_head_ok [OF assms(1), of ?a x xs] assms(2,4,5,6) o by (auto simp: strcmp_eq_def)
  have "sto_packet v = Some (Inr (pk_mark (zero_packet\<lparr>pk_checkcode := ''STO'' @ NUL # replicate 14 NUL\<rparr>), v))" for v
    by (simp add: sto_packet_def obind_def olift_def zero_packet_def sprintf_def put_def oret_def)
  moreover have "check_id 0 a w = Some (Inr (1, w))" using check_id_ok [OF assms(1,2)] assms(3) by simp
  moreover have "delete_user ?a w = Some (Inr (1, w\<lparr>wd_store := st\<rparr>))" using st by (simp add: delete_user_def)
  ultimately show ?thesis using on u st(2) assms(4) strlen_USERID [OF assms(2)]
    by (simp add: SIGNIN_def obind_def olift_def user_at_def deref_def Let_def)
qed

definition store_both :: store where
  "store_both = push OnlineUser 8 (reg_user\<lparr>USER_SOCKET := 4\<rparr>) store_reg"

lemma store_both_rel: "store_rel store_both ((\<lambda>_. [])(RegistedUser := [7], OnlineUser := [8]))"
  using ul.link_rel [OF store_reg_rel, of 8 OnlineUser] by (simp add: fresh_block_def store_reg_def store0_def push_def store_both_def)

theorem SIGNIN_again_faults_witness: "SIGNIN cln3 (world1\<lparr>wd_store := store_both\<rparr>) = Some (Inl UseAfterFree)"
proof -
  have n: "node store_both 7 = reg_user\<lparr>u_next := 0\<rparr>" "node store_both 8 = reg_user\<lparr>USER_SOCKET := 4, u_next := 0\<rparr>"
    by (simp_all add: store_both_def store_reg_def node_def push_def store0_def)
  show ?thesis
    using SIGNIN_again_faults [of "world1\<lparr>wd_store := store_both\<rparr>" "(\<lambda>_. [])(RegistedUser := [7], OnlineUser := [8])" cln3 8 "[]"]
      store_both_rel by (simp add: registered_def n reg_user_def cstr_def)
qed

section \<open>Reloading and registering\<close>

lemma keep_mute:
  "user_at p w = Some (Inr (u, w')) \<Longrightarrow> w' = w" "fmt n s w = Some (Inr (q, w')) \<Longrightarrow> w' = w"
  "first_node l w = Some (Inr (p, w')) \<Longrightarrow> w' = w" "db_get w = Some (Inr (c, w')) \<Longrightarrow> wd_mute w' = wd_mute w"
  by (auto simp: user_at_def fmt_def first_node_def db_get_def olift_def oret_def rbind_eq_Inr)

text \<open>The mutex of the registered devices is locked and the list has an entry: then the second half does not return.\<close>

definition stuck :: "world \<Rightarrow> bool" where
  "stuck w = (wd_mute w RegistedIot \<and> h_next (UserList.head (wd_store w) RegistedIot) \<noteq> 0)"

lemma load_iots_fails:
  assumes "load_iots k a w = Some (Inr (r, w'))" and "r \<noteq> 1"
  shows "stuck w'"
  using assms by (auto simp: load_iots_def obind_Inr lock_head_def first_node_def user_at_def fmt_def olift_def rbind_eq_Inr
      oret_def release_then_def db_release_def db_query_def stuck_def split: if_splits)

lemma load_iots_stuck: "stuck w \<Longrightarrow> load_iots k a w = None"
  by (simp add: stuck_def load_iots_def obind_def first_node_def lock_head_def oret_def)

lemma AddtoLocal_nonempty:
  assumes "AddtoLocal mal a st = Inr (r, st')" and "h_next (UserList.head st RegistedIot) \<noteq> 0"
  shows "h_next (UserList.head st' RegistedIot) \<noteq> 0"
  using assms by (auto simp: AddtoLocal_def alloc_clear_def rbind_eq_Inr push_def Let_def split: if_splits)

lemma user_row_world: "user_row a row w = Some (Inr (x, w')) \<Longrightarrow> w' = w"
  by (auto simp: user_row_def obind_Inr col_def olift_def rbind_eq_Inr oret_def ofault_def split: if_splits option.splits)

lemma load_rows_stuck: "load_rows user_row a rows w = Some (Inr (x, w')) \<Longrightarrow> stuck w \<Longrightarrow> stuck w'"
proof (induction rows arbitrary: a w)
  case (Cons row rows)
  then obtain a' w1 c v where "user_row a row w = Some (Inr (a', w1))" "add_local a' w1 = Some (Inr (c, v))"
    "load_rows user_row a' rows v = Some (Inr (x, w'))"
    by (auto simp: obind_Inr)
  moreover then have "stuck v" using user_row_world [of a row w a' w1] Cons.prems(2) by (auto simp: add_local_def rbind_eq_Inr stuck_def dest: AddtoLocal_nonempty)
  ultimately show ?case using Cons.IH by blast
qed (simp add: oret_def)

text \<open>A reload either fails with the users locked or returns what its second half returns.\<close>

lemma reload_cases:
  assumes "UpdateLocalRegUserAndIotlist w = Some (Inr (r, w'))"
  obtains (early) "r \<noteq> 1" "wd_mute w' RegistedUser"
  | (second) k a v where "load_iots k a v = Some (Inr (r, w'))" "stuck w \<Longrightarrow> stuck v"
proof -
  define w2 where "w2 = w\<lparr>wd_mute := (wd_mute w)(RegistedUser := True)\<rparr>"
  let ?rest = "\<lambda>k r. if failed r then release_then k (oret (-1))
     else obind uninit_cln (\<lambda>a0. obind (fetch_rows r) (\<lambda>rows. obind (load_rows user_row a0 rows) (\<lambda>a.
          obind (unlock_head RegistedUser) (\<lambda>_. release_then k (load_iots k a)))))"
  obtain q c w3 where g: "db_get w2 = Some (Inr (c, w3))"
    and l: "(case c of None \<Rightarrow> oret 0 | Some k \<Rightarrow> obind (db_query q) (?rest k)) w3 = Some (Inr (r, w'))"
    using assms by (auto simp: UpdateLocalRegUserAndIotlist_def obind_Inr lock_head_def oret_def w2_def with_conn_def
        dest!: keep_mute(1-3) split: if_splits)
  have w3: "wd_mute w3 = wd_mute w2" "wd_store w3 = wd_store w2" using g by (auto simp: db_get_def rbind_eq_Inr)
  show thesis
  proof (cases c)
    case None
    then show ?thesis using l w3 early by (simp add: oret_def w2_def)
  next
    case (Some k)
    let ?w = "w3\<lparr>wd_qlog := wd_qlog w3 @ [q]\<rparr>"
    obtain qr where qr: "?rest k qr ?w = Some (Inr (r, w'))" using l Some by (auto simp: obind_Inr db_query_def)
    show ?thesis
    proof (cases "failed qr")
      case True
      then show ?thesis using qr w3 early by (auto simp: release_then_def obind_def db_release_def oret_def w2_def)
    next
      case False
      then obtain a0 a v where v: "load_rows user_row a0 (q_rows qr) ?w = Some (Inr (a, v))"
        "load_iots k a (v\<lparr>wd_mute := (wd_mute v)(RegistedUser := False), wd_sql := sql_release (wd_sql v) k\<rparr>) = Some (Inr (r, w'))"
        using qr by (auto simp: obind_Inr fetch_rows_def uninit_cln_def oret_def ofault_def unlock_head_def release_then_def
            db_release_def split: if_splits)
      have "stuck w \<Longrightarrow> stuck v" using load_rows_stuck [OF v(1)] w3 by (simp add: stuck_def w2_def)
      then show ?thesis using second [OF v(2)] by (simp add: stuck_def)
    qed
  qed
qed

lemma full_get:
  assumes "healthy (wd_sql w)" and "wheld w = {..<pool_number (w_sp (wd_sql w))}"
  shows "\<exists>s. db_get w = Some (Inr (None, w\<lparr>wd_sql := s\<rparr>)) \<and> healthy s \<and> held s = {..<pool_number (w_sp s)}"
  using cp.acquire_full [OF assms] by (auto simp: db_get_def)

text \<open>The state \<open>world1\<close> when both connections are held.\<close>

definition sql_full :: sqlw where
  "sql_full = sql0\<lparr>w_sp := pool2\<lparr>sql_pool := [node0\<lparr>lock := True\<rparr>, node0\<lparr>lock := True\<rparr>]\<rparr>\<rparr>"

definition world2 :: world where
  "world2 = world1\<lparr>wd_sql := sql_full\<rparr>"

lemma sql_full_ok: "healthy sql_full" "held sql_full = {..<pool_number (w_sp sql_full)}"
  by (auto simp: healthy_def sql_full_def sql0_def pool_up_def pool2_def node0_def up_env_def held_def less_Suc_eq numeral_2_eq_2)

lemma world2_first: "h_next (UserList.head (wd_store world2) RegistedUser) = 7"
  "heap (wd_store world2) 7 = Some (reg_user\<lparr>u_next := 0\<rparr>)" "\<not> wd_mute world2 RegistedUser"
  by (simp_all add: world2_def world1_def store_reg_def push_def store0_def world0_def)



text \<open>
  Registration reports success when nothing was stored. If every connection is held, \<open>Register\<close> of a new
  user returns 1 although no statement was sent, and the mutex of the registered users stays locked.
\<close>

theorem Register_without_connection:
  assumes "healthy (wd_sql w)" and "wheld w = {..<pool_number (w_sp (wd_sql w))}"
    and "check_id 1 a w = Some (Inr (-1, w))" and "cln_wf a"
    and "\<not> wd_mute w RegistedUser" and "heap (wd_store w) (h_next (UserList.head (wd_store w) RegistedUser)) = Some u"
    and "h_next (UserList.head (wd_store w) RegistedUser) \<noteq> 0" and "key_ok (u_USERKEY_ID u)"
  shows "\<exists>w'. Register a 0 w = Some (Inr (1, w')) \<and> wd_qlog w' = wd_qlog w \<and> wd_store w' = wd_store w \<and> wd_mute w' RegistedUser"
proof -
  have t: "terminated (USERID a)" "terminated (info a)" "terminated (USERPASSWORD a)" "terminated (data a)"
    and ln: "length (cstr (USERID a)) < 12" "length (cstr (info a)) < 100" "length (cstr (USERPASSWORD a)) < 33" "length (cstr (data a)) < 513"
    using assms(4) str_field_terminated unfolding cln_wf_def by blast+
  have c: "cstring b v = Some (Inr (cstr b, v))" if "terminated b" for b v
    using that by (simp add: cstring_def olift_def str_of_def)
  have q1: "length (user_sql (cstr (USERID a)) (cstr (info a)) (cstr (USERPASSWORD a)) (cstr (data a))) < 800"
    using ln by (simp add: user_sql_def)
  obtain s1 where g1: "db_get w = Some (Inr (None, w\<lparr>wd_sql := s1\<rparr>))" "healthy s1" "held s1 = {..<pool_number (w_sp s1)}"
    using full_get [OF assms(1,2)] by blast
  have r: "UserRegiter a w = Some (Inr (0, w\<lparr>wd_sql := s1\<rparr>))"
    using t q1 g1(1) by (simp add: UserRegiter_def obind_def c fmt_ok with_conn_def oret_def)
  let ?w = "w\<lparr>wd_sql := s1, wd_mute := (wd_mute w)(RegistedUser := True)\<rparr>"
  obtain s2 where g2: "db_get ?w = Some (Inr (None, ?w\<lparr>wd_sql := s2\<rparr>))"
    using full_get [of ?w] g1(2,3) by auto
  have q2: "length (newer_sql ''user'' (u_USERKEY_ID u)) < 200"
    using dec_key [OF assms(8)] by (simp add: newer_sql_def)
  have up: "UpdateLocalRegUserAndIotlist (w\<lparr>wd_sql := s1\<rparr>) = Some (Inr (0, ?w\<lparr>wd_sql := s2\<rparr>))"
    using assms(5,6,7) g2 q2
    by (simp add: UpdateLocalRegUserAndIotlist_def obind_def lock_head_def first_node_def user_at_def olift_def deref_def
        oret_def fmt_ok with_conn_def)
  show ?thesis
    using assms(3) r up by (simp add: Register_def obind_def oret_def)
qed

definition cln_new :: CLN where
  "cln_new = cln1\<lparr>USERID := ''13900000002'' @ [NUL]\<rparr>"

lemma cln_new_wf: "cln_wf cln_new"
  using cln1_wf by (simp add: cln_new_def cln_wf_def str_field_def)

theorem Register_without_connection_witness:
  "\<exists>w'. Register cln_new 0 world2 = Some (Inr (1, w')) \<and> wd_qlog w' = [] \<and> wd_mute w' RegistedUser"
proof -
  have "reg_list cln_new = RegistedUser" by (simp add: reg_list_def cln_new_def cstr_def)
  then have "check_id 1 cln_new world2 = Some (Inr (-1, world2))"
    using world2_first check_reg_loop.simps [of "heap (wd_store world2)" _ 7] strlen_USERID [OF cln_new_wf]
    by (simp add: check_id_def Check_Id_Pwd_def check_reg_def deref_def Let_def reg_user_def strcmp_eq_def reg_list_def
        cln_new_def cstr_def)
  moreover have "healthy (wd_sql world2)" "wheld world2 = {..<pool_number (w_sp (wd_sql world2))}" "wd_qlog world2 = []"
    using sql_full_ok by (simp_all add: world2_def world1_def world0_def)
  ultimately show ?thesis
    using Register_without_connection [OF _ _ _ cln_new_wf, of world2] world2_first by (auto simp: reg_user_def key_ok_def)
qed

section \<open>Changing the password\<close>

lemma chain_same_next:
  "h p = Some u \<Longrightarrow> u_next v = u_next u \<Longrightarrow> chain (h(p \<mapsto> v)) q xs = chain h q xs"
  by (induction xs arbitrary: q) (auto split: option.splits)

lemma store_rel_same_next:
  assumes "store_rel st L" and "heap st p = Some u" and "u_next v = u_next u"
  shows "store_rel (st\<lparr>heap := (heap st)(p \<mapsto> v)\<rparr>) L"
  using assms chain_same_next by (simp add: store_rel_def)

lemma set_password_ok:
  assumes "store_rel (wd_store w) L" and "set_password p pw w = Some (Inr ((), w'))"
  shows "\<exists>b. cstr b = cstr pw \<and> w' = w\<lparr>wd_store := wd_store w'\<rparr> \<and> store_rel (wd_store w') L
    \<and> node (wd_store w') p = (node (wd_store w) p)\<lparr>u_USERPASSWORD := b\<rparr> \<and> (\<forall>x. x \<noteq> p \<longrightarrow> node (wd_store w') x = node (wd_store w) x)"
proof -
  obtain u b where u: "heap (wd_store w) p = Some u" "strcpy (u_USERPASSWORD u) pw = Inr b"
    and w': "w' = w\<lparr>wd_store := (wd_store w)\<lparr>heap := (heap (wd_store w))(p \<mapsto> u\<lparr>u_USERPASSWORD := b\<rparr>)\<rparr>\<rparr>"
    using assms(2) by (auto simp: set_password_def obind_Inr user_at_def olift_def deref_def rbind_eq_Inr oret_def
        split: option.splits if_splits)
  have "cstr b = cstr pw" using strcmp_eq_strcpy [OF u(2)] by (simp add: strcmp_eq_def)
  then show ?thesis using store_rel_same_next [OF assms(1) u(1)] w' u(1) by (auto simp: node_def)
qed

lemma set_password_registered:
  assumes "store_rel (wd_store w) L" and "set_password p (REUSERPASSWORD a) w = Some (Inr ((), w'))"
    and "p \<in> set (L (reg_list a))" and "cstr (u_USERID (node (wd_store w) p)) = cstr (USERID a)"
  shows "store_rel (wd_store w') L \<and> registered (wd_store w') L (a\<lparr>USERPASSWORD := REUSERPASSWORD a\<rparr>)"
  using set_password_ok [OF assms(1,2)] assms(3,4)
  by (auto simp: registered_def reg_list_def intro!: bexI [of _ p])

lemma keep_store:
  "db_get w = Some (Inr (c, w')) \<Longrightarrow> wd_store w' = wd_store w"
  "db_query q w = Some (Inr (r, w')) \<Longrightarrow> wd_store w' = wd_store w"
  "db_release k w = Some (Inr (x, w')) \<Longrightarrow> wd_store w' = wd_store w"
  "cstring b w = Some (Inr (t, w')) \<Longrightarrow> w' = w"
  by (auto simp: db_get_def db_query_def db_release_def cstring_def olift_def rbind_eq_Inr)

text \<open>
  C10: Changing a password. The request is refused, and nothing changes, unless the old credentials are
  right. Whenever the answer is 1, the new password is the one that signs this user in; with every other
  answer the lists are as before.
\<close>

theorem UserRePwd_effect:
  assumes "store_rel (wd_store w) L" and "cln_wf a" and "reg_list a = RegistedUser"
    and "UserRePwd a w = Some (Inr (r, w'))"
  shows "(registered (wd_store w) L a \<or> r = -1 \<and> w' = w)
    \<and> (if r = 1 then store_rel (wd_store w') L \<and> registered (wd_store w') L (a\<lparr>USERPASSWORD := REUSERPASSWORD a\<rparr>)
       else wd_store w' = wd_store w)"
proof (cases "registered (wd_store w) L a")
  case False
  then show ?thesis using assms(4) check_id_ok [OF assms(1,2)]
    by (auto simp: UserRePwd_def obind_def first_node_def oret_def)
next
  case True
  then have ck: "check_id 0 a w = Some (Inr (1, w))" using check_id_ok [OF assms(1,2)] by simp
  obtain x xs where L: "L RegistedUser = x # xs" using True assms(3) by (cases "L RegistedUser") (auto simp: registered_def)
  have c: "chain (heap (wd_store w)) (h_next (UserList.head (wd_store w) RegistedUser)) (x # xs)" using assms(1) L by (metis store_rel_def)
  then have hd: "h_next (UserList.head (wd_store w) RegistedUser) = x" "x \<noteq> 0" by simp_all
  have ux: "user_at x w = Some (Inr (node (wd_store w) x, w))" using user_at_ok [OF assms(1), of x RegistedUser] L by simp
  have fn: "first_node RegistedUser w = Some (Inr (x, w))" using hd(1) by (simp add: first_node_def oret_def)
  show ?thesis
  proof (cases "cstr (USERID a) = cstr (u_USERID (node (wd_store w) x))")
    case True
    have "UserRePwd a w = obind (set_password x (REUSERPASSWORD a)) (\<lambda>_. oret 1) w"
      using hd(2) True by (simp add: UserRePwd_def obind_def fn ck ux strcmp_eq_def)
    then have "obind (set_password x (REUSERPASSWORD a)) (\<lambda>_. oret 1) w = Some (Inr (r, w'))" using assms(4) by simp
    then have "set_password x (REUSERPASSWORD a) w = Some (Inr ((), w')) \<and> r = 1"
      by (auto simp: obind_Inr oret_def)
    then show ?thesis using set_password_registered [OF assms(1), of x a] True \<open>registered _ _ _\<close> L assms(3) by auto
  next
    case False
    let ?p = "first_match (node (wd_store w)) (ById (USERID a)) xs"
    have f: "find_after x (ById (USERID a)) w = Some (Inr (?p, w))"
      using find_next_ok [of "heap (wd_store w)" x xs "ById (USERID a)"] c hd(1) by (simp add: find_after_def node_eq)
    have mt: "?p \<in> set (L (reg_list a))" "cstr (u_USERID (node (wd_store w) ?p)) = cstr (USERID a)" if "?p \<noteq> 0"
      using first_match_in [OF that] first_match_matches [OF that] L assms(3) by (auto simp: strcmp_eq_def)
    have sp: "store_rel (wd_store v') L \<and> registered (wd_store v') L (a\<lparr>USERPASSWORD := REUSERPASSWORD a\<rparr>)"
      if "set_password ?p (REUSERPASSWORD a) v = Some (Inr ((), v'))" "wd_store v = wd_store w" "0 < ?p" for v v'
      using set_password_registered [of v L ?p a v'] that mt assms(1) by simp
    let ?upd = "\<lambda>np. ''UPDATE `user` SET `passWord` = '' @ sq @ np @ sq @ '' WHERE `user`.`id` = '' @ dec_int (USERKEY_ID a)"
    have "UserRePwd a w = (if ?p = 0 then oret 0
        else obind (cstring (REUSERPASSWORD a)) (\<lambda>np. obind (fmt 200 (?upd np)) (\<lambda>q. with_conn 0 (\<lambda>k. obind (db_query q) (\<lambda>r.
          if failed r then release_then k (oret (-1))
          else obind (set_password ?p (REUSERPASSWORD a)) (\<lambda>_. release_then k (oret 1))))))) w"
      using hd(2) False by (simp add: UserRePwd_def obind_def fn ck ux f strcmp_eq_def)
    from this [symmetric] show ?thesis
      using \<open>registered _ _ _\<close> unfolding assms(4)
      by (auto simp: obind_Inr oret_def with_conn_def release_then_def
          dest!: keep_mute(2) keep_store split: if_splits option.splits) (use sp in blast)+
  qed
qed

lemma world1_facts: "first_node RegistedUser world1 = Some (Inr (7, world1))" "check_id 0 cln3 world1 = Some (Inr (1, world1))"
  "user_at 7 world1 = Some (Inr (reg_user\<lparr>u_next := 0\<rparr>, world1))" "heap (wd_store world1) 7 = Some (reg_user\<lparr>u_next := 0\<rparr>)"
proof -
  have "heap (wd_store world1) 7 = Some (reg_user\<lparr>u_next := 0\<rparr>)" by (simp add: world1_def store_reg_def push_def store0_def)
  then show "heap (wd_store world1) 7 = Some (reg_user\<lparr>u_next := 0\<rparr>)" "user_at 7 world1 = Some (Inr (reg_user\<lparr>u_next := 0\<rparr>, world1))"
    by (simp_all add: user_at_def olift_def deref_def)
  show "first_node RegistedUser world1 = Some (Inr (7, world1))"
    by (simp add: first_node_def oret_def world1_def store_reg_def push_def)
  show "check_id 0 cln3 world1 = Some (Inr (1, world1))"
    using check_id_ok [of world1, OF _ _] store_reg_rel world1_registered by (simp add: world1_def)
qed

definition cln_pw :: CLN where
  "cln_pw = cln3\<lparr>REUSERPASSWORD := ''new'' @ replicate 30 NUL\<rparr>"

lemma cln_pw_facts: "cln_wf cln_pw" "reg_list cln_pw = RegistedUser" "check_id 0 cln_pw world1 = Some (Inr (1, world1))"
    "USERID cln_pw = USERID cln3" "terminated (REUSERPASSWORD cln_pw)" "cstr (REUSERPASSWORD cln_pw) = ''new''"
proof -
  have "cln_wf cln3" by simp
  then show "cln_wf cln_pw" by (simp add: cln_pw_def cln_wf_def str_field_def)
  show "reg_list cln_pw = RegistedUser" by (simp add: cln_pw_def reg_list_def cstr_def)
  have "registered (wd_store world1) ((\<lambda>_. [])(RegistedUser := [7])) cln_pw"
    using \<open>reg_list cln_pw = _\<close> by (simp add: registered_def world1_def node_store_reg reg_user_def cstr_def) (simp add: cln_pw_def)
  then show "check_id 0 cln_pw world1 = Some (Inr (1, world1))"
    using check_id_ok [of world1 _ cln_pw] store_reg_rel \<open>cln_wf cln_pw\<close> by (simp add: world1_def)
qed (simp_all add: cln_pw_def terminated_def cstr_def)

lemma UserRePwd_world1: "\<exists>w'. UserRePwd cln_pw world1 = Some (Inr (1, w'))"
  using cln_pw_facts world1_facts
  by (simp add: UserRePwd_def obind_def set_password_def olift_def strcpy_def str_of_def sprintf_def put_def reg_user_def
      strcmp_eq_def oret_def)

theorem UserRePwd_effect_witness:
  "\<exists>w'. UserRePwd cln_pw world1 = Some (Inr (1, w'))
     \<and> registered (wd_store w') ((\<lambda>_. [])(RegistedUser := [7])) (cln_pw\<lparr>USERPASSWORD := ''new'' @ replicate 30 NUL\<rparr>)"
proof -
  obtain w' where w': "UserRePwd cln_pw world1 = Some (Inr (1, w'))" using UserRePwd_world1 by blast
  have "store_rel (wd_store world1) ((\<lambda>_. [])(RegistedUser := [7]))" using store_reg_rel by (simp add: world1_def)
  from UserRePwd_effect [OF this cln_pw_facts(1,2) w'] w' show ?thesis by (auto simp: cln_pw_def)
qed

text \<open>
  The new password of the most recently registered user is not stored. When the first entry of the list
  has the id of the request, \<open>UserRePwd\<close> changes the entry, answers 1, and sends no statement.
\<close>

theorem UserRePwd_newest_not_stored:
  assumes "store_rel (wd_store w) L" and "cln_wf a" and "reg_list a = RegistedUser" and "L RegistedUser = x # xs"
    and "cstr (u_USERID (node (wd_store w) x)) = cstr (USERID a)" and "UserRePwd a w = Some (Inr (r, w'))"
  shows "wd_qlog w' = wd_qlog w \<and> wd_sql w' = wd_sql w"
proof (cases "registered (wd_store w) L a")
  case False
  then show ?thesis using assms(6) check_id_ok [OF assms(1,2)]
    by (auto simp: UserRePwd_def obind_def first_node_def oret_def)
next
  case True
  have "chain (heap (wd_store w)) (h_next (UserList.head (wd_store w) RegistedUser)) (x # xs)" using assms(1,4) by (metis store_rel_def)
  then have "first_node RegistedUser w = Some (Inr (x, w))" "x \<noteq> 0" by (simp_all add: first_node_def oret_def)
  moreover have "user_at x w = Some (Inr (node (wd_store w) x, w))" using user_at_ok [OF assms(1), of x RegistedUser] assms(4) by simp
  ultimately have "obind (set_password x (REUSERPASSWORD a)) (\<lambda>_. oret 1) w = Some (Inr (r, w'))"
    using assms(5,6) check_id_ok [OF assms(1,2)] True by (simp add: UserRePwd_def obind_def strcmp_eq_def)
  then have "set_password x (REUSERPASSWORD a) w = Some (Inr ((), w'))" by (auto simp: obind_Inr oret_def)
  from set_password_ok [OF assms(1) this] obtain st where "w' = w\<lparr>wd_store := st\<rparr>" by metis
  then show ?thesis by simp
qed

theorem UserRePwd_newest_not_stored_witness: "\<exists>w'. UserRePwd cln_pw world1 = Some (Inr (1, w')) \<and> wd_qlog w' = []"
proof -
  obtain w' where w': "UserRePwd cln_pw world1 = Some (Inr (1, w'))" using UserRePwd_world1 by blast
  have "store_rel (wd_store world1) ((\<lambda>_. [])(RegistedUser := [7]))" using store_reg_rel by (simp add: world1_def)
  moreover have "cstr (u_USERID (node (wd_store world1) 7)) = cstr (USERID cln_pw)"
    by (simp add: world1_def node_store_reg reg_user_def cln_pw_def)
  ultimately show ?thesis
    using UserRePwd_newest_not_stored [OF _ cln_pw_facts(1,2), of world1 _ 7 "[]" 1 w'] w' by (simp add: world1_def world0_def)
qed

end
