(* ===== verification/Session.thy ===== *)
theory Session
  imports SignIn Hash
begin

text \<open>
  What the two request handlers, \<open>talk\<close> (src/src/Talk.c) and \<open>IoTtalk\<close> (src/src/IoT_Talk.c), share: replies,
  numbers in memory, splitting, the random keys and PINs, the counter of pending requests of a connection,
  the release of the request, and the message to the top server (src/src/Send2OnlineUserViaAllServer.c).
\<close>

section \<open>Numbers in memory\<close>

text \<open>A 32-bit integer at byte \<open>i\<close> of an array, least significant byte first.\<close>

definition word_at :: "buf \<Rightarrow> nat \<Rightarrow> nat" where
  "word_at b i = of_char (b ! i) + 256 * of_char (b ! (i + 1)) + 65536 * of_char (b ! (i + 2)) + 16777216 * of_char (b ! (i + 3))"

definition word_bytes :: "nat \<Rightarrow> buf" where
  "word_bytes n = [char_of (n mod 256), char_of (n div 256 mod 256), char_of (n div 65536 mod 256), char_of (n div 16777216 mod 256)]"

fun ints_of :: "buf \<Rightarrow> int list" where
  "ints_of (a # b # c # d # xs) = i32 (int (word_at [a, b, c, d] 0)) # ints_of xs"
| "ints_of _ = []"

definition bytes_of :: "int list \<Rightarrow> buf" where
  "bytes_of xs = concat (map (\<lambda>x. word_bytes (nat (x mod 2 ^ 32))) xs)"

text \<open>\<open>memcpy\<close> of \<open>n\<close> bytes into a cleared array of \<open>k\<close> integers.\<close>

definition load_ints :: "nat \<Rightarrow> buf \<Rightarrow> nat \<Rightarrow> int list op" where
  "load_ints k src n = obind (olift (memcpy (replicate (4 * k) NUL) src n)) (\<lambda>b. oret (ints_of b))"

section \<open>Connections and requests\<close>

text \<open>
  \<open>InterlockedIncrement\<close> and \<open>InterlockedDecrement\<close> on \<open>(LPLONG) &info[2]\<close>: the counter is the 32-bit integer
  in bytes 2 to 5 of \<open>info\<close>.
\<close>

definition tasks :: "CLN \<Rightarrow> nat" where
  "tasks c = word_at (info c) 2"

definition set_tasks :: "nat \<Rightarrow> CLN \<Rightarrow> CLN" where
  "set_tasks n c = c\<lparr>info := take 2 (info c) @ word_bytes n @ drop 6 (info c)\<rparr>"

definition task_done :: "nat \<Rightarrow> unit op" where
  "task_done q = upd_conn q (\<lambda>c. set_tasks (nat ((int (tasks c) - 1) mod 2 ^ 32)) c)"

definition task_new :: "nat \<Rightarrow> unit op" where
  "task_new q = upd_conn q (\<lambda>c. set_tasks ((tasks c + 1) mod 2 ^ 32) c)"

text \<open>\<open>freeNode\<close>: the request structure at \<open>p\<close> is freed.\<close>

definition freeNode :: "nat \<Rightarrow> unit op" where
  "freeNode p w =
     (if p = 0 then oret () w
      else if wd_conns w p = None then ofault UseAfterFree w
      else oret () (w\<lparr>wd_conns := (wd_conns w)(p := None)\<rparr>))"

text \<open>The two statements at the end of a request.\<close>

definition finish :: "nat \<Rightarrow> CLN \<Rightarrow> unit op" where
  "finish p a = obind (task_done (conn a)) (\<lambda>_. freeNode p)"

section \<open>Replies\<close>

definition send_raw :: "nat \<Rightarrow> buf \<Rightarrow> int op" where
  "send_raw sock b w = oret (wd_net w (length (wd_sent w))) (w\<lparr>wd_sent := wd_sent w @ [(sock, b)]\<rparr>)"

text \<open>A cleared packet with a tag, text, and the end mark.\<close>

definition tag_packet :: "string \<Rightarrow> string \<Rightarrow> buf op" where
  "tag_packet tag txt =
     obind (olift (sprintf (pk_checkcode zero_packet) tag)) (\<lambda>c.
     obind (olift (sprintf (pk_DATA zero_packet) txt)) (\<lambda>d.
       oret (user_packet_bytes (pk_mark (zero_packet\<lparr>pk_checkcode := c, pk_DATA := d\<rparr>)))))"

text \<open>Where a case of the switch ends: at its \<open>break\<close>, with the request as it then is, or at a \<open>return\<close>.\<close>

datatype hres = Broke CLN | Returned

text \<open>
  The packet is sent; if that fails, the socket is closed, the request is finished and the handler
  returns, otherwise it continues.
\<close>

definition reply :: "nat \<Rightarrow> CLN \<Rightarrow> nat \<Rightarrow> string \<Rightarrow> string \<Rightarrow> hres op \<Rightarrow> hres op" where
  "reply p a c tag txt rest =
     obind (tag_packet tag txt) (\<lambda>b.
     obind (SyncSend c b (conn a)) (\<lambda>len.
       if len = -1 \<or> len = 0
       then obind (closesocket c) (\<lambda>_. obind (finish p a) (\<lambda>_. oret Returned))
       else rest))"

section \<open>Splitting\<close>

definition split_str :: "buf \<Rightarrow> nat \<Rightarrow> int \<Rightarrow> char \<Rightarrow> (buf list option \<times> int) op" where
  "split_str b n old delim w =
     obind (olift (StrSplit (wd_smal w (wd_smc w)) (wd_sjunk w) b (int n) old delim)) oret (w\<lparr>wd_smc := wd_smc w + 1\<rparr>)"

text \<open>\<open>releaseStr(v, n)\<close> on a vector all of whose pieces are allocated.\<close>

definition release_vec :: "buf list option \<Rightarrow> int \<Rightarrow> unit op" where
  "release_vec v n = (case v of
       None \<Rightarrow> if n = 0 then oret () else ofault NullDeref
     | Some xs \<Rightarrow> obind (olift (releaseStr (replicate (length xs) True) (nat n))) (\<lambda>_. oret ()))"

text \<open>The string \<open>v[i]\<close>.\<close>

definition piece :: "buf list option \<Rightarrow> nat \<Rightarrow> string op" where
  "piece v i = (case v of
       None \<Rightarrow> ofault NullDeref
     | Some xs \<Rightarrow> if i < length xs then cstring (xs ! i) else ofault OutOfBounds)"

section \<open>Keys, PINs and passwords\<close>

definition rand_key :: "RSAKey op" where
  "rand_key w = map_option (\<lambda>r. rbind r (\<lambda>(k, t). ok (k, w\<lparr>wd_rt := t\<rparr>))) (InitRSA (wd_rand w) (wd_rt w))"

definition rand_pin :: "buf \<Rightarrow> buf op" where
  "rand_pin b w = obind (olift (generateRandIntStr (\<lambda>i. wd_rand w (wd_rt w + i)) b 6)) oret (w\<lparr>wd_rt := wd_rt w + 6\<rparr>)"

text \<open>
  \<open>decodeMessage\<close> into the password field of the request: it writes \<open>len * bytes\<close> characters from there on,
  which reach into the arrays that follow in the structure.
\<close>

definition from_pw :: "CLN \<Rightarrow> buf" where
  "from_pw a = USERPASSWORD a @ checkcode a @ DATE a @ TalktoID a @ REUSERPASSWORD a @ data a @ info a @ Pin a"

definition set_from_pw :: "CLN \<Rightarrow> buf \<Rightarrow> CLN" where
  "set_from_pw a b = a\<lparr>USERPASSWORD := bytes_at 0 33 b, checkcode := bytes_at 33 18 b, DATE := bytes_at 51 100 b,
     TalktoID := bytes_at 151 12 b, REUSERPASSWORD := bytes_at 163 33 b, data := bytes_at 196 513 b,
     info := bytes_at 709 100 b, Pin := bytes_at 809 7 b\<rparr>"

definition decode_pw :: "nat \<Rightarrow> CLN \<Rightarrow> int list \<Rightarrow> CLN op" where
  "decode_pw len a ints = obind (olift (decodeMessage len (encryptBlockBytes (key a)) ints (from_pw a)
     (privateKey (key a)) (commonKey (key a)))) (\<lambda>b. oret (set_from_pw a b))"

text \<open>The same for \<open>REUSERPASSWORD\<close>.\<close>

definition decode_repw :: "nat \<Rightarrow> CLN \<Rightarrow> int list \<Rightarrow> CLN op" where
  "decode_repw len a ints = obind (olift (decodeMessage len (encryptBlockBytes (key a)) ints
     (REUSERPASSWORD a @ data a @ info a @ Pin a) (privateKey (key a)) (commonKey (key a)))) (\<lambda>b.
     oret (a\<lparr>REUSERPASSWORD := bytes_at 0 33 b, data := bytes_at 33 513 b, info := bytes_at 546 100 b, Pin := bytes_at 646 7 b\<rparr>))"

text \<open>\<open>Compute_string_md5(src, len, out)\<close> writes the digest and a NUL at \<open>out\<close>.\<close>

definition md5_into :: "buf \<Rightarrow> nat \<Rightarrow> buf \<Rightarrow> buf op" where
  "md5_into src len out w =
     (if length src < len then ofault OutOfBounds w else olift (put out (wd_md5 w (take len src) @ [NUL])) w)"

definition system_cmd :: "string \<Rightarrow> unit op" where
  "system_cmd s w = oret () (w\<lparr>wd_cmds := wd_cmds w @ [s]\<rparr>)"

section \<open>The top server\<close>

definition top_socket :: "nat op" where
  "top_socket w = oret (wd_top w) w"

definition Send2OnlineUserViaTopServer :: "CLN \<Rightarrow> int op" where
  "Send2OnlineUserViaTopServer a =
     obind (cstring (checkcode a)) (\<lambda>s1. obind (olift (sprintf (pk_checkcode zero_packet) s1)) (\<lambda>f1.
     obind (cstring (data a)) (\<lambda>s2. obind (olift (sprintf (pk_DATA zero_packet) s2)) (\<lambda>f2.
     obind (cstring (REUSERPASSWORD a)) (\<lambda>s3. obind (olift (sprintf (pk_REUSERPASSWORD zero_packet) s3)) (\<lambda>f3.
     obind (cstring (info a)) (\<lambda>s4. obind (olift (sprintf (pk_save zero_packet) s4)) (\<lambda>f4.
     obind (cstring (TalktoID a)) (\<lambda>s5. obind (olift (sprintf (pk_TalktoID zero_packet) s5)) (\<lambda>f5.
     obind (cstring (USERID a)) (\<lambda>s6. obind (olift (sprintf (pk_USERID zero_packet) s6)) (\<lambda>f6.
     obind (cstring (USERPASSWORD a)) (\<lambda>s7. obind (olift (sprintf (pk_USERPASSWORD zero_packet) s7)) (\<lambda>f7.
     obind top_socket (\<lambda>sock. obind (send_raw sock (user_packet_bytes \<lparr>pk_checkcode = f1, pk_USERID = f6, pk_USERPASSWORD = f7,
       pk_TalktoID = f5, pk_REUSERPASSWORD = f3, pk_DATA = f2, pk_save = f4[99 := HC]\<rparr>)) (\<lambda>len.
       if len = 0 then oret 0 else oret 1))))))))))))))))"

section \<open>Operations that keep the pending counters\<close>

text \<open>
  \<open>keeps m\<close>: when \<open>m\<close> returns, the same connections and requests are allocated as before, each with the same
  number of pending requests and the same owner. All operations other than \<open>task_new\<close>, \<open>task_done\<close> and \<open>freeNode\<close> keep them.
\<close>

definition same_tasks :: "world \<Rightarrow> world \<Rightarrow> bool" where
  "same_tasks w w' = (\<forall>q. map_option (\<lambda>c. (tasks c, length (info c), conn c)) (wd_conns w' q)
     = map_option (\<lambda>c. (tasks c, length (info c), conn c)) (wd_conns w q))"

definition keeps :: "'a op \<Rightarrow> bool" where
  "keeps m = (\<forall>w x w'. m w = Some (Inr (x, w')) \<longrightarrow> same_tasks w w')"

named_theorems keeping \<open>rules for operations that keep the pending counters\<close>

lemma same_tasks_refl [simp]: "same_tasks w w"
  by (simp add: same_tasks_def)

lemma same_tasks_trans: "same_tasks w w1 \<Longrightarrow> same_tasks w1 w2 \<Longrightarrow> same_tasks w w2"
  by (simp add: same_tasks_def)

lemma same_tasks_conns: "wd_conns w' = wd_conns w \<Longrightarrow> same_tasks w w'"
  by (simp add: same_tasks_def)

lemma keeps_conns: "(\<And>w x w'. m w = Some (Inr (x, w')) \<Longrightarrow> wd_conns w' = wd_conns w) \<Longrightarrow> keeps m"
  unfolding keeps_def using same_tasks_conns by blast

lemma keeps_obind [keeping]:
  assumes "keeps m" and "\<And>x. keeps (f x)"
  shows "keeps (obind m f)"
  using assms same_tasks_trans unfolding keeps_def obind_Inr by blast

lemma keeps_if [keeping]: "keeps a \<Longrightarrow> keeps b \<Longrightarrow> keeps (if c then a else b)"
  by simp

lemma keeps_option [keeping]: "keeps a \<Longrightarrow> (\<And>x. keeps (b x)) \<Longrightarrow> keeps (case v of None \<Rightarrow> a | Some x \<Rightarrow> b x)"
  by (cases v) simp_all

lemma keeps_list [keeping]: "keeps a \<Longrightarrow> (\<And>x xs. keeps (b x xs)) \<Longrightarrow> keeps (case v of [] \<Rightarrow> a | x # xs \<Rightarrow> b x xs)"
  by (cases v) simp_all

lemma keeps_prod [keeping]: "(\<And>x y. keeps (f x y)) \<Longrightarrow> keeps (case v of (x, y) \<Rightarrow> f x y)"
  by (cases v) simp

lemma keeps_basic [keeping]: "keeps (oret x)" "keeps (ofault e)" "keeps (olift r)"
  by (rule keeps_conns, auto simp: oret_def ofault_def olift_def rbind_eq_Inr)+

lemma keeps_db [keeping]:
  "keeps db_get" "keeps (db_release k)" "keeps (db_query q)" "keeps (fmt n s)" "keeps (cstring b)" "keeps (user_at u)"
  "keeps (find_reg i uid j)" "keeps (find_online i uid j)" "keeps (check_id i a)" "keeps (new_online a)" "keeps (add_local a)"
  "keeps (delete_user a)" "keeps (first_node l)" "keeps (lock_head l)" "keeps (unlock_head l)" "keeps (deref_conn d)"
  "keeps uninit_cln" "keeps uninit_pkt" "keeps (closesocket sock)" "keeps (col row ci)" "keeps (fetch_rows qr)"
  by (rule keeps_conns, auto simp: db_get_def db_release_def db_query_def fmt_def cstring_def user_at_def find_reg_def
      find_online_def check_id_def new_online_def add_local_def delete_user_def first_node_def lock_head_def unlock_head_def
      deref_conn_def uninit_cln_def uninit_pkt_def closesocket_def col_def fetch_rows_def olift_def oret_def ofault_def rbind_eq_Inr
      split: if_splits option.splits sum.splits)+

lemma keeps_net [keeping]: "keeps (SyncSend sock b p)" "keeps (send_raw sock b)" "keeps top_socket"
  by (rule keeps_conns, auto simp: SyncSend_def send_raw_def top_socket_def obind_Inr deref_conn_def oret_def ofault_def
      split: if_splits option.splits)+

lemma keeps_with_conn [keeping]: "(\<And>k. keeps (body k)) \<Longrightarrow> keeps (with_conn none body)"
  unfolding with_conn_def by (intro keeping)

lemma keeps_release_then [keeping]: "keeps m \<Longrightarrow> keeps (release_then k m)"
  unfolding release_then_def by (intro keeping)

lemma keeps_upd_conn [keeping]:
  assumes "\<And>c. tasks (f c) = tasks c \<and> length (info (f c)) = length (info c) \<and> conn (f c) = conn c"
  shows "keeps (upd_conn q f)"
  using assms by (auto simp: keeps_def upd_conn_def obind_Inr deref_conn_def set_conn_def oret_def ofault_def same_tasks_def
      split: if_splits option.splits)

lemma tasks_upd [simp]:
  "tasks (c\<lparr>USERKEY_ID := k\<rparr>) = tasks c" "tasks (c\<lparr>SeqNum := s\<rparr>) = tasks c" "tasks (c\<lparr>key := y\<rparr>) = tasks c"
  "tasks (c\<lparr>Pin := b\<rparr>) = tasks c" "tasks (c\<lparr>USERID := b\<rparr>) = tasks c" "tasks (c\<lparr>info := (info c)[0 := x]\<rparr>) = tasks c"
  by (simp_all add: tasks_def word_at_def nth_list_update)

lemma keeps_next_seq [keeping]: "keeps (next_seq q)"
  by (auto simp: keeps_def next_seq_def obind_Inr deref_conn_def set_conn_def oret_def ofault_def same_tasks_def Let_def
      split: if_splits option.splits)

lemma keeps_set:
  assumes "\<And>c x. tasks (g c x) = tasks c \<and> length (info (g c x)) = length (info c) \<and> conn (g c x) = conn c"
    and "\<And>c w x w'. f c w = Some (Inr (x, w')) \<Longrightarrow> w' = w" and "\<And>x. keeps (h x)"
  shows "keeps (obind (deref_conn q) (\<lambda>c. obind (f c) (\<lambda>x. obind (set_conn q (g c x)) h)))"
  unfolding keeps_def
proof (intro allI impI)
  fix w x w'
  assume "obind (deref_conn q) (\<lambda>c. obind (f c) (\<lambda>x. obind (set_conn q (g c x)) h)) w = Some (Inr (x, w'))"
  then obtain c y where c: "wd_conns w q = Some c" and h: "h () (w\<lparr>wd_conns := (wd_conns w)(q \<mapsto> g c y)\<rparr>) = Some (Inr (x, w'))"
    using assms(2) by (fastforce simp: obind_Inr deref_conn_def set_conn_def oret_def ofault_def split: if_splits option.splits)
  have "same_tasks w (w\<lparr>wd_conns := (wd_conns w)(q \<mapsto> g c y)\<rparr>)" using assms(1) c by (simp add: same_tasks_def)
  moreover have "same_tasks (w\<lparr>wd_conns := (wd_conns w)(q \<mapsto> g c y)\<rparr>) w'" using assms(3) h unfolding keeps_def by blast
  ultimately show "same_tasks w w'" by (rule same_tasks_trans)
qed

text \<open>The database operations.\<close>

lemma keeps_small [keeping]:
  "keeps today" "keeps (reg_key i uid)" "keeps (pk_head pk tag t u)" "keeps (pk_set_save pk s)" "keeps (pk_set_data pk s)"
  "keeps (encrypt_payload b pin)" "keeps (UpdateSqlInfoTimestamp x y z)"
proof -
  have "keeps (obind (fmt 20 d) oret)" for d by (intro keeping)
  then show "keeps today" unfolding keeps_def today_def by blast
qed (unfold reg_key_def pk_head_def pk_set_save_def pk_set_data_def encrypt_payload_def UpdateSqlInfoTimestamp_def, (intro keeping)+)

lemma keeps_row_packet [keeping]: "keeps (iot_row_packet a oc txt)"
  unfolding iot_row_packet_def by (intro keeping)

lemma keeps_send_row [keeping]: "keeps rest \<Longrightarrow> keeps (send_row a k b rest)"
  unfolding send_row_def by (intro keeping)

lemma keeps_rows [keeping]:
  "keeps (iot_rows a k pk rows)" "keeps (friend_rows a k rows)" "keeps (iotrel_rows a k pk rows)"
  "keeps (msg_rows a k pk rows)" "keeps (scene_rows a k rows)" "keeps (selfscene_rows a k rows)" "keeps (iotdata_rows a k rows)"
  by (induction rows arbitrary: pk; simp only: iot_rows.simps friend_rows.simps iotrel_rows.simps msg_rows.simps
      scene_rows.simps selfscene_rows.simps iotdata_rows.simps; intro keeping; assumption?)+

lemma keeps_writes [keeping]:
  "keeps (NewUserFriend a f)" "keeps (NewUserIot a f)" "keeps (NewUserSceneCmdStore a c st cls g t e)"
  "keeps (NewIotCmdToBeExecute a c cls st t)" "keeps (NewUserMsgStorage a f)" "keeps (UserDeleteSce a f)"
  "keeps (IotUpdateStatus a cls st)" "keeps (IotRegister a cls)" "keeps (UserRegiter a)"
  unfolding NewUserFriend_def NewUserIot_def NewUserSceneCmdStore_def NewIotCmdToBeExecute_def NewUserMsgStorage_def
    UserDeleteSce_def IotUpdateStatus_def IotRegister_def UserRegiter_def
  by (intro keeping)+

lemma keeps_queries [keeping]:
  "keeps (UserGetIotData a)" "keeps (UserReqFriendRel a)" "keeps (UserReqIotRel a)"
  "keeps (IotReadCmd a cls del)" "keeps (IotReadSelfSceneCmd a kid)" "keeps (IotGetIotData a kid)"
  unfolding UserGetIotData_def UserReqFriendRel_def UserReqIotRel_def IotReadCmd_def IotReadSelfSceneCmd_def IotGetIotData_def
  by (intro keeping)+

text \<open>The account operations.\<close>

lemma keeps_load_rows [keeping]: "(\<And>a row. keeps (rf a row)) \<Longrightarrow> keeps (load_rows rf a rows)"
proof (induction rows arbitrary: a)
  case Nil
  show ?case unfolding load_rows.simps by (intro keeping)
next
  case (Cons row rows)
  show ?case unfolding load_rows.simps by (intro keeping Cons)
qed

lemma keeps_row [keeping]: "keeps (user_row a row)" "keeps (iot_row a row)"
  unfolding iot_row_def user_row_def by (intro keeping)+

lemma keeps_accounts [keeping]:
  "keeps (take_key a t)" "keeps sto_packet" "keeps (load_iots k a)" "keeps UpdateLocalRegUserAndIotlist"
  "keeps (find_after t q)" "keeps (set_password t b)"
proof -
  show "keeps (take_key a t)" unfolding take_key_def by (intro keeping) simp
  show "keeps sto_packet" unfolding sto_packet_def by (intro keeping)
  show li: "keeps (load_iots k a)" for k a unfolding load_iots_def by (intro keeping)
  show "keeps UpdateLocalRegUserAndIotlist" unfolding UpdateLocalRegUserAndIotlist_def by (intro keeping li)
  show "keeps (find_after t q)" by (rule keeps_conns) (auto simp: find_after_def rbind_eq_Inr)
  show "keeps (set_password t b)" by (rule keeps_conns)
    (auto simp: set_password_def obind_Inr user_at_def olift_def oret_def rbind_eq_Inr)
qed

lemma keeps_SIGNIN [keeping]: "keeps (SIGNIN a)" "keeps (Register a mt)" "keeps (UserRePwd a)"
  unfolding SIGNIN_def Register_def UserRePwd_def Let_def by (intro keeping)+

text \<open>The helpers of this theory.\<close>

lemma keeps_session [keeping]:
  "keeps (load_ints k b n)" "keeps (tag_packet tag txt)" "keeps (split_str b n old delim)" "keeps (release_vec v m)"
  "keeps (piece v i)" "keeps rand_key" "keeps (rand_pin b)" "keeps (decode_pw n a ints)" "keeps (decode_repw n a ints)"
  "keeps (md5_into b n out)" "keeps (system_cmd s)" "keeps (Send2OnlineUserViaTopServer a)"
proof -
  show "keeps (load_ints k b n)" "keeps (tag_packet tag txt)" "keeps (release_vec v m)" "keeps (piece v i)"
    "keeps (decode_pw n a ints)" "keeps (decode_repw n a ints)" "keeps (Send2OnlineUserViaTopServer a)"
    unfolding load_ints_def tag_packet_def release_vec_def piece_def decode_pw_def decode_repw_def Send2OnlineUserViaTopServer_def
    by (intro keeping)+
  show "keeps (split_str b n old delim)" "keeps rand_key" "keeps (rand_pin b)" "keeps (md5_into b n out)" "keeps (system_cmd s)"
    by (rule keeps_conns, auto simp: split_str_def rand_key_def rand_pin_def md5_into_def system_cmd_def obind_Inr olift_def
        oret_def ofault_def rbind_eq_Inr split: if_splits)+
qed

end
