(* ===== verification/IotTalk.thy ===== *)
theory IotTalk
  imports Session
begin

text \<open>
  The request handler of devices, src/src/IoT_Talk.c: one definition per operation code. The result is the
  return value, which \<open>talk\<close> ignores.
\<close>

text \<open>\<open>SEND_OP_BACK\<close> with the payload of \<open>SendStruct\<close>.\<close>

definition send_op_back :: "CLN \<Rightarrow> buf \<Rightarrow> string \<Rightarrow> unit op" where
  "send_op_back a pl str =
     obind (next_seq (conn a)) (\<lambda>sn.
     obind (SyncSend (SOCKET a) (iot_packet str sn pl) (conn a)) (\<lambda>len.
       if len = -1 \<or> len = 0 then closesocket (SOCKET a) else oret ()))"

abbreviation no_payload :: buf where
  "no_payload \<equiv> replicate 200 NUL"

definition signed_in :: "CLN \<Rightarrow> bool op" where
  "signed_in a = obind (olift (rd (info a) 0)) (\<lambda>c. oret (c = CHR ''Y''))"

text \<open>\<open>Decrypt(a->data, strlen(a->data), a->Pin, a->data)\<close>\<close>

definition decrypt_data :: "CLN \<Rightarrow> CLN op" where
  "decrypt_data a = obind (olift (strlen (data a))) (\<lambda>n. obind (olift (Decrypt 0 (int n) (Pin a) 0 (data a))) (\<lambda>d. oret (a\<lparr>data := d\<rparr>)))"

definition raw_piece :: "buf list option \<Rightarrow> nat \<Rightarrow> buf op" where
  "raw_piece v i = (case v of None \<Rightarrow> ofault NullDeref | Some xs \<Rightarrow> if i < length xs then oret (xs ! i) else ofault OutOfBounds)"

definition iot_1_rsa :: "CLN \<Rightarrow> int op" where
  "iot_1_rsa a =
     obind rand_key (\<lambda>_. obind rand_key (\<lambda>k.
     obind (upd_conn (conn a) (\<lambda>d. d\<lparr>key := k\<rparr>)) (\<lambda>_.
     obind (olift (sprintf no_payload (dec_int (publicKey k) @ ''_'' @ dec_int (commonKey k) @ ''_''
            @ dec_int (int (encryptBlockBytes k)) @ ''_''))) (\<lambda>pl.
     obind (send_op_back a pl ''01'') (\<lambda>_. oret 1)))))"

text \<open>\<open>memcpy(a->conn->Pin, a->Pin, 6)\<close>\<close>

definition conn_pin :: "nat \<Rightarrow> buf \<Rightarrow> unit op" where
  "conn_pin q pin = obind (deref_conn q) (\<lambda>d. obind (olift (memcpy (Pin d) pin 6)) (\<lambda>dp. obind (set_conn q (d\<lparr>Pin := dp\<rparr>)) (\<lambda>_. oret ())))"

text \<open>The connection is marked as signed in under the id \<open>s\<close>.\<close>

definition conn_signed :: "nat \<Rightarrow> string \<Rightarrow> unit op" where
  "conn_signed q s = obind (deref_conn q) (\<lambda>d. obind (olift (sprintf (USERID d) s)) (\<lambda>du.
     obind (set_conn q (d\<lparr>info := (info d)[0 := CHR ''Y''], USERID := du\<rparr>)) (\<lambda>_. oret ())))"

definition iot_2_pin :: "CLN \<Rightarrow> int op" where
  "iot_2_pin a =
     (let b = encryptBlockBytes (key a) in
      if b = 0 then oret 0
      else obind (rand_pin (Pin a)) (\<lambda>pin0.
           obind (olift (wr pin0 6 NUL)) (\<lambda>pin.
           obind (conn_pin (conn a) pin) (\<lambda>_.
           obind (olift (encodeMessage 6 b pin (replicate 30 0) (privateKey (key a)) (commonKey (key a)))) (\<lambda>enc.
           obind (olift (memcpy (replicate 100 NUL) (bytes_of enc) (6 * b * 4))) (\<lambda>eb.
           obind (olift (memcpy no_payload eb (4 * b * 6))) (\<lambda>pl.
           obind (olift (wr pl (int (6 * b * 4)) (CHR ''_''))) (\<lambda>pl'.
           obind (send_op_back a pl' ''02'') (\<lambda>_. oret 1)))))))))"

text \<open>The password is copied from the second piece as it lies in memory.\<close>

definition iot_3_sign :: "CLN \<Rightarrow> int op" where
  "iot_3_sign a =
     obind (deref_conn (conn a)) (\<lambda>d0.
     obind (olift (rd (info d0) 0)) (\<lambda>i0.
     if i0 \<noteq> CHR ''Y'' \<and> encryptBlockBytes (key a) \<noteq> 0
     then obind (split_str (data a) 200 0 (CHR ''_'')) (\<lambda>(v, n).
          if n < 2 then obind (release_vec v n) (\<lambda>_. oret 0)
          else obind (raw_piece v 1) (\<lambda>pw.
               obind (load_ints 100 pw (4 * 7 * encryptBlockBytes (key a))) (\<lambda>ints.
               obind (decode_pw 7 a ints) (\<lambda>a1.
               obind (piece v 0) (\<lambda>o0. obind (olift (sprintf (USERID a1) o0)) (\<lambda>uid.
               let a2 = a1\<lparr>USERID := uid\<rparr> in
               obind (Register a2 1) (\<lambda>_.
               obind (SIGNIN a2) (\<lambda>(r, a3).
               obind (if r = 1
                      then obind (conn_signed (conn a3) o0) (\<lambda>_.
                           let a4 = a3\<lparr>info := (info a3)[0 := CHR ''Y'']\<rparr> in
                           obind (find_reg 0 (Some (USERID a4)) 0) (\<lambda>t.
                           obind (if t \<noteq> 0 then take_key a4 t else oret a4) (\<lambda>a5.
                             send_op_back a5 no_payload ''03'')))
                      else send_op_back a3 no_payload ''23'') (\<lambda>_.
               obind (release_vec v n) (\<lambda>_. oret 1))))))))))
     else obind (send_op_back a no_payload ''23'') (\<lambda>_. oret 1)))"

text \<open>The loop over the pairs of a status report; the counter goes up by two until it reaches the size.\<close>

fun iot_pairs :: "CLN \<Rightarrow> buf list option \<Rightarrow> nat \<Rightarrow> nat \<Rightarrow> unit op" where
  "iot_pairs a v i 0 = oret ()"
| "iot_pairs a v i (Suc n) =
     obind (piece v i) (\<lambda>k.
     obind (if atoi k = 0
            then obind (olift (sprintf (data a) ''status'')) (\<lambda>d.
                 obind (piece v (i + 1)) (\<lambda>x.
                 obind (IotUpdateStatus (a\<lparr>data := d\<rparr>) 0 (atoi x)) (\<lambda>r.
                 obind (send_op_back a no_payload (if r \<noteq> 0 then ''04'' else ''24'')) (\<lambda>_. oret (a\<lparr>data := d\<rparr>)))))
            else if atoi k = 1 \<or> atoi k = 3
            then obind (piece v (i + 1)) (\<lambda>x.
                 obind (olift (sprintf (data a) x)) (\<lambda>d.
                 obind (IotUpdateStatus (a\<lparr>data := d\<rparr>) (atoi k) 0) (\<lambda>r.
                 obind (send_op_back a no_payload (if r \<noteq> 0 then ''04'' else ''24'')) (\<lambda>_. oret (a\<lparr>data := d\<rparr>)))))
            else oret a) (\<lambda>a' w. iot_pairs a' v (i + 2) n w))"

definition iot_4_update :: "CLN \<Rightarrow> int op" where
  "iot_4_update a =
     obind (signed_in a) (\<lambda>s. if \<not> s then oret 0
     else obind (decrypt_data a) (\<lambda>a1.
          obind (split_str (data a1) 200 0 (CHR ''_'')) (\<lambda>(v, n).
          if n mod 2 \<noteq> 0 then oret 0
          else obind (iot_pairs a1 v 0 (nat n div 2)) (\<lambda>_. obind (release_vec v n) (\<lambda>_. oret 1)))))"

text \<open>The command that was read is encrypted from \<open>a->data\<close> into the payload of the packet.\<close>

definition iot_5_cmd :: "CLN \<Rightarrow> int op" where
  "iot_5_cmd a =
     obind (signed_in a) (\<lambda>s. if \<not> s then oret 0
     else obind (decrypt_data a) (\<lambda>a1.
          obind (split_str (data a1) 200 0 (CHR ''_'')) (\<lambda>(v, n).
          if n < 1 then oret 1
          else obind (piece v 0) (\<lambda>o0.
               obind (IotReadCmd a1 (atoi o0) 0) (\<lambda>(r, a2).
               if r = 0 then obind (send_op_back a2 no_payload ''25'') (\<lambda>_. oret 1)
               else obind (IotReadCmd a2 (atoi o0) 1) (\<lambda>(r', a3).
                    obind (olift (strlen (data a3))) (\<lambda>dl.
                    obind (olift (Encrypt 0 (int dl) (Pin a3) (int (length (data a3))) (data a3 @ no_payload))) (\<lambda>mem.
                    obind (send_op_back a3 (drop (length (data a3)) mem) ''05'') (\<lambda>_. oret 1)))))))))"

definition iot_6_scene :: "CLN \<Rightarrow> int op" where
  "iot_6_scene a = obind (signed_in a) (\<lambda>s. if \<not> s then oret 0 else obind (IotReadSelfSceneCmd a (USERKEY_ID a)) (\<lambda>_. oret 1))"

fun iot_reads :: "CLN \<Rightarrow> buf list option \<Rightarrow> nat \<Rightarrow> nat \<Rightarrow> unit op" where
  "iot_reads a v i 0 = oret ()"
| "iot_reads a v i (Suc n) = obind (piece v i) (\<lambda>x. obind (IotGetIotData a (atoi x)) (\<lambda>_ w. iot_reads a v (i + 1) n w))"

definition iot_7_read :: "CLN \<Rightarrow> int op" where
  "iot_7_read a =
     obind (signed_in a) (\<lambda>s. if \<not> s then oret 0
     else obind (split_str (data a) 200 0 (CHR ''_'')) (\<lambda>(v, n).
          obind (iot_reads a v 0 (nat n)) (\<lambda>_. obind (release_vec v n) (\<lambda>_. oret 1))))"

text \<open>A device that is online here gets the command with the counter and the mutex of the sender's connection.\<close>

definition iot_8_send :: "CLN \<Rightarrow> int op" where
  "iot_8_send a =
     obind (signed_in a) (\<lambda>s. if \<not> s then oret 0
     else obind (decrypt_data a) (\<lambda>a1.
          obind (split_str (data a1) 200 0 (CHR ''_'')) (\<lambda>(v, n).
          if n < 3 then obind (release_vec v n) (\<lambda>_. oret 0)
          else obind (piece v 0) (\<lambda>o0. obind (piece v 1) (\<lambda>o1. obind (piece v 2) (\<lambda>o2.
               obind (find_online 10 None (atoi o0)) (\<lambda>t.
               obind (if t = 0
                      then obind (olift (sprintf (checkcode empty_cln) ''00'')) (\<lambda>cc.
                           obind (olift (sprintf (data empty_cln) (o1 @ ''_'' @ o2 @ ''_''))) (\<lambda>d.
                           obind (find_reg 10 None (atoi o0)) (\<lambda>g. obind (user_at g) (\<lambda>u.
                           obind (cstring (u_USERID u)) (\<lambda>i. obind (olift (sprintf (TalktoID empty_cln) i)) (\<lambda>tid.
                           obind (Send2OnlineUserViaTopServer (empty_cln\<lparr>checkcode := cc, data := d, USERKEY_ID := atoi o0, TalktoID := tid\<rparr>)) (\<lambda>_.
                             oret ())))))))
                      else obind (user_at t) (\<lambda>u.
                           obind (olift (sprintf no_payload (o1 @ ''_'' @ o2 @ ''_''))) (\<lambda>pl.
                           obind (deref_conn (CONNHANDLE u)) (\<lambda>d.
                           obind (encrypt_payload pl (Pin d)) (\<lambda>e.
                             send_op_back (a1\<lparr>SOCKET := USER_SOCKET u\<rparr>) e ''00''))))) (\<lambda>_.
               obind (release_vec v n) (\<lambda>_. oret 1)))))))))"

definition iot_9_store :: "CLN \<Rightarrow> int op" where
  "iot_9_store a =
     obind (signed_in a) (\<lambda>s. if \<not> s then oret 0
     else obind (decrypt_data a) (\<lambda>a1.
          obind (split_str (data a1) 200 0 (CHR ''_'')) (\<lambda>(v, n).
          if n \<noteq> 3 then obind (release_vec v n) (\<lambda>_. oret 0)
          else obind (piece v 0) (\<lambda>o0.
               obind (find_reg 10 None (atoi o0)) (\<lambda>t.
               if t = 0 then obind (release_vec v n) (\<lambda>_. obind (send_op_back a1 no_payload ''29'') (\<lambda>_. oret 0))
               else obind (user_at t) (\<lambda>u.
                    obind (cstring (u_USERID u)) (\<lambda>i. obind (olift (sprintf (TalktoID a1) i)) (\<lambda>tid.
                    obind (piece v 1) (\<lambda>o1. obind (piece v 2) (\<lambda>o2.
                    obind (NewIotCmdToBeExecute (a1\<lparr>TalktoID := tid\<rparr>) o2 (atoi o1) (if atoi o1 = 0 then atoi o2 else 0) ''00:00:00'') (\<lambda>r.
                    if r \<noteq> 1 then obind (release_vec v n) (\<lambda>_. obind (send_op_back a1 no_payload ''29'') (\<lambda>_. oret 0))
                    else obind (send_op_back a1 no_payload ''09'') (\<lambda>_. obind (release_vec v n) (\<lambda>_. oret 1)))))))))))))"

definition IoTtalk :: "CLN \<Rightarrow> int op" where
  "IoTtalk a =
     obind (cstring (checkcode a)) (\<lambda>s.
     let op = atoi s in
     if op = 1 then iot_1_rsa a else if op = 2 then iot_2_pin a else if op = 3 then iot_3_sign a
     else if op = 4 then iot_4_update a else if op = 5 then iot_5_cmd a else if op = 6 then iot_6_scene a
     else if op = 7 then iot_7_read a else if op = 8 then iot_8_send a else if op = 9 then iot_9_store a
     else oret 1)"

section \<open>Pending counters\<close>

lemma keeps_conn_pin [keeping]: "keeps (conn_pin q pin)" "keeps (conn_signed q s)"
  unfolding conn_pin_def conn_signed_def
  by (rule keeps_set, simp_all add: keeping olift_def rbind_eq_Inr tasks_def word_at_def nth_list_update)+

lemma keeps_iot_helpers [keeping]:
  "keeps (send_op_back a pl s)" "keeps (signed_in a)" "keeps (decrypt_data a)" "keeps (raw_piece v i)"
  unfolding send_op_back_def signed_in_def decrypt_data_def raw_piece_def by (intro keeping)+

lemma keeps_iot_pairs [keeping]: "keeps (iot_pairs a v i n)"
  by (induction n arbitrary: a i; simp only: iot_pairs.simps; intro keeping; assumption?)

lemma keeps_iot_reads [keeping]: "keeps (iot_reads a v i n)"
  by (induction n arbitrary: i; simp only: iot_reads.simps; intro keeping; assumption?)

lemma keeps_IoTtalk [keeping]: "keeps (IoTtalk a)"
proof -
  have "keeps (iot_1_rsa a)" unfolding iot_1_rsa_def by (intro keeping) simp
  moreover have "keeps (iot_2_pin a)" unfolding iot_2_pin_def Let_def by (intro keeping)
  moreover have "keeps (iot_3_sign a)" unfolding iot_3_sign_def Let_def by (intro keeping)
  moreover have "keeps (iot_4_update a)" "keeps (iot_5_cmd a)" "keeps (iot_6_scene a)" "keeps (iot_7_read a)" "keeps (iot_8_send a)"
      "keeps (iot_9_store a)"
    unfolding iot_4_update_def iot_5_cmd_def iot_6_scene_def iot_7_read_def iot_8_send_def iot_9_store_def by (intro keeping)+
  ultimately show ?thesis unfolding IoTtalk_def Let_def by (intro keeping)
qed

end
