(* ===== verification/Talk.thy ===== *)
theory Talk
  imports IotTalk
begin

text \<open>
  The request handler of users, src/src/Talk.c: one definition per case of the switch. A case gets the
  address \<open>p\<close> of the request, the request \<open>a\<close>, and the socket \<open>c\<close>; it ends at its \<open>break\<close> or at a \<open>return\<close>.
  Only the cases that finish the request themselves, or whose \<open>break\<close> is followed by \<open>finish\<close>, give the
  request back; several early returns do not.
\<close>

section \<open>Keys and PINs\<close>

definition talk_RSA :: "nat \<Rightarrow> CLN \<Rightarrow> nat \<Rightarrow> hres op" where
  "talk_RSA p a c =
     obind rand_key (\<lambda>_. obind rand_key (\<lambda>k.
     obind (upd_conn (conn a) (\<lambda>d. d\<lparr>key := k\<rparr>)) (\<lambda>_.
     reply p (a\<lparr>key := k\<rparr>) (SOCKET a) ''RSA''
       (dec_int (publicKey k) @ ''_'' @ dec_int (commonKey k) @ ''_'' @ dec_int (int (encryptBlockBytes k)) @ ''_'')
       (oret (Broke (a\<lparr>key := k\<rparr>))))))"

text \<open>The case of \<open>HBA\<close> has no \<open>break\<close>.\<close>

definition talk_HBA :: "nat \<Rightarrow> CLN \<Rightarrow> nat \<Rightarrow> hres op" where
  "talk_HBA p a c = reply p a c ''HBA'' [] (talk_RSA p a c)"

text \<open>
  For a signed-in user the arguments of \<open>Compute_string_md5\<close> are exchanged: the digest of the empty text is
  written over the PIN. Otherwise the PIN is mailed to the address in the request by a shell command.
\<close>

definition pin_signed :: "nat \<Rightarrow> CLN \<Rightarrow> buf \<Rightarrow> hres op" where
  "pin_signed p a pin =
     obind (olift (encodeMessage 6 (encryptBlockBytes (key a)) pin (replicate 100 0) (privateKey (key a)) (commonKey (key a)))) (\<lambda>enc.
     obind (olift (memcpy (replicate 100 NUL) (bytes_of enc) (4 * 6 * encryptBlockBytes (key a)))) (\<lambda>eb.
     obind (olift (wr pin 6 NUL)) (\<lambda>pin'.
     obind (md5_into (replicate 33 NUL) 32 pin') (\<lambda>pin2.
     obind (cstring eb) (\<lambda>s.
       reply p (a\<lparr>Pin := pin2\<rparr>) (SOCKET a) ''PIN'' (s @ ''_'' @ [] @ ''_'') (oret (Broke (a\<lparr>Pin := pin2\<rparr>))))))))"

definition pin_mail :: "nat \<Rightarrow> CLN \<Rightarrow> buf \<Rightarrow> hres op" where
  "pin_mail p a pin =
     obind (olift (memcpy (replicate 50 NUL) (data a) 50)) (\<lambda>mail.
     obind (cstring mail) (\<lambda>m. obind (cstring pin) (\<lambda>s.
     obind (fmt 100 (''cmd.exe /c '' @ [CHR 0x22] @ ''PINSend.bat'' @ [CHR 0x22] @ '' '' @ m @ '' '' @ s)) (\<lambda>cmd.
     obind (system_cmd cmd) (\<lambda>_.
       reply p (a\<lparr>Pin := pin\<rparr>) (SOCKET a) ''PIN'' [] (oret (Broke (a\<lparr>Pin := pin\<rparr>))))))))"

definition talk_PIN :: "nat \<Rightarrow> CLN \<Rightarrow> nat \<Rightarrow> hres op" where
  "talk_PIN p a c =
     (if encryptBlockBytes (key a) = 0 then oret Returned
      else obind (rand_pin (Pin a)) (\<lambda>pin.
           obind (upd_conn (conn a) (\<lambda>d. d\<lparr>Pin := pin\<rparr>)) (\<lambda>_.
           obind (olift (rd (info a) 0)) (\<lambda>i0.
             if i0 = CHR ''Y'' then pin_signed p a pin else pin_mail p a pin))))"

section \<open>Accounts\<close>

definition talk_SIA :: "nat \<Rightarrow> CLN \<Rightarrow> nat \<Rightarrow> hres op" where
  "talk_SIA p a c =
     obind (load_ints 100 (data a) (4 * 32 * encryptBlockBytes (key a))) (\<lambda>ints.
     obind (decode_pw 32 a ints) (\<lambda>a1.
     obind (olift (wr (USERPASSWORD a1) 32 NUL)) (\<lambda>pw.
     obind (SIGNIN (a1\<lparr>USERPASSWORD := pw\<rparr>)) (\<lambda>(r, a2).
       if r = 1
       then obind (upd_conn (conn a2) (\<lambda>d. d\<lparr>USERID := USERID a2\<rparr>)) (\<lambda>_.
            obind (find_reg 0 (Some (USERID a2)) 0) (\<lambda>t.
            obind (if t \<noteq> 0 then take_key a2 t else oret a2) (\<lambda>a3.
            obind (upd_conn (conn a3) (\<lambda>d. d\<lparr>info := (info d)[0 := CHR ''Y'']\<rparr>)) (\<lambda>_.
            let a4 = a3\<lparr>info := (info a3)[0 := CHR ''Y'']\<rparr> in
              reply p a4 c ''SIA'' [] (oret (Broke a4))))))
       else reply p a2 c ''SiA'' [] (oret (Broke a2))))))"

text \<open>After a wrong PIN the answer is \<open>RPE\<close>, but the registration goes on.\<close>

definition rea_register :: "nat \<Rightarrow> CLN \<Rightarrow> nat \<Rightarrow> hres op" where
  "rea_register p a c =
     obind (load_ints 96 (data a) (32 * encryptBlockBytes (key a) * 4)) (\<lambda>ints.
     obind (decode_pw 32 a ints) (\<lambda>a1.
     obind (olift (wr (USERPASSWORD a1) 32 NUL)) (\<lambda>pw.
     obind (olift (Decrypt 0 32 (Pin a1) 0 pw)) (\<lambda>pw'.
     let a2 = a1\<lparr>USERPASSWORD := pw'\<rparr> in
     obind (Register a2 0) (\<lambda>r.
       if r = 1 then reply p a2 c ''REA'' [] (oret (Broke a2)) else reply p a2 c ''ReA'' [] (oret (Broke a2)))))))"

definition talk_REA :: "nat \<Rightarrow> CLN \<Rightarrow> nat \<Rightarrow> hres op" where
  "talk_REA p a c =
     obind UpdateLocalRegUserAndIotlist (\<lambda>_.
     obind (md5_into (Pin a) 6 (replicate 33 NUL)) (\<lambda>pm.
       if \<not> strcmp_eq pm (USERPASSWORD a) then reply p a c ''RPE'' [] (rea_register p a c) else rea_register p a c))"

definition talk_RPA :: "nat \<Rightarrow> CLN \<Rightarrow> nat \<Rightarrow> hres op" where
  "talk_RPA p a c =
     obind UpdateLocalRegUserAndIotlist (\<lambda>_.
     obind (load_ints 96 (data a) (32 * encryptBlockBytes (key a) * 4)) (\<lambda>ints.
     obind (decode_repw 32 a ints) (\<lambda>a1.
     obind (olift (Decrypt 0 32 (Pin a1) 0 (REUSERPASSWORD a1))) (\<lambda>rp.
     obind (olift (Decrypt 0 32 (Pin a1) 0 (USERPASSWORD a1))) (\<lambda>pw.
     let a2 = a1\<lparr>REUSERPASSWORD := rp, USERPASSWORD := pw\<rparr> in
     obind (UserRePwd a2) (\<lambda>r.
       if r = 1 then reply p a2 c ''RPA'' [] (oret (Broke a2)) else reply p a2 c ''RPF'' [] (oret (Broke a2))))))))"

definition talk_STO :: "nat \<Rightarrow> CLN \<Rightarrow> nat \<Rightarrow> hres op" where
  "talk_STO p a c = reply p a c ''STO'' [] (obind (delete_user a) (\<lambda>_. oret (Broke (a\<lparr>info := (info a)[0 := CHR ''N'']\<rparr>))))"

section \<open>Messages and relations\<close>

text \<open>The common part of \<open>TAA\<close> and \<open>ADD\<close>.\<close>

definition store_msg :: "nat \<Rightarrow> CLN \<Rightarrow> nat \<Rightarrow> string \<Rightarrow> hres op" where
  "store_msg p a c tag =
     obind (find_reg 0 (Some (TalktoID a)) 0) (\<lambda>f.
     if f = 0 then obind (finish p a) (\<lambda>_. oret Returned)
     else obind (user_at f) (\<lambda>u.
          obind (NewUserMsgStorage a (u_USERKEY_ID u)) (\<lambda>_. reply p a c tag [] (oret (Broke a)))))"

definition talk_TAA :: "nat \<Rightarrow> CLN \<Rightarrow> nat \<Rightarrow> hres op" where
  "talk_TAA p a c = store_msg p a c ''TAN''"

definition talk_ADD :: "nat \<Rightarrow> CLN \<Rightarrow> nat \<Rightarrow> hres op" where
  "talk_ADD p a c = obind UpdateLocalRegUserAndIotlist (\<lambda>_. store_msg p a c ''ADN'')"

text \<open>The second relation is stored for the key of an uninitialised structure.\<close>

definition talk_ADS :: "nat \<Rightarrow> CLN \<Rightarrow> nat \<Rightarrow> hres op" where
  "talk_ADS p a c =
     obind uninit_cln (\<lambda>tmp. obind (olift (strcpy (USERID tmp) (TalktoID a))) (\<lambda>tid.
     obind (find_reg 0 (Some (TalktoID a)) 0) (\<lambda>f. obind (user_at f) (\<lambda>u.
     obind (NewUserFriend a (u_USERKEY_ID u)) (\<lambda>r1.
     obind (if r1 = 0 then oret 0
            else obind (find_reg 0 (Some (USERID a)) 0) (\<lambda>g. obind (user_at g) (\<lambda>v.
                 NewUserFriend (tmp\<lparr>USERID := tid\<rparr>) (u_USERKEY_ID v)))) (\<lambda>r2.
       if r1 = 0 \<or> r2 = 0 then reply p a c ''ADS'' [] (oret (Broke a)) else reply p a c ''ADN'' [] (oret (Broke a))))))))"

definition talk_IOC :: "nat \<Rightarrow> CLN \<Rightarrow> nat \<Rightarrow> hres op" where
  "talk_IOC p a c =
     obind (cstring (TalktoID a)) (\<lambda>t.
     obind uninit_cln (\<lambda>tmp. obind (olift (sprintf (TalktoID tmp) t)) (\<lambda>tid.
     obind (NewUserIot (tmp\<lparr>USERKEY_ID := USERKEY_ID a, TalktoID := tid\<rparr>) 0) (\<lambda>r.
       if r \<noteq> 0 then reply p a c ''IOC'' [] (oret (Broke a)) else reply p a c ''ioc'' [] (oret (Broke a))))))"

definition talk_RCO :: "nat \<Rightarrow> CLN \<Rightarrow> nat \<Rightarrow> hres op" where
  "talk_RCO p a c = obind (UserReqFriendRel a) (\<lambda>_. obind (UserReqIotRel a) (\<lambda>_. oret (Broke a)))"

definition talk_IOT :: "nat \<Rightarrow> CLN \<Rightarrow> nat \<Rightarrow> hres op" where
  "talk_IOT p a c = obind (UserGetIotData a) (\<lambda>_. oret (Broke a))"

definition app_version :: "buf op" where
  "app_version w = oret (wd_version w) w"

definition talk_UPD :: "nat \<Rightarrow> CLN \<Rightarrow> nat \<Rightarrow> hres op" where
  "talk_UPD p a c =
     obind app_version (\<lambda>av. obind (cstring av) (\<lambda>v. obind (tag_packet ''UPD'' v) (\<lambda>b.
     obind (SyncSend c b (conn a)) (\<lambda>_. oret (Broke a)))))"

definition talk_default :: "nat \<Rightarrow> CLN \<Rightarrow> nat \<Rightarrow> hres op" where
  "talk_default p a c = reply p a c ''ERR'' [] (oret (Broke a))"

section \<open>Scenes and device commands\<close>

text \<open>The stored command of a scene, for the device \<open>p\<close> of the request.\<close>

definition sce_cmd :: "CLN \<Rightarrow> buf list option \<Rightarrow> string op" where
  "sce_cmd a v =
     obind (piece v 0) (\<lambda>o0. obind (piece v 1) (\<lambda>o1. obind (piece v 2) (\<lambda>o2.
     obind (find_reg 10 (Some (TalktoID a)) 0) (\<lambda>t. obind (user_at t) (\<lambda>u.
       fmt 200 (o0 @ ''-'' @ o1 @ ''-'' @ o2 @ ''-'' @ dec_int (u_USERKEY_ID u) @ ''-98-'' @ o0 @ ''+'' @ o1 @ ''+'' @ o2 @ ''+-''))))))"

text \<open>The two stores of a scene: for the device named first in the text, if it is not 0, and for the request.\<close>

definition sce_store :: "CLN \<Rightarrow> buf list option \<Rightarrow> string \<Rightarrow> string \<Rightarrow> string \<Rightarrow> unit op" where
  "sce_store a v cmd tm ed =
     obind (piece v 0) (\<lambda>o0.
     obind (if atoi o0 \<noteq> 0
            then obind (UserDeleteSce a (atoi o0)) (\<lambda>_.
                 obind (find_reg 10 None (atoi o0)) (\<lambda>t. obind (user_at t) (\<lambda>u.
                 obind (cstring (u_USERID u)) (\<lambda>i.
                 obind uninit_cln (\<lambda>tmp. obind (olift (sprintf (TalktoID tmp) i)) (\<lambda>tid.
                 obind (piece v 1) (\<lambda>o1.
                 obind (NewUserSceneCmdStore (tmp\<lparr>USERKEY_ID := USERKEY_ID a, TalktoID := tid\<rparr>) cmd 0 (atoi o1) 0 tm ed) (\<lambda>_.
                   oret ()))))))))
            else oret ()) (\<lambda>_.
     obind (cstring (data a)) (\<lambda>d.
     obind (NewUserSceneCmdStore a d 0 99 0 tm ed) (\<lambda>_. oret ()))))"

text \<open>
  Without a time part the number of pieces of \<open>DATE\<close> is stored in \<open>OutStrSize\<close>, the count of the other vector:
  \<open>OutStrSize1\<close> stays 0, and the other vector is released with the wrong count.
\<close>

definition sce_plain :: "CLN \<Rightarrow> hres op" where
  "sce_plain a =
     obind (split_str (data a) 200 0 (CHR ''-'')) (\<lambda>(v, n).
     if n < 7 then obind (release_vec v n) (\<lambda>_. oret Returned)
     else obind (sce_cmd a v) (\<lambda>cmd.
          obind (olift (strlen (DATE a))) (\<lambda>dl.
          obind (split_str (DATE a) dl n (CHR ''_'')) (\<lambda>(v1, n').
          obind (sce_store a v cmd ''00:00:00'' ''1111111'') (\<lambda>_.
          obind (release_vec v1 0) (\<lambda>_. obind (release_vec v n') (\<lambda>_. oret (Broke a))))))))"

definition sce_timed :: "CLN \<Rightarrow> hres op" where
  "sce_timed a =
     obind (split_str (data a) 200 0 (CHR ''-'')) (\<lambda>(v, n).
     if n < 7 then obind (release_vec v n) (\<lambda>_. oret Returned)
     else obind (sce_cmd a v) (\<lambda>cmd.
          obind (olift (strlen (DATE a))) (\<lambda>dl.
          obind (split_str (DATE a) dl 0 (CHR ''_'')) (\<lambda>(v1, n1).
          obind (if n1 < 2 then sce_store a v cmd ''00:00:00'' ''1111111''
                 else obind (piece v1 0) (\<lambda>tm. obind (piece v1 1) (\<lambda>ed. sce_store a v cmd tm ed))) (\<lambda>_.
          obind (release_vec v1 n1) (\<lambda>_. obind (release_vec v n) (\<lambda>_. oret (Broke a))))))))"

definition talk_SCE :: "nat \<Rightarrow> CLN \<Rightarrow> nat \<Rightarrow> hres op" where
  "talk_SCE p a c =
     obind (split_str (data a) 200 0 (CHR ''~'')) (\<lambda>(v, n).
     if n < 2 then obind (release_vec v n) (\<lambda>_. sce_plain a)
     else obind (piece v 0) (\<lambda>t0. obind (olift (sprintf (data a) t0)) (\<lambda>d.
          obind (piece v 1) (\<lambda>t1. obind (olift (sprintf (DATE a) t1)) (\<lambda>dt.
          obind (release_vec v n) (\<lambda>_. sce_timed (a\<lparr>data := d, DATE := dt\<rparr>)))))))"

text \<open>
  A command for a device: to the device itself when it is online here, otherwise to the top server. The
  structures \<open>tmp\<close> and \<open>SendStruct\<close> are not initialised.
\<close>

definition icm_packet :: "string \<Rightarrow> user \<Rightarrow> buf op" where
  "icm_packet txt u =
     obind uninit_pkt (\<lambda>ss. obind (olift (sprintf (bytes_at 5 200 ss) txt)) (\<lambda>pl.
     obind (deref_conn (CONNHANDLE u)) (\<lambda>d.
     obind (encrypt_payload pl (Pin d)) (\<lambda>e.
     obind (next_seq (CONNHANDLE u)) (\<lambda>sn.
       oret ((''00'' @ [NUL, sn, ss ! 4] @ e)[204 := HC]))))))"

definition talk_ICM :: "nat \<Rightarrow> CLN \<Rightarrow> nat \<Rightarrow> hres op" where
  "talk_ICM p a c =
     obind (olift (strlen (data a))) (\<lambda>dl.
     obind (split_str (data a) dl 0 (CHR ''_'')) (\<lambda>(v, n).
     if n < 2 then obind (release_vec v n) (\<lambda>_. oret Returned)
     else obind (find_online 10 (Some (TalktoID a)) 0) (\<lambda>t.
          if t = 0
          then obind (find_reg 10 (Some (TalktoID a)) 0) (\<lambda>g.
               if g = 0 then oret Returned
               else obind (cstring (TalktoID a)) (\<lambda>ti.
                    obind uninit_cln (\<lambda>tmp. obind (olift (sprintf (TalktoID tmp) ti)) (\<lambda>tid.
                    obind (olift (sprintf (checkcode tmp) ''00'')) (\<lambda>cc.
                    obind (piece v 0) (\<lambda>o0. obind (piece v 1) (\<lambda>o1.
                    obind (olift (sprintf (data tmp) (o0 @ ''_'' @ o1 @ ''_''))) (\<lambda>d.
                    obind (user_at g) (\<lambda>u.
                    obind (Send2OnlineUserViaTopServer (tmp\<lparr>TalktoID := tid, checkcode := cc, data := d,
                             USERKEY_ID := u_USERKEY_ID u\<rparr>)) (\<lambda>_.
                    obind (release_vec v n) (\<lambda>_. oret (Broke a))))))))))))
          else obind (piece v 0) (\<lambda>o0. obind (piece v 1) (\<lambda>o1.
               obind (user_at t) (\<lambda>u.
               obind (icm_packet (o0 @ ''_'' @ o1 @ ''_'') u) (\<lambda>b.
               obind (SyncSend (USER_SOCKET u) b (CONNHANDLE u)) (\<lambda>len.
               obind (if len = -1 \<or> len = 0 then closesocket (USER_SOCKET u) else oret ()) (\<lambda>_.
               obind (release_vec v n) (\<lambda>_. oret (Broke a)))))))))))"

text \<open>
  Replacing the scene of a device. Without a time part \<open>DSC\<close> is answered on failure and \<open>DSc\<close> on success; with
  a time part it is the other way round. \<open>SendDataStruct\<close> was cleared at the start of \<open>talk\<close>.
\<close>

definition dsc_replace :: "nat \<Rightarrow> CLN \<Rightarrow> nat \<Rightarrow> buf list option \<Rightarrow> int \<Rightarrow> (string \<times> string) op \<Rightarrow> string \<Rightarrow> string
    \<Rightarrow> buf list option \<Rightarrow> int \<Rightarrow> hres op" where
  "dsc_replace p a c v n tms tag_bad tag_good vt nt =
     obind (piece v 0) (\<lambda>o0.
     obind (UserDeleteSce a (atoi o0)) (\<lambda>r1.
     obind (if r1 = 0 then oret 0
            else obind (cstring (data a)) (\<lambda>d. obind (piece v 1) (\<lambda>o1. obind tms (\<lambda>(tm, ed).
                   NewUserSceneCmdStore a d 0 (atoi o1) 0 tm ed)))) (\<lambda>r2.
     obind (release_vec vt nt) (\<lambda>_. obind (release_vec v n) (\<lambda>_.
       reply p a c (if r1 = 0 \<or> r2 = 0 then tag_bad else tag_good) [] (oret (Broke a)))))))"

definition talk_DSC :: "nat \<Rightarrow> CLN \<Rightarrow> nat \<Rightarrow> hres op" where
  "talk_DSC p a c =
     obind (split_str (data a) 200 0 (CHR ''~'')) (\<lambda>(vT, nT).
     if nT < 2
     then obind (release_vec vT nT) (\<lambda>_.
          obind (olift (strlen (data a))) (\<lambda>dl.
          obind (split_str (data a) dl 0 (CHR ''-'')) (\<lambda>(v, n).
          if n < 6 then obind (release_vec v n) (\<lambda>_. oret Returned)
          else obind (piece v 0) (\<lambda>o0.
               obind (find_reg 10 None (atoi o0)) (\<lambda>t.
               if t = 0 then oret Returned
               else dsc_replace p a c v n (oret (''00:00:00'', ''1111111'')) ''DSC'' ''DSc'' None 0)))))
     else obind (piece vT 1) (\<lambda>t1.
          obind (split_str (t1 @ [NUL]) (length t1) 0 (CHR ''_'')) (\<lambda>(vt, nt).
          obind (piece vT 0) (\<lambda>t0. obind (olift (sprintf (data a) t0)) (\<lambda>d.
          obind (release_vec vT nT) (\<lambda>_.
          let a1 = a\<lparr>data := d\<rparr> in
          obind (olift (strlen (data a1))) (\<lambda>dl.
          obind (split_str (data a1) dl 0 (CHR ''-'')) (\<lambda>(v, n).
          if n < 3 then obind (release_vec vt nt) (\<lambda>_. obind (release_vec v n) (\<lambda>_. oret Returned))
          else obind (piece v 0) (\<lambda>o0.
               obind (find_reg 10 None (atoi o0)) (\<lambda>t.
               if t = 0 then oret Returned
               else dsc_replace p a1 c v n (obind (piece vt 0) (\<lambda>tm. obind (piece vt 1) (\<lambda>ed. oret (tm, ed))))
                      ''DSc'' ''DSC'' vt nt))))))))))"

section \<open>The whole handler\<close>

definition talk_case :: "opcode option \<Rightarrow> nat \<Rightarrow> CLN \<Rightarrow> nat \<Rightarrow> hres op" where
  "talk_case oc p a c = (case oc of
       None \<Rightarrow> talk_default p a c
     | Some HBA \<Rightarrow> talk_HBA p a c | Some RSA_REQ \<Rightarrow> talk_RSA p a c | Some PIN_REQ \<Rightarrow> talk_PIN p a c
     | Some SIB \<Rightarrow> talk_SIA p a c | Some SIA \<Rightarrow> talk_SIA p a c | Some REA \<Rightarrow> talk_REA p a c
     | Some RME \<Rightarrow> oret (Broke a) | Some SCE \<Rightarrow> talk_SCE p a c | Some IOT \<Rightarrow> talk_IOT p a c
     | Some TAA \<Rightarrow> talk_TAA p a c | Some STO \<Rightarrow> talk_STO p a c | Some UPD \<Rightarrow> talk_UPD p a c
     | Some ADD \<Rightarrow> talk_ADD p a c | Some ADS \<Rightarrow> talk_ADS p a c | Some ICM \<Rightarrow> talk_ICM p a c
     | Some DSC \<Rightarrow> talk_DSC p a c | Some IOC \<Rightarrow> talk_IOC p a c | Some RCO \<Rightarrow> talk_RCO p a c
     | Some RPA \<Rightarrow> talk_RPA p a c)"

definition talk :: "nat \<Rightarrow> int op" where
  "talk p =
     (if p = 0 then oret 0
      else obind (deref_conn p) (\<lambda>a.
           obind (olift (rd (checkcode a) 0)) (\<lambda>c0.
           if c0 = CHR ''t''
           then obind (send_raw (SOCKET a) (''TEST'' @ [NUL])) (\<lambda>_. obind (finish p a) (\<lambda>_. oret 0))
           else obind (olift (strlen (checkcode a))) (\<lambda>n.
           if n < 3
           then obind (IoTtalk a) (\<lambda>_. obind (finish p a) (\<lambda>_. oret 0))
           else obind (olift (dispatch_tag (checkcode a))) (\<lambda>oc.
                obind (talk_case oc p a (SOCKET a)) (\<lambda>r. case r of
                    Broke a' \<Rightarrow> obind (finish p a') (\<lambda>_. oret 0)
                  | Returned \<Rightarrow> oret 0))))))"

section \<open>Every finished request is counted down and freed once\<close>

text \<open>
  \<open>finished p q w w'\<close>: the request at \<open>p\<close> has been freed and the pending counter of the connection at \<open>q\<close> is one
  less; nothing else was allocated, freed or counted. \<open>hspec l p q h\<close>: the case \<open>h\<close> either reaches its \<open>break\<close> with
  all counters kept, or returns with the request finished; with \<open>l\<close>, it may also return with all counters kept.
\<close>

definition snap :: "world \<Rightarrow> nat \<Rightarrow> (nat \<times> nat \<times> nat) option" where
  "snap w q = map_option (\<lambda>c. (tasks c, length (info c), conn c)) (wd_conns w q)"

definition infos :: "world \<Rightarrow> bool" where
  "infos w = (\<forall>q n l r. snap w q = Some (n, l, r) \<longrightarrow> 6 \<le> l)"

definition finished :: "nat \<Rightarrow> nat \<Rightarrow> world \<Rightarrow> world \<Rightarrow> bool" where
  "finished p q w w' = (\<exists>n l r. snap w q = Some (n, l, r)
     \<and> snap w' = (snap w)(q \<mapsto> (nat ((int n - 1) mod 2 ^ 32), l, r), p := None))"

definition hspec :: "bool \<Rightarrow> nat \<Rightarrow> nat \<Rightarrow> hres op \<Rightarrow> bool" where
  "hspec l p q h = (\<forall>w r w'. infos w \<longrightarrow> h w = Some (Inr (r, w')) \<longrightarrow>
     (case r of Broke a' \<Rightarrow> same_tasks w w' \<and> conn a' = q | Returned \<Rightarrow> finished p q w w' \<or> l \<and> same_tasks w w'))"

definition returns :: "'a op \<Rightarrow> ('a \<Rightarrow> bool) \<Rightarrow> bool" where
  "returns m P = (\<forall>w x w'. m w = Some (Inr (x, w')) \<longrightarrow> P x)"

named_theorems handling \<open>rules for the cases of the handler\<close>

lemma same_tasks_snap: "same_tasks w w' = (snap w' = snap w)"
  by (auto simp: same_tasks_def snap_def fun_eq_iff)

lemma same_infos: "same_tasks w w' \<Longrightarrow> infos w \<Longrightarrow> infos w'"
  by (simp add: same_tasks_snap infos_def)

lemma word_at_bytes: "n < 2 ^ 32 \<Longrightarrow> word_at (xs @ word_bytes n @ ys) (length xs) = n"
proof -
  assume n: "n < 2 ^ 32"
  define a b c where "a = n div 256" and "b = a div 256" and "c = b div 256"
  have d: "n div 65536 = b" "n div 16777216 = c" by (simp_all add: a_def b_def c_def flip: div_mult2_eq)
  have "c < 256" using n d(2) by (simp flip: d(2)) 
  moreover have "n = 256 * a + n mod 256" "a = 256 * b + a mod 256" "b = 256 * c + b mod 256"
    by (simp_all add: a_def b_def c_def)
  ultimately have "n mod 256 + 256 * (a mod 256) + 65536 * (b mod 256) + 16777216 * (c mod 256) = n" by simp
  then show ?thesis
    by (simp add: word_at_def word_bytes_def nth_append of_char_of d flip: a_def)
qed

lemma conn_set_tasks [simp]: "conn (set_tasks n c) = conn c"
  by (simp add: set_tasks_def)

lemma tasks_set_tasks: "6 \<le> length (info c) \<Longrightarrow> n < 2 ^ 32 \<Longrightarrow> tasks (set_tasks n c) = n \<and> length (info (set_tasks n c)) = length (info c)"
  using word_at_bytes [of n "take 2 (info c)" "drop 6 (info c)"]
  by (simp add: tasks_def set_tasks_def) (simp add: word_bytes_def)

lemma finish_finished:
  assumes "infos w" and "finish p a w = Some (Inr (x, w'))" and "p \<noteq> 0"
  shows "finished p (conn a) w w'"
proof -
  obtain c where c: "wd_conns w (conn a) = Some c"
    and w': "wd_conns w' = (wd_conns w)(conn a \<mapsto> set_tasks (nat ((int (tasks c) - 1) mod 2 ^ 32)) c, p := None)"
    using assms(2,3) by (auto simp: finish_def obind_Inr task_done_def upd_conn_def deref_conn_def set_conn_def freeNode_def
        oret_def ofault_def split: if_splits option.splits)
  have "6 \<le> length (info c)" using assms(1) c by (auto simp: infos_def snap_def)
  moreover have "nat ((int (tasks c) - 1) mod 2 ^ 32) < 2 ^ 32" by (simp add: nat_less_iff)
  ultimately show ?thesis using c w' tasks_set_tasks [of c]
    by (auto simp: finished_def snap_def fun_eq_iff intro!: exI [of _ "tasks c"] exI [of _ "length (info c)"])
qed

lemma hs_obind:
  assumes "keeps m" and "returns m P" and "\<And>x. P x \<Longrightarrow> hspec l p q (f x)"
  shows "hspec l p q (obind m f)"
  unfolding hspec_def
proof (intro allI impI)
  fix w r w'
  assume i: "infos w" and "obind m f w = Some (Inr (r, w'))"
  then obtain x w1 where m: "m w = Some (Inr (x, w1))" and f: "f x w1 = Some (Inr (r, w'))" by (auto simp: obind_Inr)
  have s: "same_tasks w w1" and "P x" using assms(1,2) m unfolding keeps_def returns_def by blast+
  then have "case r of Broke a' \<Rightarrow> same_tasks w1 w' \<and> conn a' = q | Returned \<Rightarrow> finished p q w1 w' \<or> l \<and> same_tasks w1 w'"
    using assms(3) f same_infos [OF s i] unfolding hspec_def by blast
  then show "case r of Broke a' \<Rightarrow> same_tasks w w' \<and> conn a' = q | Returned \<Rightarrow> finished p q w w' \<or> l \<and> same_tasks w w'"
    using s by (cases r) (auto simp: same_tasks_snap finished_def)
qed

lemma hs_obind_any [handling]: "keeps m \<Longrightarrow> (\<And>x. hspec l p q (f x)) \<Longrightarrow> hspec l p q (obind m f)"
  by (rule hs_obind [of m "\<lambda>_. True"]) (simp_all add: returns_def)

lemma hs_basic [handling]: "conn a = q \<Longrightarrow> hspec l p q (oret (Broke a))" "hspec l p q (ofault e)"
  by (simp_all add: hspec_def oret_def ofault_def)

lemma hs_if [handling]: "hspec l p q a \<Longrightarrow> hspec l p q b \<Longrightarrow> hspec l p q (if c then a else b)"
  by simp

lemma hs_prod [handling]: "(\<And>x y. hspec l p q (f x y)) \<Longrightarrow> hspec l p q (case v of (x, y) \<Rightarrow> f x y)"
  by (cases v) simp

lemma hs_finish: "p \<noteq> 0 \<Longrightarrow> conn a = q \<Longrightarrow> hspec l p q (obind (finish p a) (\<lambda>_. oret Returned))"
  using finish_finished by (auto simp: hspec_def obind_Inr oret_def)

lemma hs_reply [handling]:
  assumes "p \<noteq> 0" and "conn a = q" and "hspec l p q rest"
  shows "hspec l p q (reply p a c tag txt rest)"
  unfolding reply_def using assms(3) by (intro handling keeping hs_finish [OF assms(1,2)])

lemma keeps_version [keeping]: "keeps app_version"
  by (rule keeps_conns) (simp add: app_version_def oret_def)

lemma hs_store_msg [handling]: "p \<noteq> 0 \<Longrightarrow> conn a = q \<Longrightarrow> hspec l p q (store_msg p a c tag)"
  unfolding store_msg_def by (intro handling keeping hs_finish)

lemma hs_simple [handling]:
  assumes "p \<noteq> 0"
  shows "hspec l p (conn a) (talk_HBA p a c)" "hspec l p (conn a) (talk_RSA p a c)" "hspec l p (conn a) (talk_STO p a c)"
    "hspec l p (conn a) (talk_TAA p a c)" "hspec l p (conn a) (talk_ADD p a c)" "hspec l p (conn a) (talk_ADS p a c)"
    "hspec l p (conn a) (talk_IOC p a c)" "hspec l p (conn a) (talk_RCO p a c)" "hspec l p (conn a) (talk_IOT p a c)"
    "hspec l p (conn a) (talk_UPD p a c)" "hspec l p (conn a) (talk_default p a c)"
proof -
  show rsa: "hspec l p (conn a) (talk_RSA p a c)" unfolding talk_RSA_def using assms by (intro handling keeping) simp_all
  show "hspec l p (conn a) (talk_HBA p a c)" unfolding talk_HBA_def using assms rsa by (intro handling refl)
  show "hspec l p (conn a) (talk_STO p a c)" unfolding talk_STO_def using assms by (intro handling keeping) simp_all
  show "hspec l p (conn a) (talk_TAA p a c)" "hspec l p (conn a) (talk_ADD p a c)" "hspec l p (conn a) (talk_ADS p a c)"
    "hspec l p (conn a) (talk_IOC p a c)" "hspec l p (conn a) (talk_RCO p a c)" "hspec l p (conn a) (talk_IOT p a c)"
    "hspec l p (conn a) (talk_UPD p a c)" "hspec l p (conn a) (talk_default p a c)"
    unfolding talk_TAA_def talk_ADD_def talk_ADS_def talk_IOC_def talk_RCO_def talk_IOT_def talk_UPD_def talk_default_def
    by (intro handling keeping refl assms)+
qed

text \<open>The request that the account operations give back belongs to the same connection.\<close>

lemma ret_obind: "(\<And>x. returns (f x) P) \<Longrightarrow> returns (obind m f) P"
  unfolding returns_def obind_Inr by blast

lemma ret_obind_val: "returns m Q \<Longrightarrow> (\<And>x. Q x \<Longrightarrow> returns (f x) P) \<Longrightarrow> returns (obind m f) P"
  unfolding returns_def obind_Inr by blast

lemma ret_if: "returns a P \<Longrightarrow> returns b P \<Longrightarrow> returns (if c then a else b) P"
  by simp

lemma ret_oret: "P x \<Longrightarrow> returns (oret x) P"
  by (simp add: returns_def oret_def)

lemma returns_take_key: "returns (take_key a t) (\<lambda>a'. conn a' = conn a)" "returns (if t \<noteq> 0 then take_key a t else oret a) (\<lambda>a'. conn a' = conn a)"
  unfolding take_key_def by (intro ret_if ret_obind ret_oret; simp)+

lemma returns_SIGNIN: "returns (SIGNIN a) (\<lambda>r. conn (snd r) = conn a)"
  unfolding SIGNIN_def Let_def
  by (rule ret_obind_val [OF returns_take_key(1)] ret_obind_val [OF returns_take_key(2)] | rule ret_obind ret_if ret_oret | simp)+

lemma returns_decode:
  "returns (decode_pw n a ints) (\<lambda>a'. conn a' = conn a)" "returns (decode_repw n a ints) (\<lambda>a'. conn a' = conn a)"
  unfolding decode_pw_def decode_repw_def by (intro ret_obind ret_oret; simp add: set_from_pw_def)+

lemmas hs_conn = hs_obind [OF keeps_session(8) returns_decode(1)] hs_obind [OF keeps_session(9) returns_decode(2)]
  hs_obind [OF keeps_SIGNIN(1) returns_SIGNIN]

lemma hs_take: "(\<And>a'. conn a' = conn a \<Longrightarrow> hspec l p q (f a')) \<Longrightarrow> hspec l p q (obind (if t \<noteq> 0 then take_key a t else oret a) f)"
  by (rule hs_obind [OF _ returns_take_key(2)]) (intro keeping, assumption)

lemma hs_accounts [handling]:
  assumes "p \<noteq> 0"
  shows "hspec l p (conn a) (rea_register p a c)" "hspec l p (conn a) (talk_RPA p a c)" "hspec l p (conn a) (talk_SIA p a c)"
  unfolding rea_register_def talk_RPA_def talk_SIA_def Let_def case_prod_unfold
  by (rule hs_conn hs_take | rule handling | rule assms | simp add: keeping tasks_def word_at_def nth_list_update | rule keeping)+

lemma hs_REA [handling]: "p \<noteq> 0 \<Longrightarrow> hspec l p (conn a) (talk_REA p a c)"
  unfolding talk_REA_def by (intro handling keeping refl | assumption)+

text \<open>The cases with an early \<open>return 0\<close> that does not finish the request.\<close>

lemma hs_leak: "hspec True p q (oret Returned)"
  by (simp add: hspec_def oret_def)

lemma keeps_sce [keeping]: "keeps (sce_cmd a v)" "keeps (sce_store a v cmd tm ed)" "keeps (icm_packet txt u)"
  unfolding sce_cmd_def sce_store_def icm_packet_def by (intro keeping)+

lemma hs_dsc: "p \<noteq> 0 \<Longrightarrow> keeps tms \<Longrightarrow> hspec l p (conn a) (dsc_replace p a c v n tms tb tg vt nt)"
  unfolding dsc_replace_def by (intro handling keeping refl | assumption)+

lemma hs_leaky:
  assumes "p \<noteq> 0"
  shows "hspec True p (conn a) (talk_PIN p a c)" "hspec True p (conn a) (talk_SCE p a c)"
    "hspec True p (conn a) (talk_ICM p a c)" "hspec True p (conn a) (talk_DSC p a c)"
proof -
  show "hspec True p (conn a) (talk_PIN p a c)"
    unfolding talk_PIN_def pin_signed_def pin_mail_def by (rule hs_leak | rule handling | rule assms | simp | rule keeping)+
  have plain: "hspec True p (conn a) (sce_plain a)" for a
    unfolding sce_plain_def by (rule hs_leak | rule handling | rule refl | rule keeping)+
  have timed: "hspec True p (conn a) (sce_timed a')" if "conn a' = conn a" for a'
    unfolding sce_timed_def by (rule hs_leak | rule handling | rule that | rule keeping)+
  show "hspec True p (conn a) (talk_SCE p a c)"
    unfolding talk_SCE_def by (rule handling plain | rule timed, simp | rule keeping)+
  show "hspec True p (conn a) (talk_ICM p a c)"
    unfolding talk_ICM_def by (rule hs_leak | rule handling | rule refl | rule keeping)+
  have dsc: "hspec True p (conn a) (dsc_replace p (a\<lparr>data := d\<rparr>) c v n tms tb tg vt nt)" if "keeps tms" for d v n tms tb tg vt nt
    using hs_dsc [OF assms that, of True "a\<lparr>data := d\<rparr>"] by simp
  show "hspec True p (conn a) (talk_DSC p a c)"
    unfolding talk_DSC_def Let_def
    by (rule hs_leak | rule handling | rule hs_dsc dsc | rule assms | rule keeping)+
qed

definition may_leak :: "opcode option \<Rightarrow> bool" where
  "may_leak oc = (oc \<in> {Some PIN_REQ, Some SCE, Some ICM, Some DSC})"

lemma hs_talk_case:
  assumes "p \<noteq> 0"
  shows "hspec (may_leak oc) p (conn a) (talk_case oc p a c)"
proof (cases oc)
  case None
  then show ?thesis unfolding talk_case_def using hs_simple [OF assms] by simp
next
  case (Some op)
  then show ?thesis
    using hs_simple [OF assms] hs_accounts [OF assms] hs_REA [OF assms] hs_leaky [OF assms]
    by (cases op) (simp_all add: talk_case_def may_leak_def hs_basic)
qed

section \<open>Properties\<close>

lemma finish_oret: "p \<noteq> 0 \<Longrightarrow> infos w \<Longrightarrow> obind (finish p a) (\<lambda>_. oret x) w = Some (Inr (r, w')) \<Longrightarrow> finished p (conn a) w w'"
  using finish_finished by (auto simp: obind_Inr oret_def)

lemma finish_after:
  assumes "keeps m" and "p \<noteq> 0" and "infos w" and "obind m (\<lambda>_. obind (finish p a) (\<lambda>_. oret x)) w = Some (Inr (r, w'))"
  shows "finished p (conn a) w w'"
proof -
  obtain y w1 where m: "m w = Some (Inr (y, w1))" and f: "obind (finish p a) (\<lambda>_. oret x) w1 = Some (Inr (r, w'))"
    using assms(4) unfolding obind_Inr [of m] by auto
  have s: "same_tasks w w1" using assms(1) m unfolding keeps_def by blast
  have "finished p (conn a) w1 w'" by (rule finish_oret [OF assms(2) same_infos [OF s assms(3)] f])
  with s show ?thesis by (simp add: same_tasks_snap finished_def)
qed

lemma talk_elim:
  assumes "p \<noteq> 0" and "wd_conns w p = Some a" and "talk p w = Some (Inr (r, w'))"
  obtains (test) "obind (send_raw (SOCKET a) (''TEST'' @ [NUL])) (\<lambda>_. obind (finish p a) (\<lambda>_. oret 0)) w = Some (Inr (r, w'))"
  | (device) "obind (IoTtalk a) (\<lambda>_. obind (finish p a) (\<lambda>_. oret 0)) w = Some (Inr (r, w'))"
  | (user) oc h w1 where "dispatch_tag (checkcode a) = Inr oc" "talk_case oc p a (SOCKET a) w = Some (Inr (h, w1))"
      "(case h of Broke a' \<Rightarrow> obind (finish p a') (\<lambda>_. oret 0) | Returned \<Rightarrow> oret 0) w1 = Some (Inr (r, w'))"
proof -
  have d: "deref_conn p w = Some (Inr (a, w))" using assms(1,2) by (simp add: deref_conn_def oret_def)
  obtain c0 n where c0: "rd (checkcode a) 0 = Inr c0" and n: "c0 \<noteq> CHR ''t'' \<Longrightarrow> strlen (checkcode a) = Inr n"
    using assms(1,3) d
    by (cases "rd (checkcode a) 0"; cases "strlen (checkcode a)") (auto simp: talk_def obind_def olift_def split: if_splits)
  consider "c0 = CHR ''t''" | "c0 \<noteq> CHR ''t''" "n < 3" | "c0 \<noteq> CHR ''t''" "\<not> n < 3" by blast
  then show thesis
  proof cases
    case 3
    then obtain oc where oc: "dispatch_tag (checkcode a) = Inr oc"
      using assms(1,3) d c0 n by (cases "dispatch_tag (checkcode a)") (auto simp: talk_def obind_def olift_def)
    have "obind (talk_case oc p a (SOCKET a)) (\<lambda>r. case r of Broke a' \<Rightarrow> obind (finish p a') (\<lambda>_. oret 0) | Returned \<Rightarrow> oret 0) w
        = Some (Inr (r, w'))"
      using assms(1,3) d c0 n oc 3 by (simp add: talk_def obind_def olift_def)
    then show thesis using user [OF oc] unfolding obind_Inr [of "talk_case oc p a (SOCKET a)"] by auto
  qed (use assms(1,3) d c0 n test device in \<open>simp_all add: talk_def obind_def olift_def\<close>)
qed

lemma talk_once:
  assumes "p \<noteq> 0" and "infos w" and "wd_conns w p = Some a" and "talk p w = Some (Inr (r, w'))"
  shows "finished p (conn a) w w' \<or> same_tasks w w' \<and> (\<exists>oc. dispatch_tag (checkcode a) = Inr oc \<and> may_leak oc)"
  using assms(1,3,4)
proof (cases rule: talk_elim)
  case test
  then show ?thesis by (rule disjI1 [OF finish_after [OF keeps_net(2) assms(1,2)]])
next
  case device
  then show ?thesis by (rule disjI1 [OF finish_after [OF keeps_IoTtalk assms(1,2)]])
next
  case (user oc h w1)
  have hs: "case h of Broke a' \<Rightarrow> same_tasks w w1 \<and> conn a' = conn a | Returned \<Rightarrow> finished p (conn a) w w1 \<or> may_leak oc \<and> same_tasks w w1"
    using hs_talk_case [OF assms(1), of oc a "SOCKET a"] assms(2) user(2) unfolding hspec_def by blast
  show ?thesis
  proof (cases h)
    case (Broke a')
    then have s: "same_tasks w w1" "conn a' = conn a" using hs by simp_all
    have "finished p (conn a') w1 w'" using user(3) Broke finish_oret [OF assms(1) same_infos [OF s(1) assms(2)]] by simp
    then show ?thesis using s by (simp add: same_tasks_snap finished_def)
  next
    case Returned
    then show ?thesis using hs user(1,3) by (auto simp: oret_def)
  qed
qed

text \<open>
  C3: Every request is finished at most once. When \<open>talk\<close> returns, the request has been freed and the counter of
  pending requests of its connection is one less, and no other request or counter has changed; only the
  cases of \<open>PIN\<close>, \<open>SCE\<close>, \<open>ICM\<close> and \<open>DSC\<close> may return with the request neither freed nor counted down.
\<close>

theorem talk_finishes:
  assumes "p \<noteq> 0" and "infos w" and "wd_conns w p = Some a" and "talk p w = Some (Inr (r, w'))"
  shows "finished p (conn a) w w' \<or> same_tasks w w' \<and> (\<exists>oc. dispatch_tag (checkcode a) = Inr oc \<and> may_leak oc)"
  using assms by (rule talk_once)

text \<open>A connection at address 3 and, at address 9, a request that came in over it.\<close>

definition request :: "string \<Rightarrow> CLN" where
  "request tag = cln3\<lparr>checkcode := tag @ replicate 15 NUL\<rparr>"

definition world3 :: "string \<Rightarrow> world" where
  "world3 tag = world1\<lparr>wd_conns := [3 \<mapsto> set_tasks 1 empty_cln, 9 \<mapsto> request tag]\<rparr>"

lemma world3_simps [simp]: "wd_conns (world3 tag) 9 = Some (request tag)" "wd_conns (world3 tag) 3 = Some (set_tasks 1 empty_cln)"
    "conn (request tag) = 3" "SOCKET (request tag) = 5" "checkcode (request tag) = tag @ replicate 15 NUL"
  by (simp_all add: world3_def request_def)

lemma world3_infos: "infos (world3 tag)"
  by (auto simp: infos_def snap_def world3_def request_def set_tasks_def word_bytes_def cln3_def cln1_def empty_cln_def split: if_splits)

lemma world3_UPD: "\<exists>w'. talk 9 (world3 ''UPD'') = Some (Inr (0, w'))"
proof -
  have d: "dispatch_tag (''UPD'' @ replicate 15 NUL) = Inr (Some UPD)"
    by (simp add: dispatch_tag_def memcpy_def put_def DJBHash3_ascii opcode_of_hash_def)
  have f: "\<exists>w'. finish 9 (request ''UPD'') w = Some (Inr ((), w'))"
    if "wd_conns w = wd_conns (world3 ''UPD'')" for w
    using that by (simp add: finish_def obind_def task_done_def upd_conn_def deref_conn_def oret_def set_conn_def freeNode_def)
  obtain b where b: "tag_packet ''UPD'' ''1.0'' w = Some (Inr (b, w))" for w
    by (simp add: tag_packet_def obind_def olift_def sprintf_def put_def zero_packet_def oret_def)
  have v: "cstring (wd_version (world3 ''UPD'')) w = Some (Inr (''1.0'', w))" for w
    by (simp add: world3_def world1_def world0_def cstring_def olift_def str_of_def terminated_def cstr_def)
  obtain w' where w': "talk_UPD 9 (request ''UPD'') 5 (world3 ''UPD'') = Some (Inr (Broke (request ''UPD''), w'))"
    "wd_conns w' = wd_conns (world3 ''UPD'')"
    using b v by (simp add: talk_UPD_def obind_def app_version_def SyncSend_def deref_conn_def oret_def)
  then show ?thesis using d f [OF w'(2)]
    by (auto simp: talk_def obind_def deref_conn_def oret_def olift_def rd_def strlen_def str_of_def terminated_def cstr_def talk_case_def)
qed

theorem talk_finishes_witness: "\<exists>w'. talk 9 (world3 ''UPD'') = Some (Inr (0, w')) \<and> finished 9 3 (world3 ''UPD'') w'"
proof -
  obtain w' where w': "talk 9 (world3 ''UPD'') = Some (Inr (0, w'))" using world3_UPD by blast
  have "\<not> (\<exists>oc. dispatch_tag (''UPD'' @ replicate 15 NUL) = Inr oc \<and> may_leak oc)"
    by (simp add: dispatch_tag_def memcpy_def put_def DJBHash3_ascii opcode_of_hash_def may_leak_def)
  then show ?thesis using talk_finishes [OF _ world3_infos world3_simps(1) w'] w' by auto
qed

text \<open>
  A PIN request before the key exchange is lost: \<open>talk\<close> returns at once, so the request stays allocated and is
  still counted as pending.
\<close>

theorem talk_PIN_leak:
  assumes "p \<noteq> 0" and "wd_conns w p = Some a" and "checkcode a = ''PIN'' @ rest" and "NUL \<in> set rest"
    and "encryptBlockBytes (key a) = 0"
  shows "talk p w = Some (Inr (0, w))"
proof -
  have d: "dispatch_tag (''PIN'' @ rest) = Inr (Some PIN_REQ)"
    by (simp add: dispatch_tag_def memcpy_def put_def DJBHash3_ascii opcode_of_hash_def)
  have "\<exists>n. strlen (''PIN'' @ rest) = Inr n \<and> 3 \<le> n" using assms(4) by (simp add: strlen_def str_of_def terminated_def cstr_def)
  then show ?thesis using assms d
    by (auto simp: talk_def obind_def deref_conn_def oret_def olift_def rd_def talk_case_def talk_PIN_def)
qed

theorem talk_PIN_leak_witness: "talk 9 (world3 ''PIN'') = Some (Inr (0, world3 ''PIN'')) \<and> wd_conns (world3 ''PIN'') 9 \<noteq> None"
  using talk_PIN_leak [of 9 "world3 ''PIN''" "request ''PIN''" "replicate 15 NUL"]
  by (simp add: request_def cln3_def cln1_def empty_cln_def)

lemma faults_obind: "(\<And>x w'. m w = Some (Inr (x, w')) \<Longrightarrow> \<exists>e. f x w' = Some (Inl e)) \<Longrightarrow> \<exists>y. m w = Some y \<Longrightarrow> \<exists>e. obind m f w = Some (Inl e)"
  by (auto simp: obind_def split: sum.splits)

lemma put_length: "put b xs = Inr b' \<Longrightarrow> length b' = length b \<and> length xs \<le> length b"
  by (auto simp: put_def split: if_splits)

lemma rand_fill_length: "rand_fill tab m rnd n cnt b = Inr b' \<Longrightarrow> length b' = length b"
  by (induction n arbitrary: cnt b) (auto simp: wr_def rbind_eq_Inr split: if_splits)

lemma rand_pin_length: "rand_pin b w = Some (Inr (b', w')) \<Longrightarrow> length b' = length b \<and> wd_md5 w' = wd_md5 w"
  by (auto simp: rand_pin_def obind_Inr olift_def oret_def rbind_eq_Inr generateRandIntStr_def dest: rand_fill_length)

lemma some_op: "\<exists>y. olift r w = Some y" "\<exists>y. rand_pin b w = Some y" "\<exists>y. upd_conn q f w = Some y" "\<exists>y. md5_into b n b' w = Some y"
  by (auto simp: olift_def rand_pin_def obind_def upd_conn_def deref_conn_def set_conn_def oret_def ofault_def md5_into_def
      split: sum.splits option.splits)

text \<open>
  A PIN request of a signed-in user overflows the array of the PIN: \<open>Compute_string_md5\<close> gets the empty text as its
  input and \<open>Pin\<close>, which has 7 bytes, as its output, and digests have 32 characters. \<open>talk\<close> never gets past it.
\<close>

theorem talk_PIN_overflow:
  assumes "p \<noteq> 0" and "wd_conns w p = Some a" and "checkcode a = ''PIN'' @ rest" and "NUL \<in> set rest"
    and "0 < encryptBlockBytes (key a)" and "info a = CHR ''Y'' # i" and "length (Pin a) = 7"
    and "\<And>s. length (wd_md5 w s) = 32"
  shows "\<exists>e. talk p w = Some (Inl e)"
proof -
  have d: "dispatch_tag (''PIN'' @ rest) = Inr (Some PIN_REQ)"
    by (simp add: dispatch_tag_def memcpy_def put_def DJBHash3_ascii opcode_of_hash_def)
  have n: "\<exists>n. strlen (''PIN'' @ rest) = Inr n \<and> 3 \<le> n" using assms(4) by (simp add: strlen_def str_of_def terminated_def cstr_def)
  have over: "md5_into b 32 b' w' = Some (Inl BufferOverflow)" if "length b = 33" "length b' = 7" "wd_md5 w' = wd_md5 w" for b b' w'
    using that assms(8) by (simp add: md5_into_def put_def olift_def)
  have "\<exists>e. talk_PIN p a (SOCKET a) w = Some (Inl e)"
    unfolding talk_PIN_def if_not_P [OF less_imp_neq [OF assms(5), symmetric]]
  proof (intro faults_obind some_op)
    fix pin w1 x w2 i0 w3
    assume pin: "rand_pin (Pin a) w = Some (Inr (pin, w1))" and up: "upd_conn (conn a) (\<lambda>d. d\<lparr>Pin := pin\<rparr>) w1 = Some (Inr (x, w2))"
      and "olift (rd (info a) 0) w2 = Some (Inr (i0, w3))"
    then have i0: "i0 = CHR ''Y''" and w3: "wd_md5 w3 = wd_md5 w"
      using assms(6) rand_pin_length [OF pin]
      by (auto simp: olift_def rd_def upd_conn_def obind_Inr deref_conn_def set_conn_def oret_def ofault_def split: if_splits option.splits)
    have "md5_into (replicate 33 NUL) 32 pin' w' \<noteq> Some (Inr y)" if "wr pin 6 NUL = Inr pin'" "wd_md5 w' = wd_md5 w" for pin' w' y
      using over [of "replicate 33 NUL" pin' w'] that rand_pin_length [OF pin] assms(7) by (auto simp: wr_def split: if_splits)
    with w3 show "\<exists>e. (if i0 = CHR ''Y'' then pin_signed p a pin else pin_mail p a pin) w3 = Some (Inl e)"
      unfolding i0 if_P [OF refl] pin_signed_def
      by (intro faults_obind some_op) (auto simp: olift_def rbind_eq_Inr cstring_def)
  qed
  then show ?thesis using assms(1-3) d n
    by (auto simp: talk_def obind_def deref_conn_def oret_def olift_def rd_def talk_case_def)
qed

definition request_pin :: CLN where
  "request_pin = (request ''PIN'')\<lparr>info := CHR ''Y'' # replicate 99 NUL,
     key := \<lparr>publicKey = 7, privateKey = 103, commonKey = 143, encryptBlockBytes = 1\<rparr>\<rparr>"

theorem talk_PIN_overflow_witness: "\<exists>e. talk 9 (world1\<lparr>wd_conns := [3 \<mapsto> empty_cln, 9 \<mapsto> request_pin]\<rparr>) = Some (Inl e)"
  by (rule talk_PIN_overflow [where a = request_pin and rest = "replicate 15 NUL" and i = "replicate 99 NUL"])
    (simp_all add: request_pin_def world1_def world0_def, simp add: request_def cln3_def cln1_def empty_cln_def)

end
