(* ===== verification/Server.thy ===== *)
theory Server
  imports Talk "HOL-Library.Multiset"
begin

text \<open>
  The life of a connection: \<open>AcceptClient\<close> (src/src/AcceptClient.c) allocates it, \<open>ServerWorkThread\<close>
  (src/src/ServerWorkThread.c) turns what it receives into requests for \<open>talk\<close>, and src/src/FreeOutConnMem.c pings
  it and frees it. The accept loop, the completion port and the thread pools are a step relation: one step is
  one pass of a loop or one task of a pool. A connection has a null \<open>conn\<close>; the \<open>conn\<close> of a request is its connection.
\<close>

section \<open>Receiving\<close>

abbreviation OOM_text :: buf where
  "OOM_text \<equiv> ''OOM'' @ [HC, NUL]"

abbreviation UPD_text :: buf where
  "UPD_text \<equiv> ''UPD'' @ [HC, NUL]"

text \<open>
  A packet of a device and a packet of a user, for the connection \<open>d\<close> at \<open>q\<close>: \<open>p\<close> is the node for the request,
  0 if there is no memory. The request starts as a copy of the connection.
\<close>

definition recv_device :: "nat \<Rightarrow> CLN \<Rightarrow> nat \<Rightarrow> nat \<Rightarrow> buf \<Rightarrow> unit op" where
  "recv_device q d p bytes buf =
     (if p = 0 then obind (SyncSend (SOCKET d) OOM_text q) (\<lambda>_. oret ())
      else obind (olift (CopyRecIotData2Cln buf d (int bytes))) (\<lambda>a.
           obind (olift (memcpy (checkcode d) (checkcode a) 17)) (\<lambda>cc.
           obind (olift (wr (info d) 1 (CHR ''Y''))) (\<lambda>i.
           obind (set_conn p (a\<lparr>conn := q\<rparr>)) (\<lambda>_. set_conn q (d\<lparr>checkcode := cc, info := i\<rparr>))))))"

definition recv_user :: "nat \<Rightarrow> CLN \<Rightarrow> nat \<Rightarrow> nat \<Rightarrow> buf \<Rightarrow> unit op" where
  "recv_user q d p bytes buf =
     (if p = 0 then obind (SyncSend (SOCKET d) OOM_text q) (\<lambda>_. oret ())
      else obind (olift (memcpy (replicate sizeof_UserPacketInterface NUL) buf bytes)) (\<lambda>b.
           obind (olift (CopyUserPacketInterface2Cln (user_packet_of b) (d\<lparr>conn := q\<rparr>))) (\<lambda>a.
           obind (olift (memcpy (checkcode d) (checkcode a) 18)) (\<lambda>cc.
           obind (set_conn p a) (\<lambda>_. set_conn q (d\<lparr>checkcode := cc\<rparr>))))))"

text \<open>The version text of a client: a known version makes the connection a legal one.\<close>

definition check_version :: "nat \<Rightarrow> nat \<Rightarrow> unit op" where
  "check_version q p =
     obind (deref_conn q) (\<lambda>d. obind (cstring (checkcode d)) (\<lambda>cc. obind (olift (rd (info d) 1)) (\<lambda>i1.
     if strstr cc ''ZYX'' \<and> i1 \<noteq> CHR ''Y'' \<and> p \<noteq> 0
     then if strstr cc ''ZYXX1226'' \<or> strstr cc ''ZYXX1227''
          then obind (upd_conn q (\<lambda>d. d\<lparr>info := (info d)[1 := CHR ''Y'']\<rparr>)) (\<lambda>_.
               upd_conn p (\<lambda>a. a\<lparr>info := (info a)[1 := CHR ''Y'']\<rparr>))
          else obind (SyncSend (SOCKET d) UPD_text q) (\<lambda>_. oret ())
     else oret ())))"

text \<open>\<open>freeNode(ARG_CONN->MemMark, ARG_CONN)\<close>\<close>

definition free_arg :: "nat \<Rightarrow> unit op" where
  "free_arg p = (if p = 0 then ofault NullDeref else freeNode p)"

text \<open>
  The request is counted and given to the pool, unless the connection is illegal or has 120 requests pending.
  The result is the request that was given to the pool.
\<close>

definition admit :: "nat \<Rightarrow> nat \<Rightarrow> nat option op" where
  "admit q p =
     obind (deref_conn q) (\<lambda>d. obind (olift (rd (info d) 1)) (\<lambda>i1. obind (olift (rd (info d) 2)) (\<lambda>i2.
     if i1 \<noteq> CHR ''Y'' then obind (closesocket (SOCKET d)) (\<lambda>_. obind (free_arg p) (\<lambda>_. oret None))
     else if schar i2 < 120 \<and> p \<noteq> 0 then obind (task_new q) (\<lambda>_. oret (Some p))
     else obind (SyncSend (SOCKET d) OOM_text q) (\<lambda>_. obind (free_arg p) (\<lambda>_. oret None)))))"

text \<open>
  One pass of the loop of \<open>ServerWorkThread\<close>. \<open>okay\<close> is the result of \<open>GetQueuedCompletionStatus\<close>, \<open>timeout\<close> whether the
  error was a timeout, \<open>q\<close> the connection, \<open>io\<close> the I/O block (0 for null), \<open>bytes\<close> and \<open>buf\<close> what was received, \<open>p\<close>
  the result of \<open>mallocNode\<close>.
\<close>

definition ServerWorkThread :: "bool \<Rightarrow> bool \<Rightarrow> nat \<Rightarrow> nat \<Rightarrow> nat \<Rightarrow> buf \<Rightarrow> nat \<Rightarrow> nat option op" where
  "ServerWorkThread okay timeout q io bytes buf p =
     (if \<not> okay
      then if q = 0 \<or> io = 0 \<or> timeout then oret None
           else obind (deref_conn q) (\<lambda>d. obind (closesocket (SOCKET d)) (\<lambda>_. oret None))
      else if io = 0 \<or> q = 0 then oret None
      else obind (deref_conn q) (\<lambda>d.
           if bytes = 0 \<or> 721 < bytes then obind (closesocket (SOCKET d)) (\<lambda>_. oret None)
           else obind (if 10 < bytes \<and> bytes \<le> 205 then recv_device q d p bytes buf else recv_user q d p bytes buf) (\<lambda>_.
                obind (check_version q p) (\<lambda>_. admit q p))))"

section \<open>Connections that wait\<close>

record CLN_LINK =
  lk_conn :: nat
  lk_io :: nat
  lk_time :: int
  lk_left :: int

definition MAX_PING_TIME :: int where
  "MAX_PING_TIME = 1"

text \<open>
  The loop of \<open>PingMallocConnList\<close>. \<open>busy\<close> says for which connections \<open>trylock\<close> fails, \<open>mal\<close> for which the argument of
  the task can be allocated. The result is the rest of the list and the tasks that were added to the pool.
\<close>

fun ping_list :: "(nat \<Rightarrow> bool) \<Rightarrow> (nat \<Rightarrow> bool) \<Rightarrow> buf \<Rightarrow> CLN_LINK list \<Rightarrow> (CLN_LINK list \<times> (nat \<times> nat) list) op" where
  "ping_list busy mal hba [] = oret ([], [])"
| "ping_list busy mal hba (l # ls) =
     (if lk_conn l = 0 then ping_list busy mal hba ls
      else obind (deref_conn (lk_conn l)) (\<lambda>d.
           obind (if busy (lk_conn l) then oret (lk_time l)
                  else obind (send_raw (SOCKET d) hba) (\<lambda>len. oret (if len = -1 \<or> len = 0 then lk_time l + 1 else lk_time l))) (\<lambda>t.
             if t > MAX_PING_TIME
             then if \<not> mal (lk_conn l) then ofault NullDeref
                  else obind (ping_list busy mal hba ls) (\<lambda>(ks, ts). oret (ks, (lk_conn l, lk_io l) # ts))
             else obind (ping_list busy mal hba ls) (\<lambda>(ks, ts). oret (l\<lparr>lk_time := t\<rparr> # ks, ts)))))"

text \<open>The loop of \<open>freeConnMemWait4Free\<close>; the result is the rest of the list and the I/O blocks of the freed connections.\<close>

fun free_list :: "CLN_LINK list \<Rightarrow> (CLN_LINK list \<times> nat list) op" where
  "free_list [] = oret ([], [])"
| "free_list (l # ls) =
     (if lk_conn l = 0 then free_list ls
      else obind (deref_conn (lk_conn l)) (\<lambda>d. obind (olift (rd (info d) 2)) (\<lambda>i2.
           if lk_time l = 1 \<and> i2 = NUL \<or> lk_left l \<ge> 100
           then obind (delete_user d) (\<lambda>_. obind (closesocket (SOCKET d)) (\<lambda>_. obind (freeNode (lk_conn l)) (\<lambda>_.
                obind (free_list ls) (\<lambda>(ks, ios). oret (ks, lk_io l # ios)))))
           else obind (free_list ls) (\<lambda>(ks, ios).
                  oret ((if i2 \<noteq> NUL then l\<lparr>lk_time := 0, lk_left := lk_left l + 1\<rparr> else l\<lparr>lk_time := lk_time l + 1\<rparr>) # ks, ios)))))"

section \<open>The server\<close>

text \<open>
  \<open>sv_free\<close> and \<open>sv_ping\<close> are the lists behind \<open>Head\<close> and \<open>MallocHead\<close>, with the counters in the heads; \<open>sv_mutex\<close> is
  \<open>Con2FreeLink_mutex\<close>; \<open>sv_ios\<close> are the allocated I/O blocks. \<open>sv_msgs\<close> are the requests in \<open>ThreadPool_ExecuteMsg\<close>,
  \<open>sv_tasks\<close> the arguments of the tasks \<open>addConnMemWait4Free\<close> in \<open>ThreadPool_ExecuteTask\<close>.
\<close>

record server =
  sv_w :: world
  sv_free :: "CLN_LINK list"
  sv_free_time :: int
  sv_ping :: "CLN_LINK list"
  sv_ping_time :: int
  sv_mutex :: bool
  sv_ios :: "nat \<Rightarrow> bool"
  AcceptClientNum :: int
  sv_msgs :: "nat list"
  sv_tasks :: "(nat \<times> nat) list"

type_synonym 'a sop = "server \<Rightarrow> ('a \<times> server) res option"

definition on_world :: "'a op \<Rightarrow> ('a \<Rightarrow> world \<Rightarrow> server \<Rightarrow> ('b \<times> server) res option) \<Rightarrow> 'b sop" where
  "on_world m f s = (case m (sv_w s) of None \<Rightarrow> None | Some (Inl e) \<Rightarrow> Some (Inl e) | Some (Inr (x, w)) \<Rightarrow> f x w s)"

abbreviation link :: "nat \<Rightarrow> nat \<Rightarrow> CLN_LINK" where
  "link q io \<equiv> \<lparr>lk_conn = q, lk_io = io, lk_time = 0, lk_left = 0\<rparr>"

text \<open>\<open>arg\<close> is the task and its argument; without a task the function returns with the mutex held.\<close>

definition addConnMemWait4Free :: "bool \<Rightarrow> (nat \<times> nat) option \<Rightarrow> int sop" where
  "addConnMemWait4Free mal arg s =
     (if sv_mutex s then None
      else case arg of
             None \<Rightarrow> Some (ok (0, s\<lparr>sv_mutex := True\<rparr>))
           | Some (q, io) \<Rightarrow>
               if \<not> mal then Some (ok (0, s))
               else Some (ok (1, s\<lparr>sv_free := sv_free s @ [link q io], sv_free_time := i32 (sv_free_time s + 1)\<rparr>)))"

definition addConnMemWait4Ping :: "bool \<Rightarrow> (nat \<times> nat) option \<Rightarrow> int sop" where
  "addConnMemWait4Ping mal arg s = (case arg of
       None \<Rightarrow> Some (ok (0, s))
     | Some (q, io) \<Rightarrow>
         if \<not> mal then Some (ok (0, s))
         else Some (ok (1, s\<lparr>sv_ping := sv_ping s @ [link q io], sv_ping_time := i32 (sv_ping_time s + 1)\<rparr>)))"

text \<open>The result of the first \<open>malloc\<close> is used without a test.\<close>

definition Add2MallocConnList :: "bool \<Rightarrow> bool \<Rightarrow> nat \<Rightarrow> nat \<Rightarrow> int sop" where
  "Add2MallocConnList mal mal' q io s =
     (if \<not> mal then Some (fault NullDeref) else addConnMemWait4Ping mal' (Some (q, io)) s)"

definition new_conn :: "nat \<Rightarrow> nat \<Rightarrow> CLN" where
  "new_conn sock adr = empty_cln\<lparr>SOCKET := sock, ADDR := adr, info := (info empty_cln)[1 := CHR ''N'', 0 := CHR ''N'', 2 := NUL]\<rparr>"

text \<open>
  One pass of the loop of \<open>AcceptClient\<close>: \<open>q\<close> and \<open>io\<close> are the results of \<open>malloc\<close> (0 for null), \<open>acc\<close> the socket and
  address of the peer, if \<open>accept\<close> succeeds.
\<close>

definition AcceptClient :: "nat \<Rightarrow> (nat \<times> nat) option \<Rightarrow> nat \<Rightarrow> bool \<Rightarrow> bool \<Rightarrow> unit sop" where
  "AcceptClient q acc io mal mal' s =
     (if q = 0 \<or> AcceptClientNum s \<ge> 10000 then Some (ok ((), s))
      else case acc of
             None \<Rightarrow> Some (ok ((), s))
           | Some (sock, adr) \<Rightarrow>
               if io = 0 then on_world (closesocket sock) (\<lambda>_ w s. Some (ok ((), s\<lparr>sv_w := w\<rparr>))) s
               else (case on_world (set_conn q (new_conn sock adr)) (\<lambda>_ w s. Add2MallocConnList mal mal' q io (s\<lparr>sv_w := w, sv_ios := (sv_ios s)(io := True)\<rparr>)) s of
                       None \<Rightarrow> None
                     | Some (Inl e) \<Rightarrow> Some (Inl e)
                     | Some (Inr (_, s')) \<Rightarrow> Some (ok ((), s'\<lparr>AcceptClientNum := AcceptClientNum s' + 1\<rparr>))))"

text \<open>The ping text holds the date and time; \<open>time_now\<close> has room for 19 characters.\<close>

definition PingMallocConnList :: "(nat \<Rightarrow> bool) \<Rightarrow> (nat \<Rightarrow> bool) \<Rightarrow> string \<Rightarrow> unit sop" where
  "PingMallocConnList busy mal now s =
     (if 20 \<le> length now then Some (fault BufferOverflow)
      else on_world (ping_list busy mal (''HBA'' @ now @ [HC]) (sv_ping s)) (\<lambda>(ks, ts) w s.
             Some (ok ((), s\<lparr>sv_w := w, sv_ping := ks, sv_ping_time := sv_ping_time s - int (length ts), sv_tasks := sv_tasks s @ ts\<rparr>))) s)"

text \<open>\<open>free\<close> of the I/O blocks that are not null.\<close>

fun free_ios :: "nat list \<Rightarrow> (nat \<Rightarrow> bool) \<Rightarrow> (nat \<Rightarrow> bool) res" where
  "free_ios [] m = ok m"
| "free_ios (i # is) m = (if i = 0 then free_ios is m else if m i then free_ios is (m(i := False)) else fault UseAfterFree)"

definition freeConnMemWait4Free :: "unit sop" where
  "freeConnMemWait4Free s =
     (if sv_mutex s then Some (ok ((), s))
      else on_world (free_list (sv_free s)) (\<lambda>(ks, ios) w s.
             Some (rbind (free_ios ios (sv_ios s)) (\<lambda>m. ok ((), s\<lparr>sv_w := w, sv_free := ks, sv_ios := m,
               AcceptClientNum := AcceptClientNum s - int (length ios),
               sv_free_time := (if sv_free_time s > 0 then max 0 (sv_free_time s - int (length ios)) else sv_free_time s)\<rparr>)))) s)"

section \<open>What a pass does to the requests\<close>

lemma snap_keeps: "keeps m \<Longrightarrow> m w = Some (Inr (x, w')) \<Longrightarrow> snap w' = snap w"
  unfolding keeps_def same_tasks_snap by blast

lemma snap_set: "set_conn p c w = Some (Inr (x, w')) \<Longrightarrow> snap w' = (snap w)(p \<mapsto> (tasks c, length (info c), conn c))"
  by (auto simp: set_conn_def oret_def snap_def fun_eq_iff)

lemma snap_deref: "deref_conn q w = Some (Inr (d, w')) \<Longrightarrow> w' = w \<and> q \<noteq> 0 \<and> snap w q = Some (tasks d, length (info d), conn d)"
  by (auto simp: deref_conn_def oret_def ofault_def snap_def split: if_splits option.splits)

lemma snap_free: "free_arg p w = Some (Inr (x, w')) \<Longrightarrow> p \<noteq> 0 \<and> snap w' = (snap w)(p := None)"
  by (auto simp: free_arg_def freeNode_def oret_def ofault_def snap_def fun_eq_iff split: if_splits)

lemma snap_new:
  assumes "task_new q w = Some (Inr (x, w'))" and "snap w q = Some (n, l, r)" and "6 \<le> l" and "n < 120"
  shows "snap w' = (snap w)(q \<mapsto> (n + 1, l, r))"
proof -
  obtain d where d: "wd_conns w q = Some d" "tasks d = n" "length (info d) = l" "conn d = r" using assms(2) by (auto simp: snap_def)
  then have "w' = w\<lparr>wd_conns := (wd_conns w)(q \<mapsto> set_tasks (n + 1) d)\<rparr>"
    using assms(1,4) by (auto simp: task_new_def upd_conn_def obind_def deref_conn_def set_conn_def oret_def ofault_def split: if_splits)
  then show ?thesis using d assms(3,4) tasks_set_tasks [of d "n + 1"] by (auto simp: snap_def fun_eq_iff)
qed

lemma low_byte: "(of_char (info d ! 2) :: nat) = tasks d mod 256"
proof -
  have "tasks d = of_char (info d ! 2) + 256 * (of_char (info d ! (2 + 1)) + 256 * of_char (info d ! (2 + 2)) + 65536 * of_char (info d ! (2 + 3)))"
    by (simp add: tasks_def word_at_def algebra_simps)
  then have "tasks d mod 256 = of_char (info d ! 2) mod 256" by (simp only: mod_mult_self2)
  then show ?thesis by simp
qed

lemma copy_info:
  "CopyRecIotData2Cln b d n = Inr a \<Longrightarrow> info a = info d"
  "CopyUserPacketInterface2Cln pk d = Inr a \<Longrightarrow> info a = info d \<and> conn a = conn d"
proof -
  assume "CopyRecIotData2Cln b d n = Inr a"
  then show "info a = info d"
    unfolding CopyRecIotData2Cln_def Let_def rbind_eq_Inr by (elim exE conjE) (simp only: sum.inject, elim subst, simp)
next
  assume "CopyUserPacketInterface2Cln pk d = Inr a"
  then show "info a = info d \<and> conn a = conn d"
    unfolding CopyUserPacketInterface2Cln_def rbind_eq_Inr by (elim exE conjE) (simp only: sum.inject, elim subst, simp)
qed

text \<open>\<open>loaded p q w w'\<close>: the request \<open>p\<close> of the connection \<open>q\<close> was allocated, if there was memory; nothing else changed.\<close>

definition loaded :: "nat \<Rightarrow> nat \<Rightarrow> world \<Rightarrow> world \<Rightarrow> bool" where
  "loaded p q w w' = (if p = 0 then snap w' = snap w else \<exists>t l. 6 \<le> l \<and> snap w' = (snap w)(p \<mapsto> (t, l, q)))"

lemma olift_Inr: "olift r w = Some (Inr (x, w')) \<longleftrightarrow> r = Inr x \<and> w' = w"
  by (cases r) (auto simp: olift_def)

lemma recv_loaded:
  assumes "wd_conns w q = Some d" and "p \<noteq> q" and "6 \<le> length (info d)"
    and "(if dev then recv_device q d p n b else recv_user q d p n b) w = Some (Inr (x, w'))"
  shows "loaded p q w w'"
proof (cases "p = 0")
  case True
  have "keeps (obind (SyncSend (SOCKET d) OOM_text q) (\<lambda>_. oret ()))" by (intro keeping)
  then show ?thesis using True assms(4) snap_keeps by (auto simp: loaded_def recv_device_def recv_user_def split: if_splits)
next
  case False
  obtain a c where w': "wd_conns w' = (wd_conns w)(p \<mapsto> a, q \<mapsto> c)" and "info a = info d" "conn a = q"
    and "tasks c = tasks d" "length (info c) = length (info d)" "conn c = conn d"
  proof (cases dev)
    case True
    with False assms(4) obtain a0 cc where a0: "CopyRecIotData2Cln b d (int n) = Inr a0"
      and w': "wd_conns w' = (wd_conns w)(p \<mapsto> a0\<lparr>conn := q\<rparr>, q \<mapsto> d\<lparr>checkcode := cc, info := (info d)[1 := CHR ''Y'']\<rparr>)"
      by (auto simp: recv_device_def obind_Inr olift_Inr set_conn_def oret_def wr_def split: if_splits)
    show thesis by (rule that [OF w']) (use copy_info(1) [OF a0] in \<open>simp_all add: tasks_def word_at_def nth_list_update\<close>)
  next
    case dev: False
    with False assms(4) obtain pk a0 cc where a0: "CopyUserPacketInterface2Cln pk (d\<lparr>conn := q\<rparr>) = Inr a0"
      and w': "wd_conns w' = (wd_conns w)(p \<mapsto> a0, q \<mapsto> d\<lparr>checkcode := cc\<rparr>)"
      by (auto simp: recv_user_def obind_Inr olift_Inr set_conn_def oret_def)
    show thesis by (rule that [OF w']) (use copy_info(2) [OF a0] in \<open>simp_all add: tasks_def\<close>)
  qed
  then have "snap w' = (snap w)(p \<mapsto> (tasks a, length (info d), q))" using assms(1,2) by (auto simp: snap_def fun_eq_iff)
  then show ?thesis using False assms(3) by (auto simp: loaded_def)
qed

lemma keeps_check_version: "keeps (check_version q p)"
  unfolding check_version_def by (intro keeping) (simp_all add: tasks_def word_at_def nth_list_update)

text \<open>
  The effect of a whole pass: either no request and no counter changes, or one request is added to the
  connection and counted.
\<close>

definition received :: "nat \<Rightarrow> nat \<Rightarrow> nat option \<Rightarrow> world \<Rightarrow> world \<Rightarrow> bool" where
  "received q p r w w' = (case r of
       None \<Rightarrow> snap w' = snap w
     | Some p' \<Rightarrow> p' = p \<and> p \<noteq> 0 \<and> (\<exists>n l t k o'. snap w q = Some (n, l, o') \<and> n < 120 \<and> 6 \<le> k
         \<and> snap w' = (snap w)(q \<mapsto> (n + 1, l, o'), p \<mapsto> (t, k, q))))"

lemma admit_received:
  assumes "loaded p q w w1" and "infos w" and "wd_conns w p = None" and "p \<noteq> q" and "snap w q = Some (n, l, r0)" and "n \<le> 120"
    and "q \<noteq> 0" and "admit q p w1 = Some (Inr (r, w'))"
  shows "received q p r w w'"
proof -
  have q1: "snap w1 q = Some (n, l, r0)" using assms(1,4,5) by (auto simp: loaded_def split: if_splits)
  have l: "6 \<le> l" using assms(2,5) by (auto simp: infos_def)
  obtain d where d: "wd_conns w1 q = Some d" "tasks d = n" using q1 by (auto simp: snap_def)
  have drop: "snap w' = snap w" if "free_arg p w2 = Some (Inr (y, w'))" "snap w2 = snap w1" for w2 y
    using snap_free [OF that(1)] that(2) assms(1,3) by (auto simp: loaded_def snap_def fun_eq_iff)
  have byte: "n < 120" if "schar (info d ! 2) < 120"
  proof -
    have "(of_char (info d ! 2) :: nat) = n" using low_byte [of d] d(2) assms(6) by simp
    then show ?thesis using that assms(6) schar_ascii [of "info d ! 2"] by simp
  qed
  have dr: "deref_conn q w1 = Some (Inr (d, w1))" "rd (info d) 1 = Inr (info d ! 1)" "rd (info d) 2 = Inr (info d ! 2)"
    using d q1 l assms(7) by (auto simp: deref_conn_def oret_def snap_def rd_def)
  have add: "received q p (Some p) w w'" if "task_new q w1 = Some (Inr (y, w'))" "schar (info d ! 2) < 120" "p \<noteq> 0" for y
    using snap_new [OF that(1) q1 l byte [OF that(2)]] byte [OF that(2)] that(3) assms(1,4,5)
    by (auto simp: received_def loaded_def fun_upd_twist) blast
  consider (bad) "info d ! 1 \<noteq> CHR ''Y''" | (run) "info d ! 1 = CHR ''Y''" "schar (info d ! 2) < 120" "p \<noteq> 0"
    | (full) "info d ! 1 = CHR ''Y''" "\<not> (schar (info d ! 2) < 120 \<and> p \<noteq> 0)" by blast
  then show ?thesis
  proof cases
    case bad
    then have "obind (closesocket (SOCKET d)) (\<lambda>_. obind (free_arg p) (\<lambda>_. oret None)) w1 = Some (Inr (r, w'))"
      using assms(8) dr by (simp add: admit_def obind_def olift_def)
    then show ?thesis using drop snap_keeps [OF keeps_db(19)] by (auto simp: obind_Inr received_def oret_def)
  next
    case run
    then have "obind (task_new q) (\<lambda>_. oret (Some p)) w1 = Some (Inr (r, w'))"
      using assms(8) dr by (simp add: admit_def obind_def olift_def)
    then show ?thesis using add run(2,3) by (auto simp: obind_Inr oret_def)
  next
    case full
    then have "obind (SyncSend (SOCKET d) OOM_text q) (\<lambda>_. obind (free_arg p) (\<lambda>_. oret None)) w1 = Some (Inr (r, w'))"
      using assms(8) dr by (auto simp: admit_def obind_def olift_def split: if_splits)
    then show ?thesis using drop snap_keeps [OF keeps_net(1)] by (auto simp: obind_Inr received_def oret_def)
  qed
qed

lemma loaded_snap: "loaded p q w w1 \<Longrightarrow> snap w2 = snap w1 \<Longrightarrow> loaded p q w w2"
  by (simp add: loaded_def split: if_splits)

lemma ServerWorkThread_received:
  assumes "infos w" and "wd_conns w p = None" and "p \<noteq> q \<or> q = 0" and "\<And>n l r. snap w q = Some (n, l, r) \<Longrightarrow> n \<le> 120"
    and "ServerWorkThread okay timeout q io bytes buf p w = Some (Inr (r, w'))"
  shows "received q p r w w'"
proof (cases "\<not> okay \<or> io = 0 \<or> q = 0 \<or> bytes = 0 \<or> 721 < bytes")
  case True
  have k: "keeps (obind (deref_conn q) (\<lambda>d. obind (closesocket (SOCKET d)) (\<lambda>_. oret None)))" by (intro keeping)
  have "obind (deref_conn q) (\<lambda>d. obind (closesocket (SOCKET d)) (\<lambda>_. oret None)) w = Some (Inr (r, w')) \<or> oret None w = Some (Inr (r, w'))"
    using assms(5) True by (auto simp: ServerWorkThread_def obind_Inr split: if_splits)
  then have "r = None" "snap w' = snap w" using snap_keeps [OF k, of w r w'] by (auto simp: oret_def obind_Inr)
  then show ?thesis by (simp add: received_def)
next
  case False
  then obtain d where d: "deref_conn q w = Some (Inr (d, w))" using assms(5)
    by (auto simp: ServerWorkThread_def obind_Inr deref_conn_def oret_def ofault_def split: if_splits option.splits)
  then have c: "wd_conns w q = Some d" by (auto simp: deref_conn_def oret_def ofault_def split: if_splits option.splits)
  let ?dev = "10 < bytes \<and> bytes \<le> 205"
  obtain x w1 y w2 where m: "(if ?dev then recv_device q d p bytes buf else recv_user q d p bytes buf) w = Some (Inr (x, w1))"
    and v: "check_version q p w1 = Some (Inr (y, w2))" and a: "admit q p w2 = Some (Inr (r, w'))"
    using assms(5) False d by (auto simp: ServerWorkThread_def obind_def split: option.splits sum.splits)
  have sn: "snap w q = Some (tasks d, length (info d), conn d)" using c by (simp add: snap_def)
  have "6 \<le> length (info d)" using assms(1) sn by (auto simp: infos_def)
  then have "loaded p q w w1" using recv_loaded [OF c _ _ m] assms(3) False by blast
  then have "loaded p q w w2" using snap_keeps [OF keeps_check_version v] by (rule loaded_snap)
  then show ?thesis using admit_received [OF _ assms(1,2) _ sn assms(4) [OF sn] _ a] assms(3) False by simp
qed

abbreviation links :: "CLN_LINK list \<Rightarrow> (nat \<times> nat) list" where
  "links ls \<equiv> map (\<lambda>l. (lk_conn l, lk_io l)) ls"

text \<open>A ping pass keeps all requests and counters, and every connection of the list is kept or handed on.\<close>

lemma keeps_ping_list: "keeps (ping_list busy mal hba ls)"
  by (induction ls; simp only: ping_list.simps; intro keeping; assumption?)

lemma ping_list_parts:
  assumes "ping_list busy mal hba ls w = Some (Inr ((ks, ts), w'))"
  shows "mset (filter (\<lambda>l. fst l \<noteq> 0) (links ls)) = mset (links ks @ ts)"
  using assms
proof (induction ls arbitrary: ks ts w)
  case Nil
  then show ?case by (simp add: oret_def)
next
  case (Cons l ls)
  show ?case
  proof (cases "lk_conn l = 0")
    case True
    then show ?thesis using Cons by simp
  next
    case False
    with Cons.prems obtain ks1 ts1 w1 l' where r: "ping_list busy mal hba ls w1 = Some (Inr ((ks1, ts1), w'))"
      and "ks = ks1 \<and> ts = (lk_conn l, lk_io l) # ts1 \<or> ks = l' # ks1 \<and> ts = ts1 \<and> lk_conn l' = lk_conn l \<and> lk_io l' = lk_io l"
      by (fastforce simp: obind_Inr oret_def ofault_def split: if_splits)
    then show ?thesis using Cons.IH [OF r] False by auto
  qed
qed

text \<open>A sweep frees only connections whose counter has a low byte of zero, unless it is forced to.\<close>

lemma snap_freeNode: "freeNode p w = Some (Inr (x, w')) \<Longrightarrow> p \<noteq> 0 \<Longrightarrow> snap w' = (snap w)(p := None)"
  by (auto simp: freeNode_def oret_def ofault_def snap_def fun_eq_iff split: if_splits)

lemma free_list_parts:
  assumes "free_list ls w = Some (Inr ((ks, ios), w'))" and "\<forall>l\<in>set ls. lk_left l < 100"
  shows "\<exists>fr. mset (filter (\<lambda>l. fst l \<noteq> 0) (links ls)) = mset (links ks @ fr) \<and> ios = map snd fr
    \<and> snap w' = snap w |` (- fst ` set fr) \<and> (\<forall>q\<in>fst ` set fr. \<exists>n l r. snap w q = Some (n, l, r) \<and> n mod 256 = 0)"
  using assms
proof (induction ls arbitrary: ks ios w)
  case Nil
  then show ?case by (simp add: oret_def restrict_map_def)
next
  case (Cons l ls)
  let ?q = "lk_conn l"
  consider "?q = 0" | "?q \<noteq> 0" by blast
  then show ?case
  proof cases
    case 1
    then show ?thesis using Cons by simp
  next
    case 2
    from Cons.prems(1) 2 obtain d where d: "deref_conn ?q w = Some (Inr (d, w))" "rd (info d) 2 = Inr (info d ! 2)"
      by (auto simp: obind_Inr olift_Inr deref_conn_def oret_def ofault_def rd_def split: if_splits option.splits)
    show ?thesis
    proof (cases "lk_time l = 1 \<and> info d ! 2 = NUL")
      case True
      with Cons.prems(1) 2 d obtain x1 w1 x2 w2 x3 w3 ks1 ios1 where
        w: "delete_user d w = Some (Inr (x1, w1))" "closesocket (SOCKET d) w1 = Some (Inr (x2, w2))" "freeNode ?q w2 = Some (Inr (x3, w3))"
        and f: "free_list ls w3 = Some (Inr ((ks1, ios1), w'))" "ks = ks1" "ios = lk_io l # ios1"
        by (auto simp: obind_def olift_def oret_def split: option.splits sum.splits)
      have s3: "snap w3 = (snap w)(?q := None)"
        using snap_freeNode [OF w(3) 2] snap_keeps [OF keeps_db(12) w(1)] snap_keeps [OF keeps_db(19) w(2)] by simp
      obtain fr where fr: "mset (filter (\<lambda>l. fst l \<noteq> 0) (links ls)) = mset (links ks1 @ fr)" "ios1 = map snd fr"
        "snap w' = snap w3 |` (- fst ` set fr)" "\<forall>q\<in>fst ` set fr. \<exists>n l r. snap w3 q = Some (n, l, r) \<and> n mod 256 = 0"
        using Cons.IH [OF f(1)] Cons.prems(2) by auto
      have "tasks d mod 256 = 0" using low_byte [of d] True by simp
      then have q: "\<exists>n l r. snap w ?q = Some (n, l, r) \<and> n mod 256 = 0" using snap_deref [OF d(1)] by auto
      have "snap w' = snap w |` (- fst ` set ((?q, lk_io l) # fr))" unfolding fr(3) s3 by (auto simp: restrict_map_def)
      moreover have "\<exists>n l r. snap w q = Some (n, l, r) \<and> n mod 256 = 0" if "q \<in> fst ` set fr" for q
        using fr(4) that unfolding s3 by (metis fun_upd_apply option.distinct(1))
      ultimately show ?thesis using fr(1,2) f(2,3) 2 q by (intro exI [of _ "(?q, lk_io l) # fr"]) auto
    next
      case False
      with Cons.prems 2 d obtain l' ks1 where f: "free_list ls w = Some (Inr ((ks1, ios), w'))" "ks = l' # ks1"
        "lk_conn l' = ?q" "lk_io l' = lk_io l"
        by (auto simp: obind_def olift_def oret_def split: option.splits sum.splits if_splits)
      then show ?thesis using Cons.IH [OF f(1)] Cons.prems(2) 2 by (auto simp: union_commute)
    qed
  qed
qed

section \<open>The invariant\<close>

text \<open>
  On a snapshot of counters and owners: \<open>conns\<close> are the connections, \<open>reqs \<sigma> q\<close> the requests of the connection \<open>q\<close>
  that are allocated. \<open>counted\<close>: the counter of every connection is the number of its requests and at most 120, and
  the connection of every request is allocated.
\<close>

type_synonym snapshot = "nat \<Rightarrow> (nat \<times> nat \<times> nat) option"

definition conns :: "snapshot \<Rightarrow> nat set" where
  "conns \<sigma> = {q. \<exists>n l. \<sigma> q = Some (n, l, 0)}"

definition reqs :: "snapshot \<Rightarrow> nat \<Rightarrow> nat set" where
  "reqs \<sigma> q = {p. \<exists>n l. \<sigma> p = Some (n, l, q)}"

definition counted :: "snapshot \<Rightarrow> bool" where
  "counted \<sigma> = (finite (dom \<sigma>) \<and> \<sigma> 0 = None
     \<and> (\<forall>p n l r. \<sigma> p = Some (n, l, r) \<longrightarrow> 6 \<le> l \<and> (if r = 0 then n = card (reqs \<sigma> p) \<and> n \<le> 120 else r \<in> conns \<sigma>)))"

lemma countedI:
  assumes "finite (dom \<sigma>)" and "\<sigma> 0 = None"
    and "\<And>p n l. \<sigma> p = Some (n, l, 0) \<Longrightarrow> p \<noteq> 0 \<Longrightarrow> 6 \<le> l \<and> n = card (reqs \<sigma> p) \<and> n \<le> 120"
    and "\<And>p n l r. \<sigma> p = Some (n, l, r) \<Longrightarrow> r \<noteq> 0 \<Longrightarrow> 6 \<le> l \<and> r \<in> conns \<sigma>"
  shows "counted \<sigma>"
  unfolding counted_def
proof (intro conjI allI impI)
  fix p n l r assume p: "\<sigma> p = Some (n, l, r)"
  then have "p \<noteq> 0" using assms(2) by (metis option.distinct(1))
  then show "6 \<le> l" "if r = 0 then n = card (reqs \<sigma> p) \<and> n \<le> 120 else r \<in> conns \<sigma>"
    using assms(3,4) p by (cases "r = 0"; fastforce)+
qed (use assms(1,2) in auto)

lemma countedD:
  assumes "counted \<sigma>" and "\<sigma> p = Some (n, l, r)"
  shows "p \<noteq> 0" "6 \<le> l" "r = 0 \<Longrightarrow> n = card (reqs \<sigma> p) \<and> n \<le> 120" "r \<noteq> 0 \<Longrightarrow> r \<in> conns \<sigma>"
  using assms by (metis counted_def option.distinct(1))+

lemma counted_basic: "counted \<sigma> \<Longrightarrow> finite (dom \<sigma>) \<and> \<sigma> 0 = None"
  by (simp add: counted_def)

lemma counted_infos: "counted (snap w) \<Longrightarrow> infos w"
  by (auto simp: counted_def infos_def)

lemma reqs_finite: "counted \<sigma> \<Longrightarrow> finite (reqs \<sigma> q)"
  by (auto simp: counted_def reqs_def dom_def elim: rev_finite_subset)

lemma counted_conn: "counted \<sigma> \<Longrightarrow> q \<in> conns \<sigma> \<Longrightarrow> \<exists>l. \<sigma> q = Some (card (reqs \<sigma> q), l, 0) \<and> card (reqs \<sigma> q) \<le> 120 \<and> 6 \<le> l \<and> q \<noteq> 0"
  using countedD [of \<sigma> q] by (fastforce simp: conns_def)

text \<open>A new connection, a new request, the end of a request, and the end of idle connections.\<close>

lemma counted_connect:
  assumes "counted \<sigma>" and "\<sigma> q = None" and "q \<noteq> 0" and "6 \<le> k"
  shows "counted (\<sigma>(q \<mapsto> (0, k, 0)))" "conns (\<sigma>(q \<mapsto> (0, k, 0))) = insert q (conns \<sigma>)" "r \<noteq> 0 \<Longrightarrow> reqs (\<sigma>(q \<mapsto> (0, k, 0))) r = reqs \<sigma> r"
proof -
  have q: "q \<notin> conns \<sigma>" using assms(2) by (simp add: conns_def)
  have r: "reqs (\<sigma>(q \<mapsto> (0, k, 0))) r = reqs \<sigma> r" if "r \<noteq> 0" for r using assms(2) that by (auto simp: reqs_def)
  then show "r \<noteq> 0 \<Longrightarrow> reqs (\<sigma>(q \<mapsto> (0, k, 0))) r = reqs \<sigma> r" .
  show c: "conns (\<sigma>(q \<mapsto> (0, k, 0))) = insert q (conns \<sigma>)" using q by (auto simp: conns_def)
  have "reqs \<sigma> q = {}" using countedD(4) [OF assms(1)] assms(3) q by (fastforce simp: reqs_def)
  then show "counted (\<sigma>(q \<mapsto> (0, k, 0)))"
    using assms(2-4) counted_basic [OF assms(1)] countedD [OF assms(1)] r c by (intro countedI) (auto split: if_splits)
qed

lemma counted_request:
  assumes "counted \<sigma>" and "\<sigma> p = None" and "p \<noteq> 0" and "\<sigma> q = Some (n, l, 0)" and "n < 120" and "6 \<le> k"
  shows "counted (\<sigma>(q \<mapsto> (n + 1, l, 0), p \<mapsto> (t, k, q)))" "conns (\<sigma>(q \<mapsto> (n + 1, l, 0), p \<mapsto> (t, k, q))) = conns \<sigma>"
    "p \<in> reqs (\<sigma>(q \<mapsto> (n + 1, l, 0), p \<mapsto> (t, k, q))) q" "r \<noteq> 0 \<Longrightarrow> reqs \<sigma> r \<subseteq> reqs (\<sigma>(q \<mapsto> (n + 1, l, 0), p \<mapsto> (t, k, q))) r"
proof -
  let ?s = "\<sigma>(q \<mapsto> (n + 1, l, 0), p \<mapsto> (t, k, q))"
  have q: "q \<noteq> 0" "p \<noteq> q" "q \<in> conns \<sigma>" using countedD(1) [OF assms(1,4)] assms(2,4) by (auto simp: conns_def)
  have r: "reqs ?s r = (if r = q then insert p (reqs \<sigma> q) else reqs \<sigma> r)" if "r \<noteq> 0" for r
    using assms(2,4) q that by (auto simp: reqs_def)
  show "p \<in> reqs ?s q" "r \<noteq> 0 \<Longrightarrow> reqs \<sigma> r \<subseteq> reqs ?s r" using r q by auto
  show c: "conns ?s = conns \<sigma>" using assms(2,4) q by (auto simp: conns_def)
  have "p \<notin> reqs \<sigma> q" using assms(2) by (simp add: reqs_def)
  then have "card (insert p (reqs \<sigma> q)) = n + 1" using reqs_finite [OF assms(1)] countedD(3) [OF assms(1,4)] by simp
  then show "counted ?s"
    using assms(2-6) counted_basic [OF assms(1)] countedD [OF assms(1)] r c q by (intro countedI) (auto split: if_splits)
qed

lemma counted_finish:
  assumes "counted \<sigma>" and "\<sigma> p = Some (t, k, q)" and "q \<noteq> 0" and "\<sigma> q = Some (n, l, r0)"
  shows "counted (\<sigma>(q \<mapsto> (nat ((int n - 1) mod 2 ^ 32), l, r0), p := None))"
    "conns (\<sigma>(q \<mapsto> (nat ((int n - 1) mod 2 ^ 32), l, r0), p := None)) = conns \<sigma>"
    "r \<noteq> 0 \<Longrightarrow> reqs (\<sigma>(q \<mapsto> (nat ((int n - 1) mod 2 ^ 32), l, r0), p := None)) r = reqs \<sigma> r - {p}"
proof -
  let ?s = "\<sigma>(q \<mapsto> (nat ((int n - 1) mod 2 ^ 32), l, r0), p := None)"
  have r0: "r0 = 0" and pq: "p \<noteq> q" using countedD(4) [OF assms(1,2,3)] assms(2-4) by (auto simp: conns_def)
  have p: "p \<in> reqs \<sigma> q" using assms(2) by (simp add: reqs_def)
  have r: "reqs ?s r = reqs \<sigma> r - {p}" if "r \<noteq> 0" for r using assms(4) r0 that by (auto simp: reqs_def)
  then show "r \<noteq> 0 \<Longrightarrow> reqs ?s r = reqs \<sigma> r - {p}" .
  show c: "conns ?s = conns \<sigma>" using assms r0 pq by (auto simp: conns_def)
  have n: "n = card (reqs \<sigma> q)" "n \<le> 120" using countedD(3) [OF assms(1,4) r0] by simp_all
  then have "0 < n" using p reqs_finite [OF assms(1)] card_gt_0_iff by blast
  then have n': "nat ((int n - 1) mod 2 ^ 32) = n - 1" using n(2) by (simp add: nat_diff_distrib)
  have "card (reqs \<sigma> q - {p}) = n - 1" using p n(1) by simp
  moreover have "reqs \<sigma> x - {p} = reqs \<sigma> x" if "x \<noteq> q" for x using assms(2) that by (auto simp: reqs_def)
  ultimately have cr: "card (reqs ?s x) = (if x = q then n - 1 else card (reqs \<sigma> x))" if "x \<noteq> 0" for x using r [OF that] by simp
  show "counted ?s"
  proof (rule countedI)
    show "finite (dom ?s)" "?s 0 = None" using counted_basic [OF assms(1)] assms(3) by simp_all
    show "6 \<le> y \<and> m = card (reqs ?s x) \<and> m \<le> 120" if "?s x = Some (m, y, 0)" "x \<noteq> 0" for x m y
      using that cr n n' countedD(2) [OF assms(1,4)] countedD(2,3) [OF assms(1), of x] by (cases "x = q") (auto split: if_splits)
    show "6 \<le> y \<and> z \<in> conns ?s" if "?s x = Some (m, y, z)" "z \<noteq> 0" for x m y z
      unfolding c using that r0 countedD(2,4) [OF assms(1), of x] by (auto split: if_splits)
  qed
qed

lemma counted_close:
  assumes "counted \<sigma>" and "F \<subseteq> conns \<sigma>" and "\<And>q. q \<in> F \<Longrightarrow> reqs \<sigma> q = {}"
  shows "counted (\<sigma> |` (- F))" "conns (\<sigma> |` (- F)) = conns \<sigma> - F" "r \<noteq> 0 \<Longrightarrow> reqs (\<sigma> |` (- F)) r = reqs \<sigma> r"
proof -
  have r: "reqs (\<sigma> |` (- F)) r = reqs \<sigma> r" if "r \<noteq> 0" for r
    using assms(2) that by (fastforce simp: reqs_def restrict_map_def conns_def split: if_splits)
  then show "r \<noteq> 0 \<Longrightarrow> reqs (\<sigma> |` (- F)) r = reqs \<sigma> r" .
  show c: "conns (\<sigma> |` (- F)) = conns \<sigma> - F" by (auto simp: conns_def restrict_map_def split: if_splits)
  have "r \<notin> F" if "\<sigma> p = Some (n, l, r)" for p n l r using assms(3) that by (auto simp: reqs_def)
  moreover have "finite (dom (\<sigma> |` (- F)))" using counted_basic [OF assms(1)] by simp
  ultimately show "counted (\<sigma> |` (- F))"
    using counted_basic [OF assms(1)] countedD [OF assms(1)] r c
    by (intro countedI) (auto simp: restrict_map_def split: if_splits)
qed

section \<open>Steps of the server\<close>

text \<open>
  Addresses that \<open>malloc\<close> returns are not in use; a completion belongs to a connection that is allocated. The
  six kinds of steps: the accept loop, a completion, a request that is handled, a task of \<open>addConnMemWait4Free\<close>,
  a ping pass and a sweep.
\<close>

inductive sstep :: "server \<Rightarrow> server \<Rightarrow> bool" where
  accept: "wd_conns (sv_w s) q = None \<Longrightarrow> \<not> sv_ios s io \<Longrightarrow> AcceptClient q acc io mal mal' s = Some (Inr ((), s')) \<Longrightarrow> sstep s s'"
| receive: "q = 0 \<or> q \<in> conns (snap (sv_w s)) \<Longrightarrow> p = 0 \<or> wd_conns (sv_w s) p = None
    \<Longrightarrow> ServerWorkThread okay timeout q io bytes buf p (sv_w s) = Some (Inr (r, w'))
    \<Longrightarrow> sstep s (s\<lparr>sv_w := w', sv_msgs := sv_msgs s @ (case r of None \<Rightarrow> [] | Some p' \<Rightarrow> [p'])\<rparr>)"
| handle: "p \<in> set (sv_msgs s) \<Longrightarrow> talk p (sv_w s) = Some (Inr (x, w')) \<Longrightarrow> sstep s (s\<lparr>sv_w := w', sv_msgs := remove1 p (sv_msgs s)\<rparr>)"
| enlist: "sv_tasks s = t # ts \<Longrightarrow> addConnMemWait4Free mal (Some t) (s\<lparr>sv_tasks := ts\<rparr>) = Some (Inr (x, s')) \<Longrightarrow> sstep s s'"
| ping: "PingMallocConnList busy mal now s = Some (Inr ((), s')) \<Longrightarrow> sstep s s'"
| sweep: "freeConnMemWait4Free s = Some (Inr ((), s')) \<Longrightarrow> sstep s s'"

definition owned :: "server \<Rightarrow> (nat \<times> nat) list" where
  "owned s = links (sv_free s) @ links (sv_ping s) @ sv_tasks s"

definition owned_ok :: "snapshot \<Rightarrow> (nat \<Rightarrow> bool) \<Rightarrow> (nat \<times> nat) list \<Rightarrow> bool" where
  "owned_ok \<sigma> ios xs = (distinct (map fst xs) \<and> distinct (map snd xs) \<and> (\<forall>q io. (q, io) \<in> set xs \<longrightarrow> q \<in> conns \<sigma> \<and> io \<noteq> 0 \<and> ios io))"

text \<open>
  The counters are right, every connection is owned by at most one of the lists and is allocated, with its I/O
  block, \<open>AcceptClientNum\<close> is the number of connections and at most 10000, and every request in the pool is
  allocated, and there only once.
\<close>

definition msgs_ok :: "snapshot \<Rightarrow> nat list \<Rightarrow> bool" where
  "msgs_ok \<sigma> ps = (distinct ps \<and> (\<forall>p\<in>set ps. \<exists>q. q \<noteq> 0 \<and> p \<in> reqs \<sigma> q))"

definition server_inv :: "server \<Rightarrow> bool" where
  "server_inv s = (counted (snap (sv_w s)) \<and> owned_ok (snap (sv_w s)) (sv_ios s) (owned s)
     \<and> AcceptClientNum s = int (card (conns (snap (sv_w s)))) \<and> AcceptClientNum s \<le> 10000
     \<and> msgs_ok (snap (sv_w s)) (sv_msgs s))"

text \<open>A sweep that finds a connection waiting for a hundred passes frees it in any case.\<close>

definition forced :: "server \<Rightarrow> bool" where
  "forced s = (\<exists>l\<in>set (sv_free s). 100 \<le> lk_left l)"

inductive calm_steps :: "server \<Rightarrow> server \<Rightarrow> bool" where
  calm_refl: "calm_steps s s"
| calm_step: "calm_steps s s' \<Longrightarrow> \<not> forced s' \<Longrightarrow> sstep s' s'' \<Longrightarrow> calm_steps s s''"

lemma owned_perm:
  assumes "mset xs = mset ys"
  shows "owned_ok \<sigma> ios xs = owned_ok \<sigma> ios ys"
proof -
  have "distinct (map f xs) = distinct (map f ys)" for f :: "nat \<times> nat \<Rightarrow> nat"
    by (rule mset_eq_imp_distinct_iff) (simp add: assms)
  then show ?thesis unfolding owned_ok_def using mset_eq_setD [OF assms] by simp
qed

lemma owned_append: "owned_ok \<sigma> ios (xs @ ys) \<Longrightarrow> owned_ok \<sigma> ios ys"
  by (auto simp: owned_ok_def)

lemma owned_rest:
  assumes "owned_ok \<sigma> ios (xs @ ys)" and "conns \<sigma>' = conns \<sigma> - fst ` set xs"
  shows "owned_ok \<sigma>' (\<lambda>i. ios i \<and> i \<notin> snd ` set xs) ys"
proof -
  have "q \<notin> fst ` set xs \<and> io \<notin> snd ` set xs" if "(q, io) \<in> set ys" for q io
  proof -
    have "q \<in> fst ` set ys" "io \<in> snd ` set ys" using that by force+
    moreover have "fst ` set xs \<inter> fst ` set ys = {}" "snd ` set xs \<inter> snd ` set ys = {}" using assms(1) by (simp_all add: owned_ok_def)
    ultimately show ?thesis by blast
  qed
  then show ?thesis using assms unfolding owned_ok_def by auto
qed

lemma owned_nonzero: "counted \<sigma> \<Longrightarrow> owned_ok \<sigma> ios xs \<Longrightarrow> set ys \<subseteq> set xs \<Longrightarrow> filter (\<lambda>l. fst l \<noteq> 0) ys = ys"
  by (rule filter_True) (metis counted_conn owned_ok_def prod.collapse subsetD)

lemma msgs_mono: "(\<And>r. r \<noteq> 0 \<Longrightarrow> reqs \<sigma> r \<subseteq> reqs \<sigma>' r) \<Longrightarrow> msgs_ok \<sigma> ps \<Longrightarrow> msgs_ok \<sigma>' ps"
  unfolding msgs_ok_def by blast

lemma inv_same:
  "server_inv s \<Longrightarrow> snap (sv_w s') = snap (sv_w s) \<Longrightarrow> sv_ios s' = sv_ios s \<Longrightarrow> mset (owned s') = mset (owned s)
    \<Longrightarrow> AcceptClientNum s' = AcceptClientNum s \<Longrightarrow> sv_msgs s' = sv_msgs s \<Longrightarrow> server_inv s'"
  unfolding server_inv_def using owned_perm [of "owned s'" "owned s"] by simp

lemma inv_accept:
  assumes "server_inv s" and "wd_conns (sv_w s) q = None" and "\<not> sv_ios s io" and "AcceptClient q acc io mal mal' s = Some (Inr ((), s'))"
  shows "server_inv s'"
proof (cases "q = 0 \<or> AcceptClientNum s \<ge> 10000 \<or> acc = None \<or> io = 0")
  case True
  then show ?thesis using assms(4)
    by (intro inv_same [OF assms(1)])
      (auto simp: AcceptClient_def on_world_def closesocket_def oret_def owned_def snap_def fun_eq_iff split: if_splits option.splits)
next
  case False
  then obtain sock adr where acc: "acc = Some (sock, adr)" by auto
  let ?c = "new_conn sock adr" and ?\<sigma> = "snap (sv_w s)"
  have t: "tasks ?c = 0" "length (info ?c) = 100" "conn ?c = 0"
    by (simp_all add: new_conn_def tasks_def word_at_def empty_cln_def nth_list_update)
  obtain xs where s': "snap (sv_w s') = ?\<sigma>(q \<mapsto> (0, 100, 0))" "sv_ios s' = (sv_ios s)(io := True)" "mset (owned s') = mset (xs @ owned s)"
      "AcceptClientNum s' = AcceptClientNum s + 1" "sv_msgs s' = sv_msgs s" "xs = [] \<or> xs = [(q, io)]"
    using assms(4) False acc t
    by (auto simp: AcceptClient_def on_world_def set_conn_def oret_def Add2MallocConnList_def addConnMemWait4Ping_def owned_def snap_def fun_eq_iff
        split: if_splits)
  have n: "?\<sigma> q = None" "q \<notin> conns ?\<sigma>" using assms(2) by (simp_all add: snap_def conns_def)
  note i = assms(1) [unfolded server_inv_def]
  note c = counted_connect [of ?\<sigma> q 100]
  have "finite (conns ?\<sigma>)" using i by (auto simp: counted_def conns_def dom_def elim: rev_finite_subset)
  then have "card (insert q (conns ?\<sigma>)) = card (conns ?\<sigma>) + 1" using n(2) by simp
  moreover have "owned_ok (snap (sv_w s')) (sv_ios s') (xs @ owned s)"
    using i s'(1,2,6) c(2) n False assms(3) unfolding owned_ok_def by fastforce
  moreover have "msgs_ok (snap (sv_w s')) (sv_msgs s)"
    using msgs_mono [of ?\<sigma> "snap (sv_w s')" "sv_msgs s"] i s'(1) c(3) n(1) False by simp
  ultimately show ?thesis unfolding server_inv_def
    using i s'(1,4,5) c(1,2) n False owned_perm [OF s'(3)] by simp
qed

lemma inv_receive:
  assumes "server_inv s" and "q = 0 \<or> q \<in> conns (snap (sv_w s))" and "p = 0 \<or> wd_conns (sv_w s) p = None"
    and "ServerWorkThread okay timeout q io bytes buf p (sv_w s) = Some (Inr (r, w'))"
  shows "server_inv (s\<lparr>sv_w := w', sv_msgs := sv_msgs s @ (case r of None \<Rightarrow> [] | Some p' \<Rightarrow> [p'])\<rparr>)"
proof -
  note i = assms(1) [unfolded server_inv_def]
  let ?\<sigma> = "snap (sv_w s)"
  have z: "wd_conns (sv_w s) 0 = None" using i by (auto simp: counted_def snap_def)
  then have p: "?\<sigma> p = None" using assms(3) by (auto simp: snap_def)
  have "received q p r (sv_w s) w'"
  proof (rule ServerWorkThread_received [OF _ _ _ _ assms(4)])
    show "infos (sv_w s)" using i counted_infos by blast
    show "wd_conns (sv_w s) p = None" using z assms(3) by auto
    show "p \<noteq> q \<or> q = 0" using assms(2) p by (auto simp: conns_def)
    show "n \<le> 120" if "?\<sigma> q = Some (n, l, r)" for n l r using assms(2) that i z counted_conn [of ?\<sigma> q] by (auto simp: snap_def)
  qed
  show ?thesis
  proof (cases r)
    case None
    then show ?thesis using \<open>received _ _ _ _ _\<close> by (intro inv_same [OF assms(1)]) (auto simp: received_def owned_def)
  next
    case (Some p')
    then obtain n l t k o' where q: "p' = p" "p \<noteq> 0" "?\<sigma> q = Some (n, l, o')" "n < 120" "6 \<le> k"
      and w': "snap w' = ?\<sigma>(q \<mapsto> (n + 1, l, o'), p \<mapsto> (t, k, q))"
      using \<open>received _ _ _ _ _\<close> by (auto simp: received_def)
    have o': "q \<noteq> 0" "o' = 0" using assms(2) q(3) z by (metis option.distinct(1) option.simps(8) snap_def, auto simp: conns_def snap_def)
    note c = counted_request [where \<sigma> = ?\<sigma> and p = p and q = q and n = n and l = l and k = k and t = t, folded w' [unfolded o'(2)]]
    have "p \<notin> set (sv_msgs s)" using i p by (auto simp: reqs_def msgs_ok_def)
    moreover have "msgs_ok (snap w') (sv_msgs s)" using msgs_mono [of ?\<sigma> "snap w'" "sv_msgs s"] i c(4) q o' p by simp
    moreover have "owned_ok (snap w') (sv_ios s) (owned s)" using i c(2) q o' p by (simp add: owned_ok_def)
    ultimately show ?thesis using i c(1-3) q o' p Some unfolding server_inv_def
      by (auto simp: owned_def msgs_ok_def)
  qed
qed

lemma msgs_remove:
  assumes "\<And>r. r \<noteq> 0 \<Longrightarrow> reqs \<sigma> r - {p} \<subseteq> reqs \<sigma>' r" and "msgs_ok \<sigma> ps"
  shows "msgs_ok \<sigma>' (remove1 p ps)"
proof -
  have "\<exists>q. q \<noteq> 0 \<and> x \<in> reqs \<sigma>' q" if x: "x \<in> set ps" "x \<noteq> p" for x
  proof -
    obtain q where "q \<noteq> 0" "x \<in> reqs \<sigma> q" using assms(2) x(1) by (auto simp: msgs_ok_def)
    then show ?thesis using assms(1) [of q] x(2) by blast
  qed
  then show ?thesis using assms(2) by (simp add: msgs_ok_def)
qed

lemma inv_handle:
  assumes "server_inv s" and "p \<in> set (sv_msgs s)" and "talk p (sv_w s) = Some (Inr (x, w'))"
  shows "server_inv (s\<lparr>sv_w := w', sv_msgs := remove1 p (sv_msgs s)\<rparr>)"
proof -
  note i = assms(1) [unfolded server_inv_def]
  let ?\<sigma> = "snap (sv_w s)"
  have rem: "msgs_ok \<sigma> (remove1 p (sv_msgs s))" if "\<And>r. r \<noteq> 0 \<Longrightarrow> reqs ?\<sigma> r - {p} \<subseteq> reqs \<sigma> r" for \<sigma>
    using msgs_remove [OF that] i by blast
  obtain q where q: "q \<noteq> 0" "p \<in> reqs ?\<sigma> q" using i assms(2) by (auto simp: msgs_ok_def)
  then obtain a t k where a: "wd_conns (sv_w s) p = Some a" "conn a = q" "?\<sigma> p = Some (t, k, q)" by (auto simp: reqs_def snap_def)
  have "p \<noteq> 0" using i countedD(1) [of ?\<sigma> p] a(3) by blast
  then consider "finished p q (sv_w s) w'" | "snap w' = ?\<sigma>"
    using talk_once [OF _ counted_infos a(1) assms(3)] i a(2) by (auto simp: same_tasks_snap)
  then show ?thesis
  proof cases
    case 1
    then obtain n l r where s: "?\<sigma> q = Some (n, l, r)" and w': "snap w' = ?\<sigma>(q \<mapsto> (nat ((int n - 1) mod 2 ^ 32), l, r), p := None)"
      by (auto simp: finished_def)
    note c = counted_finish [OF _ a(3) q(1) s, folded w']
    have "owned_ok (snap w') (sv_ios s) (owned s)" using i c(2) by (simp add: owned_ok_def)
    then show ?thesis using i c(1,2) rem [of "snap w'"] c(3) unfolding server_inv_def by (simp add: owned_def)
  next
    case 2
    then show ?thesis using i rem [of ?\<sigma>] unfolding server_inv_def by (auto simp: owned_def)
  qed
qed

lemma inv_enlist:
  assumes "server_inv s" and "sv_tasks s = t # ts" and "addConnMemWait4Free mal (Some t) (s\<lparr>sv_tasks := ts\<rparr>) = Some (Inr (x, s'))"
  shows "server_inv s'"
proof -
  obtain xs where s': "snap (sv_w s') = snap (sv_w s)" "sv_ios s' = sv_ios s" "mset (xs @ owned s') = mset (owned s)"
      "AcceptClientNum s' = AcceptClientNum s" "sv_msgs s' = sv_msgs s"
  proof (cases mal)
    case True
    then show thesis using assms(2,3) by (intro that [of "[]"]) (auto simp: addConnMemWait4Free_def owned_def split: if_splits prod.splits)
  next
    case False
    then show thesis using assms(2,3) by (intro that [of "[t]"]) (auto simp: addConnMemWait4Free_def owned_def split: if_splits prod.splits)
  qed
  then show ?thesis using assms(1) owned_perm [OF s'(3)] owned_append [of _ _ xs "owned s'"] unfolding server_inv_def by simp
qed

lemma inv_ping:
  assumes "server_inv s" and "PingMallocConnList busy mal now s = Some (Inr ((), s'))"
  shows "server_inv s'"
proof -
  let ?\<sigma> = "snap (sv_w s)"
  obtain ks ts w where p: "ping_list busy mal (''HBA'' @ now @ [HC]) (sv_ping s) (sv_w s) = Some (Inr ((ks, ts), w))"
    and s': "s' = s\<lparr>sv_w := w, sv_ping := ks, sv_ping_time := sv_ping_time s - int (length ts), sv_tasks := sv_tasks s @ ts\<rparr>"
    using assms(2) by (auto simp: PingMallocConnList_def on_world_def split: if_splits option.splits sum.splits)
  have "filter (\<lambda>l. fst l \<noteq> 0) (links (sv_ping s)) = links (sv_ping s)"
    using assms(1) by (intro owned_nonzero [of ?\<sigma> "sv_ios s" "owned s"]) (auto simp: server_inv_def owned_def)
  then have "mset (owned s') = mset (owned s)" using ping_list_parts [OF p] s' by (simp add: owned_def)
  then show ?thesis using inv_same [OF assms(1)] s' snap_keeps [OF keeps_ping_list p] by simp
qed

lemma free_ios_ok: "distinct is \<Longrightarrow> \<forall>i\<in>set is. i \<noteq> 0 \<and> m i \<Longrightarrow> free_ios is m = Inr (\<lambda>i. m i \<and> i \<notin> set is)"
proof (induction "is" arbitrary: m)
  case (Cons i "is")
  then have "free_ios is (m(i := False)) = Inr (\<lambda>x. (m(i := False)) x \<and> x \<notin> set is)" by (intro Cons.IH) auto
  then show ?case using Cons.prems by (auto simp: fun_eq_iff)
qed simp

lemma inv_sweep:
  assumes "server_inv s" and "\<not> forced s" and "freeConnMemWait4Free s = Some (Inr ((), s'))"
  shows "server_inv s'"
proof (cases "sv_mutex s")
  case True
  then show ?thesis using assms(1,3) by (simp add: freeConnMemWait4Free_def)
next
  case False
  let ?\<sigma> = "snap (sv_w s)"
  note i = assms(1) [unfolded server_inv_def]
  obtain ks ios w m where f: "free_list (sv_free s) (sv_w s) = Some (Inr ((ks, ios), w))" and m: "free_ios ios (sv_ios s) = Inr m"
    and s': "sv_w s' = w" "sv_free s' = ks" "sv_ping s' = sv_ping s" "sv_tasks s' = sv_tasks s" "sv_ios s' = m" "sv_msgs s' = sv_msgs s"
      "AcceptClientNum s' = AcceptClientNum s - int (length ios)"
    using assms(3) False by (auto simp: freeConnMemWait4Free_def on_world_def rbind_eq_Inr split: if_splits option.splits sum.splits)
  have nz: "filter (\<lambda>l. fst l \<noteq> 0) (links (sv_free s)) = links (sv_free s)"
    using i by (intro owned_nonzero [of ?\<sigma> "sv_ios s" "owned s"]) (auto simp: owned_def)
  obtain fr where fr: "mset (links (sv_free s)) = mset (links ks @ fr)" "ios = map snd fr"
    "snap w = ?\<sigma> |` (- fst ` set fr)" "\<forall>q\<in>fst ` set fr. \<exists>n l r. ?\<sigma> q = Some (n, l, r) \<and> n mod 256 = 0"
    using free_list_parts [OF f] assms(2) unfolding nz by (auto simp: forced_def not_le)
  have o: "owned_ok ?\<sigma> (sv_ios s) (fr @ owned s')"
    using i owned_perm [of "fr @ owned s'" "owned s"] fr(1) s'(2-4) by (simp add: owned_def)
  have F: "fst ` set fr \<subseteq> conns ?\<sigma>" using o by (auto simp: owned_ok_def)
  have idle: "reqs ?\<sigma> q = {}" if "q \<in> fst ` set fr" for q
  proof -
    have "card (reqs ?\<sigma> q) mod 256 = 0" "card (reqs ?\<sigma> q) \<le> 120" using fr(4) that i F counted_conn [of ?\<sigma> q] by fastforce+
    then have "card (reqs ?\<sigma> q) = 0" by simp
    then show ?thesis using reqs_finite [of ?\<sigma> q] i by simp
  qed
  note c = counted_close [of ?\<sigma>, OF _ F idle, folded fr(3)]
  have io: "distinct ios" "\<forall>i\<in>set ios. i \<noteq> 0 \<and> sv_ios s i" using o fr(2) by (fastforce simp: owned_ok_def)+
  have "m = (\<lambda>i. sv_ios s i \<and> i \<notin> set ios)" using m free_ios_ok [OF io] by simp
  then have "owned_ok (snap w) m (owned s')" using owned_rest [OF o, of "snap w"] c(2) i fr(2) by simp
  moreover have "card (conns (snap w)) = card (conns ?\<sigma>) - length ios" "length ios \<le> card (conns ?\<sigma>)"
  proof -
    have "card (fst ` set fr) = length ios" using o fr(2) by (auto simp: owned_ok_def distinct_card simp flip: set_map)
    moreover have "finite (conns ?\<sigma>)" using i by (auto simp: counted_def conns_def dom_def elim: rev_finite_subset)
    ultimately show "card (conns (snap w)) = card (conns ?\<sigma>) - length ios" "length ios \<le> card (conns ?\<sigma>)"
      using c(2) i F card_Diff_subset [of "fst ` set fr" "conns ?\<sigma>"] card_mono [of "conns ?\<sigma>" "fst ` set fr"] by simp_all
  qed
  moreover have "msgs_ok (snap w) (sv_msgs s)" using msgs_mono [of ?\<sigma> "snap w" "sv_msgs s"] i c(3) by simp
  ultimately show ?thesis using i c(1) s' unfolding server_inv_def by (simp add: of_nat_diff)
qed

lemma inv_step: "sstep s s' \<Longrightarrow> \<not> forced s \<Longrightarrow> server_inv s \<Longrightarrow> server_inv s'"
proof (induction rule: sstep.induct)
  case (accept s q io acc mal mal' s')
  then show ?case using inv_accept by blast
next
  case (receive q s p okay timeout io bytes buf r w')
  then show ?case using inv_receive by blast
next
  case (handle p s x w')
  then show ?case using inv_handle by blast
next
  case (enlist s t ts mal x s')
  then show ?case using inv_enlist by blast
next
  case (ping busy mal now s s')
  then show ?case using inv_ping by blast
next
  case (sweep s s')
  then show ?case using inv_sweep by blast
qed

lemma inv_calm: "calm_steps s s' \<Longrightarrow> server_inv s \<Longrightarrow> server_inv s'"
  by (induction rule: calm_steps.induct) (auto dest: inv_step)

section \<open>Properties\<close>

text \<open>The server before the first connection.\<close>

definition started :: "server \<Rightarrow> bool" where
  "started s = (wd_conns (sv_w s) = (\<lambda>_. None) \<and> sv_free s = [] \<and> sv_ping s = [] \<and> sv_tasks s = [] \<and> sv_msgs s = [] \<and> AcceptClientNum s = 0)"

lemma started_inv: "started s \<Longrightarrow> server_inv s"
  by (auto simp: started_def server_inv_def counted_def owned_ok_def owned_def msgs_ok_def snap_def conns_def dom_def)

lemma conns_eq: "conns (snap w) = {q. \<exists>c. wd_conns w q = Some c \<and> conn c = 0}"
  by (auto simp: conns_def snap_def)

lemma reqs_eq: "reqs (snap w) q = {p. \<exists>a. wd_conns w p = Some a \<and> conn a = q}"
  by (auto simp: reqs_def snap_def)




text \<open>A server that has just started; one client connects and its device sends a packet.\<close>

definition server0 :: server where
  "server0 = \<lparr>sv_w = world0, sv_free = [], sv_free_time = 0, sv_ping = [], sv_ping_time = 0, sv_mutex = False, sv_ios = (\<lambda>_. False),
     AcceptClientNum = 0, sv_msgs = [], sv_tasks = []\<rparr>"

definition server1 :: server where
  "server1 = server0\<lparr>sv_w := world0\<lparr>wd_conns := [3 \<mapsto> new_conn 5 0]\<rparr>, sv_ios := (\<lambda>_. False)(4 := True), sv_ping := [link 3 4],
     sv_ping_time := 1, AcceptClientNum := 1\<rparr>"

lemma server0_started: "started server0"
  by (simp add: started_def server0_def world0_def)

lemma server1_step: "sstep server0 server1"
proof (rule sstep.accept)
  show "AcceptClient 3 (Some (5, 0)) 4 True True server0 = Some (Inr ((), server1))"
    by (simp add: AcceptClient_def on_world_def set_conn_def oret_def Add2MallocConnList_def addConnMemWait4Ping_def server0_def server1_def
        world0_def fun_eq_iff)
qed (simp_all add: server0_def world0_def)

lemma device_admitted:
  assumes "wd_conns w q = Some d" and "cln_wf d" and "q \<noteq> 0" and "p \<noteq> 0" and "p \<noteq> q" and "io \<noteq> 0"
    and "11 \<le> bytes" and "bytes \<le> 205" and "bytes \<le> length buf" and "tasks d < 120"
  shows "\<exists>w' a c. ServerWorkThread True timeout q io bytes buf p w = Some (Inr (Some p, w'))
    \<and> wd_conns w' = (wd_conns w)(p \<mapsto> a, q \<mapsto> c) \<and> conn a = q \<and> cln_wf a \<and> tasks c = tasks d + 1
    \<and> take (bytes - 5) (data a) = bytes_at 5 (bytes - 5) buf \<and> wd_sent w' = wd_sent w \<and> wd_closed w' = wd_closed w"
proof -
  obtain a where a: "CopyRecIotData2Cln buf d (int bytes) = Inr a" "cln_wf a" "take (bytes - 5) (data a) = bytes_at 5 (bytes - 5) buf"
    using CopyRecIotData_ok [of d "int bytes" buf] assms(2,7-9) by auto
  obtain cc where cc: "memcpy (checkcode d) (checkcode a) 17 = Inr cc" "str_field 18 cc"
    using str_field_memcpy [of 18 "checkcode d" 17 "checkcode a"] assms(2) a(2) by (auto simp: cln_wf_def str_field_def)
  let ?c = "d\<lparr>checkcode := cc, info := (info d)[1 := CHR ''Y'']\<rparr>" and ?a = "a\<lparr>conn := q\<rparr>"
  let ?w1 = "w\<lparr>wd_conns := (wd_conns w)(p \<mapsto> ?a, q \<mapsto> ?c)\<rparr>"
  have l: "length (info d) = 100" using assms(2) by (simp add: cln_wf_def str_field_def)
  have r: "recv_device q d p bytes buf w = Some (Inr ((), ?w1))"
    using assms(4) a(1) cc(1) l by (simp add: recv_device_def obind_def olift_def wr_def set_conn_def oret_def)
  have "terminated cc" using cc(2) str_field_terminated by blast
  then have v: "check_version q p ?w1 = Some (Inr ((), ?w1))"
    using assms(3) l by (simp add: check_version_def obind_def deref_conn_def oret_def cstring_def str_of_def olift_def rd_def)
  have t: "tasks ?c = tasks d" by (simp add: tasks_def word_at_def nth_list_update)
  have "schar (info d ! 2) < 120" using low_byte [of d] assms(10) schar_ascii [of "info d ! 2"] by simp
  then have "admit q p ?w1 = Some (Inr (Some p, ?w1\<lparr>wd_conns := (wd_conns ?w1)(q \<mapsto> set_tasks (tasks d + 1) ?c)\<rparr>))"
    using assms(3,4,10) l t
    by (simp add: admit_def obind_def deref_conn_def oret_def olift_def rd_def task_new_def upd_conn_def set_conn_def)
  moreover have "tasks (set_tasks (tasks d + 1) ?c) = tasks d + 1" using tasks_set_tasks [of ?c "tasks d + 1"] l assms(10) by simp
  moreover have "deref_conn q w = Some (Inr (d, w))" using assms(1,3) by (simp add: deref_conn_def oret_def)
  moreover have "cln_wf ?a" using a(2) by (simp add: cln_wf_def)
  ultimately show ?thesis using r v assms(3,5-8) a(3)
    by (intro exI [of _ "?w1\<lparr>wd_conns := (wd_conns ?w1)(q \<mapsto> set_tasks (tasks d + 1) ?c)\<rparr>"] exI [of _ ?a] exI [of _ "set_tasks (tasks d + 1) ?c"])
      (simp add: ServerWorkThread_def obind_def)
qed

text \<open>
  C38: A packet of 11 to 205 bytes on a well-formed connection with fewer than 120 pending requests becomes a
  request in the pool: it belongs to the connection, is well-formed, and carries the payload.
\<close>

theorem device_packet_admitted:
  assumes "wd_conns w q = Some d" and "cln_wf d" and "q \<noteq> 0" and "p \<noteq> 0" and "p \<noteq> q" and "io \<noteq> 0"
    and "11 \<le> bytes" and "bytes \<le> 205" and "bytes \<le> length buf" and "tasks d < 120"
  shows "\<exists>w' a c. ServerWorkThread True timeout q io bytes buf p w = Some (Inr (Some p, w'))
    \<and> wd_conns w' = (wd_conns w)(p \<mapsto> a, q \<mapsto> c) \<and> conn a = q \<and> cln_wf a \<and> tasks c = tasks d + 1
    \<and> take (bytes - 5) (data a) = bytes_at 5 (bytes - 5) buf \<and> wd_sent w' = wd_sent w \<and> wd_closed w' = wd_closed w"
  using assms by (rule device_admitted)

definition iot_bytes :: buf where
  "iot_bytes = ''01'' @ [NUL, CHR ''1'', NUL] @ replicate 7 (CHR ''x'')"

lemma new_conn_facts: "cln_wf (new_conn 5 0)" "tasks (new_conn 5 0) = 0" "conn (new_conn 5 0) = 0" "length (info (new_conn 5 0)) = 100"
  using empty_cln_wf by (simp_all add: new_conn_def cln_wf_def str_field_def tasks_def word_at_def empty_cln_def nth_list_update last_conv_nth)

theorem device_packet_admitted_witness:
  "\<exists>w'. ServerWorkThread True False 3 4 12 iot_bytes 9 (sv_w server1) = Some (Inr (Some 9, w'))"
  using device_packet_admitted [of "sv_w server1" 3 "new_conn 5 0" 9 4 12 iot_bytes False] new_conn_facts
  by (auto simp: server1_def iot_bytes_def)

lemma server2_step: "\<exists>s. calm_steps server0 s \<and> sv_msgs s = [9] \<and> (\<exists>c. wd_conns (sv_w s) 3 = Some c \<and> tasks c = 1 \<and> conn c = 0)"
proof -
  have c: "3 \<in> conns (snap (sv_w server1))" using new_conn_facts by (simp add: conns_eq server1_def)
  obtain w' a c' where w': "ServerWorkThread True False 3 4 12 iot_bytes 9 (sv_w server1) = Some (Inr (Some 9, w'))"
    "wd_conns w' = (wd_conns (sv_w server1))(9 \<mapsto> a, 3 \<mapsto> c')" "tasks c' = 1"
    using device_admitted [of "sv_w server1" 3 "new_conn 5 0" 9 4 12 iot_bytes False] new_conn_facts
    by (auto simp: server1_def iot_bytes_def)
  have r: "received 3 9 (Some 9) (sv_w server1) w'"
    using new_conn_facts by (intro ServerWorkThread_received [OF _ _ _ _ w'(1)]) (auto simp: infos_def snap_def server1_def split: if_splits)
  then have "conn c' = 0" using w'(2) new_conn_facts by (auto simp: received_def snap_def server1_def dest: fun_cong [of _ _ 3])
  moreover have "sstep server1 (server1\<lparr>sv_w := w', sv_msgs := sv_msgs server1 @ [9]\<rparr>)"
    using sstep.receive [OF _ _ w'(1)] c by (simp add: server1_def)
  moreover have "calm_steps server0 server1" "\<not> forced server1"
    using calm_step [OF calm_refl _ server1_step] by (simp_all add: forced_def server0_def server1_def)
  ultimately have "calm_steps server0 (server1\<lparr>sv_w := w', sv_msgs := sv_msgs server1 @ [9]\<rparr>)" by (blast intro: calm_step)
  then show ?thesis using w'(2,3) \<open>conn c' = 0\<close> by (intro exI conjI) (auto simp: server1_def server0_def)
qed




end
