(* ===== verification/TopServer.thy ===== *)
theory TopServer
  imports Server
begin

text \<open>
  The connection to the top server, src/src/Send2OnlineUserViaAllServer.c: \<open>ConnectToTopServer\<close>, the receiving
  loop, and the handler of its messages; and the periodic thread of src/src/CheckUserSceneCmd.c, which tests this
  connection, pings the clients and sweeps the dead ones.
\<close>

section \<open>Messages of the top server\<close>

text \<open>The number by which a message is dispatched.\<close>

definition top_opcode :: "CLN \<Rightarrow> int op" where
  "top_opcode a =
     obind (olift (strlen (checkcode a))) (\<lambda>n.
     if n = 2 then obind (cstring (checkcode a)) (\<lambda>s. oret (atoi s))
     else obind (olift (memcpy (replicate 4 NUL) (checkcode a) 3)) (\<lambda>tag. obind (olift (DJBHash tag 3)) (\<lambda>h. oret (int h))))"

text \<open>
  A user has signed in on another server: the local session is told to stop and is signed out. The result says
  whether the handler reached the end of the case; \<open>ReUseCLN\<close> is an uninitialised local structure.
\<close>

definition top_STO :: "CLN \<Rightarrow> bool op" where
  "top_STO a =
     obind (find_online 0 (Some (TalktoID a)) 0) (\<lambda>t.
     if t = 0 then oret False
     else obind (user_at t) (\<lambda>u.
          obind (tag_packet ''STO'' []) (\<lambda>b.
          obind (send_raw (USER_SOCKET u) b) (\<lambda>len.
          if len = -1 \<or> len = 0 then obind (closesocket (USER_SOCKET u)) (\<lambda>_. oret False)
          else obind uninit_cln (\<lambda>rc.
               obind (cstring (u_USERID u)) (\<lambda>s. obind (olift (sprintf (USERID rc) s)) (\<lambda>uid.
               obind (delete_user (rc\<lparr>SOCKET := USER_SOCKET u, USERID := uid\<rparr>)) (\<lambda>_. oret True))))))))"

text \<open>A command for a device that is online here.\<close>

definition top_cmd :: "CLN \<Rightarrow> bool op" where
  "top_cmd a =
     obind (find_online 10 (Some (TalktoID a)) 0) (\<lambda>t.
     if t = 0 then oret False
     else obind (user_at t) (\<lambda>u.
          obind (olift (Stringcut (data a) 0 199 (replicate 200 NUL))) (\<lambda>pl.
          obind (deref_conn (CONNHANDLE u)) (\<lambda>d.
          obind (encrypt_payload pl (Pin d)) (\<lambda>e.
          obind (SyncSend (USER_SOCKET u) (iot_packet ''00'' NUL e) (CONNHANDLE u)) (\<lambda>len.
          obind (if len = -1 \<or> len = 0 then closesocket (USER_SOCKET u) else oret ()) (\<lambda>_. oret True)))))))"

text \<open>Only a handler that reaches the end of its case frees the message.\<close>

definition HandleTopServerMsg :: "nat \<Rightarrow> unit op" where
  "HandleTopServerMsg p =
     (if p = 0 then oret ()
      else obind (deref_conn p) (\<lambda>a.
           obind (top_opcode a) (\<lambda>opCode.
           obind (if opCode = 70235 then top_STO a else if opCode = 0 then top_cmd a else oret True) (\<lambda>fin.
             if fin then freeNode p else oret ()))))"

section \<open>The connection\<close>

text \<open>
  One pass of the receiving loop: \<open>p\<close> is the result of \<open>malloc\<close>, \<open>len\<close> and \<open>buf\<close> what \<open>recv\<close> returned in the cleared
  buffer. The result is \<open>isConnected\<close> and the message that was given to the pool. When \<open>recv\<close> fails, the
  structure that was allocated is not freed.
\<close>

definition ReceiveMsgFromTopServer :: "nat \<Rightarrow> int \<Rightarrow> buf \<Rightarrow> (bool \<times> nat option) op" where
  "ReceiveMsgFromTopServer p len buf =
     obind uninit_cln (\<lambda>junk.
     obind (if p = 0 then oret () else set_conn p junk) (\<lambda>_.
     if len < 0
     then obind top_socket (\<lambda>sock.
          obind (send_raw sock ''HBA'') (\<lambda>n.
          if n = 0 \<or> n = -1 then obind (closesocket sock) (\<lambda>_. oret (False, None)) else oret (True, None)))
     else if p = 0 then ofault NullDeref
     else obind (olift (memcpy (replicate sizeof_UserPacketInterface NUL) buf sizeof_UserPacketInterface)) (\<lambda>b.
          obind (olift (CopyUserPacketInterface2Cln (user_packet_of b) empty_cln)) (\<lambda>a.
          obind (set_conn p a) (\<lambda>_. oret (True, Some p))))))"

text \<open>\<open>sock\<close> is the new socket, if there is one, \<open>okay\<close> whether \<open>connect\<close> succeeds. The result is \<open>isConnected\<close>.\<close>

definition ConnectToTopServer :: "nat option \<Rightarrow> bool \<Rightarrow> bool op" where
  "ConnectToTopServer sock okay =
     obind top_socket (\<lambda>old. obind (closesocket old) (\<lambda>_.
     case sock of None \<Rightarrow> oret False | Some k \<Rightarrow> (\<lambda>w. oret okay (w\<lparr>wd_top := k\<rparr>))))"

definition Send2TopServerTest :: "int op" where
  "Send2TopServerTest = obind top_socket (\<lambda>sock. send_raw sock (''HBA'' @ [NUL]))"

section \<open>The periodic thread\<close>

definition sret :: "'a \<Rightarrow> 'a sop" where
  "sret x s = Some (ok (x, s))"

definition sbind :: "'a sop \<Rightarrow> ('a \<Rightarrow> 'b sop) \<Rightarrow> 'b sop" where
  "sbind m f s = (case m s of None \<Rightarrow> None | Some (Inl e) \<Rightarrow> Some (Inl e) | Some (Inr (x, s')) \<Rightarrow> f x s')"

definition lift_world :: "'a op \<Rightarrow> 'a sop" where
  "lift_world m = on_world m (\<lambda>x w s. Some (ok (x, s\<lparr>sv_w := w\<rparr>)))"

text \<open>
  What the outside contributes to a pass: the new socket and whether it connects, the busy connections, the
  allocations, the time, and the figures that are reported.
\<close>

record tick_env =
  te_sock :: "nat option"
  te_okay :: bool
  te_busy :: "nat \<Rightarrow> bool"
  te_mal :: "nat \<Rightarrow> bool"
  te_now :: string
  te_server :: string
  te_ip :: string
  te_cpu :: int
  te_mem :: int
  te_pending :: int

text \<open>
  One pass of \<open>CheckUserSceneCmd\<close> with the counter \<open>printCount\<close> before it; the result is the counter after it.
  The time to midnight that it computes is not used.
\<close>

definition CheckUserSceneCmd :: "tick_env \<Rightarrow> nat \<Rightarrow> nat sop" where
  "CheckUserSceneCmd e n =
     sbind (if n + 1 = 100
            then sbind (lift_world Send2TopServerTest) (\<lambda>r.
                 sbind (if r \<le> 0 then sbind (lift_world (ConnectToTopServer (te_sock e) (te_okay e))) (\<lambda>_. sret ()) else sret ()) (\<lambda>_. sret 0))
            else sret (n + 1)) (\<lambda>c.
     sbind (if c = 10 \<or> c = 23
            then sbind (PingMallocConnList (te_busy e) (te_mal e) (te_now e)) (\<lambda>_. freeConnMemWait4Free) else sret ()) (\<lambda>_.
     sbind (if c = 24
            then sbind (\<lambda>s. sret (OnlineUserNum (UserList.head (wd_store (sv_w s)) OnlineUser),
                                   OnlineUserNum (UserList.head (wd_store (sv_w s)) OnlineIot)) s) (\<lambda>(nu, ni).
                 sbind (lift_world (UpdateServerRunInfo (te_server e) (te_ip e) (te_cpu e) (te_mem e) (te_pending e) nu ni)) (\<lambda>_. sret ()))
            else sret ()) (\<lambda>_. sret c)))"

section \<open>Properties\<close>

lemma Stringcut_loop_overflow:
  assumes "m \<le> i" and "i \<le> n + 1" and "int (length des) = n + 1 - m" and "n < int (length str)" and "0 \<le> m"
  shows "Stringcut_loop str m n i des = Inl BufferOverflow"
  using assms
proof (induction str m n i des rule: Stringcut_loop.induct)
  case (1 str m n i des)
  show ?case
  proof (cases "i \<le> n")
    case True
    have "rd str i = Inr (str ! nat i)" "wr des (i - m) (str ! nat i) = Inr (des[nat (i - m) := str ! nat i])"
      using "1.prems" True by (simp_all add: rd_def wr_def)
    then show ?thesis using "1.IH" [OF True] "1.prems" True by (subst Stringcut_loop.simps) simp
  next
    case False
    then show ?thesis using "1.prems" by (subst Stringcut_loop.simps) (simp add: wr_def)
  qed
qed

text \<open>
  C39: A command that the top server sends to a device overflows the packet: \<open>Stringcut(a->data, 0, 199, payLoad)\<close>
  copies 200 bytes and puts the terminator behind the array of 200. No such command is ever delivered without it.
\<close>

theorem top_command_overflow:
  assumes "store_rel (wd_store w) L" and "p \<noteq> 0" and "wd_conns w p = Some a" and "cln_wf a" and "cstr (checkcode a) = ''00''"
    and "x \<in> set (L OnlineIot)" and "cstr (u_USERID (node (wd_store w) x)) = cstr (TalktoID a)"
  shows "HandleTopServerMsg p w = Some (Inl BufferOverflow)"
proof -
  let ?t = "first_match (node (wd_store w)) (ById (TalktoID a)) (L OnlineIot)"
  have d: "deref_conn p w = Some (Inr (a, w))" using assms(2,3) by (simp add: deref_conn_def oret_def)
  have t: "terminated (checkcode a)" "length (data a) = 513"
    using assms(4) str_field_terminated [of 18 "checkcode a"] by (auto simp: cln_wf_def) (simp add: str_field_def)
  have f: "find_online 10 (Some (TalktoID a)) 0 w = Some (Inr (?t, w))"
    using find_online_ok [OF assms(1), of OnlineIot "TalktoID a" 0] by simp
  have t0: "?t \<noteq> 0"
  proof -
    have "0 \<notin> set (L OnlineIot)" using assms(1) chain_not_zero by (metis store_rel_def)
    then show ?thesis using first_match_zero [of "L OnlineIot" "node (wd_store w)" "ById (TalktoID a)"] assms(6,7)
      by (auto simp: strcmp_eq_def)
  qed
  have u: "user_at ?t w = Some (Inr (node (wd_store w) ?t, w))" using user_at_ok(1) [OF assms(1) first_match_in [OF t0]] .
  have "Stringcut (data a) 0 199 (replicate 200 NUL) = Inl BufferOverflow"
    unfolding Stringcut_def using t(2) by (intro Stringcut_loop_overflow) simp_all
  then have "top_cmd a w = Some (Inl BufferOverflow)" using f t0 u by (simp add: top_cmd_def obind_def olift_def)
  moreover have "top_opcode a w = Some (Inr (0, w))"
    using t(1) assms(5) by (simp add: top_opcode_def obind_def olift_def strlen_def cstring_def str_of_def oret_def)
  ultimately show ?thesis using assms(2) d by (simp add: HandleTopServerMsg_def obind_def)
qed

text \<open>A device that is online, and a command for it at address 9.\<close>

definition dev_user :: user where
  "dev_user = zero_user\<lparr>u_USERID := ''100001'' @ replicate 6 NUL, CONNHANDLE := 3\<rparr>"

definition top_msg :: "string \<Rightarrow> CLN" where
  "top_msg tag = empty_cln\<lparr>checkcode := tag @ replicate (18 - length tag) NUL, TalktoID := ''100001'' @ replicate 6 NUL\<rparr>"

definition world4 :: "string \<Rightarrow> world" where
  "world4 tag = world0\<lparr>wd_store := push OnlineIot 8 dev_user store0, wd_conns := [3 \<mapsto> empty_cln, 9 \<mapsto> top_msg tag]\<rparr>"

lemma world4_rel: "store_rel (wd_store (world4 tag)) ((\<lambda>_. [])(OnlineIot := [8]))"
  using ul.link_rel [OF store0_rel, of 8 OnlineIot] by (simp add: fresh_block_def store0_def world4_def)

lemma top_msg_wf: "cln_wf (top_msg ''00'')" "cln_wf (top_msg ''STO'')"
  using empty_cln_wf by (simp_all add: top_msg_def cln_wf_def str_field_def)

theorem top_command_overflow_witness: "HandleTopServerMsg 9 (world4 ''00'') = Some (Inl BufferOverflow)"
proof (rule top_command_overflow [OF world4_rel, of _ _ "top_msg ''00''" 8])
  show "cstr (u_USERID (node (wd_store (world4 ''00'')) 8)) = cstr (TalktoID (top_msg ''00''))"
    by (simp add: world4_def node_def push_def store0_def dev_user_def top_msg_def)
qed (use top_msg_wf in \<open>simp_all add: world4_def top_msg_def cstr_def\<close>)

text \<open>
  A stop message for a user who is not online here is never freed: the handler returns before \<open>free(a)\<close>.
\<close>

theorem top_STO_leak:
  assumes "store_rel (wd_store w) L" and "p \<noteq> 0" and "wd_conns w p = Some a" and "checkcode a = ''STO'' @ NUL # rest"
    and "\<And>x. x \<in> set (L OnlineUser) \<Longrightarrow> cstr (u_USERID (node (wd_store w) x)) \<noteq> cstr (TalktoID a)"
  shows "HandleTopServerMsg p w = Some (Inr ((), w))"
proof -
  have d: "deref_conn p w = Some (Inr (a, w))" using assms(2,3) by (simp add: deref_conn_def oret_def)
  have "0 \<notin> set (L OnlineUser)" using assms(1) chain_not_zero by (metis store_rel_def)
  then have "first_match (node (wd_store w)) (ById (TalktoID a)) (L OnlineUser) = 0"
    using first_match_zero [of "L OnlineUser" "node (wd_store w)" "ById (TalktoID a)"] assms(5) by (auto simp: strcmp_eq_def)
  then have "find_online 0 (Some (TalktoID a)) 0 w = Some (Inr (0, w))"
    using find_online_ok [OF assms(1), of OnlineUser "TalktoID a" 0] by simp
  then have "top_STO a w = Some (Inr (False, w))" by (simp add: top_STO_def obind_def oret_def)
  moreover have "top_opcode a w = Some (Inr (70235, w))"
    using assms(4) by (simp add: top_opcode_def obind_def olift_def oret_def strlen_def terminated_def cstr_def memcpy_def put_def DJBHash3_ascii)
  ultimately show ?thesis using assms(2) d by (simp add: HandleTopServerMsg_def obind_def oret_def)
qed

theorem top_STO_leak_witness: "HandleTopServerMsg 9 (world4 ''STO'') = Some (Inr ((), world4 ''STO'')) \<and> wd_conns (world4 ''STO'') 9 \<noteq> None"
  using top_STO_leak [OF world4_rel [of "''STO''"], where p = 9 and a = "top_msg ''STO''" and rest = "replicate 14 NUL"]
  by (simp add: world4_def top_msg_def replicate_Suc [symmetric] numeral_eq_Suc)

section \<open>The periodic thread keeps the invariant\<close>

lemma lift_world_Inr: "lift_world m s = Some (Inr (x, s')) \<longleftrightarrow> (\<exists>w. m (sv_w s) = Some (Inr (x, w)) \<and> s' = s\<lparr>sv_w := w\<rparr>)"
  by (auto simp: lift_world_def on_world_def split: option.splits sum.splits)

lemma sbind_Inr: "sbind m f s = Some (Inr (y, s')) \<longleftrightarrow> (\<exists>x s1. m s = Some (Inr (x, s1)) \<and> f x s1 = Some (Inr (y, s')))"
  by (auto simp: sbind_def split: option.splits sum.splits)

text \<open>\<open>skeeps m\<close>: from a state where the invariant holds and no sweep is forced, \<open>m\<close> keeps the invariant and, up to the
  sweep of the same pass, does not touch the list to be freed.\<close>

definition skeeps :: "'a sop \<Rightarrow> bool" where
  "skeeps m = (\<forall>s x s'. server_inv s \<longrightarrow> m s = Some (Inr (x, s')) \<longrightarrow> server_inv s' \<and> sv_free s' = sv_free s)"

lemma skeeps_lift: "keeps m \<Longrightarrow> skeeps (lift_world m)"
  unfolding skeeps_def
proof (intro allI impI)
  fix s x s'
  assume k: "keeps m" and i: "server_inv s" and "lift_world m s = Some (Inr (x, s'))"
  then obtain w where w: "m (sv_w s) = Some (Inr (x, w))" "s' = s\<lparr>sv_w := w\<rparr>" by (auto simp: lift_world_Inr)
  show "server_inv s' \<and> sv_free s' = sv_free s"
    using inv_same [OF i, of s'] snap_keeps [OF k w(1)] w(2) by (simp add: owned_def)
qed

lemma skeeps_sbind: "skeeps m \<Longrightarrow> (\<And>x. skeeps (f x)) \<Longrightarrow> skeeps (sbind m f)"
  unfolding skeeps_def sbind_Inr by metis

lemma skeeps_rules: "skeeps (sret x)" "skeeps a \<Longrightarrow> skeeps b \<Longrightarrow> skeeps (if c then a else b)" "skeeps (\<lambda>s. sret (g s) s)"
  "(\<And>x y. skeeps (h x y)) \<Longrightarrow> skeeps (case v of (x, y) \<Rightarrow> h x y)" "skeeps (PingMallocConnList busy mal now)"
proof -
  have "sv_free s' = sv_free s" if "PingMallocConnList busy mal now s = Some (Inr (x, s'))" for s s' and x :: unit
    using that by (auto simp: PingMallocConnList_def on_world_def split: if_splits option.splits sum.splits)
  then show "skeeps (PingMallocConnList busy mal now)" using inv_ping unfolding skeeps_def by (metis (full_types) unit.exhaust)
  show "skeeps (sret x)" "skeeps (\<lambda>s. sret (g s) s)" by (simp_all add: skeeps_def sret_def)
  show "skeeps a \<Longrightarrow> skeeps b \<Longrightarrow> skeeps (if c then a else b)" by simp
  show "(\<And>x y. skeeps (h x y)) \<Longrightarrow> skeeps (case v of (x, y) \<Rightarrow> h x y)" by (cases v) simp
qed

lemma keeps_top [keeping]: "keeps Send2TopServerTest" "keeps (ConnectToTopServer sock okay)" "keeps (UpdateServerRunInfo a b c d e f g)"
proof -
  have "keeps (\<lambda>w. oret okay (w\<lparr>wd_top := k\<rparr>))" for k by (rule keeps_conns) (auto simp: oret_def)
  then show "keeps (ConnectToTopServer sock okay)" unfolding ConnectToTopServer_def by (intro keeping)
qed (unfold Send2TopServerTest_def UpdateServerRunInfo_def, (intro keeping)+)

text \<open>
  The periodic thread keeps the server in order: a pass from a state in which the invariant holds and no sweep is
  forced ends in a state in which the invariant holds, and \<open>printCount\<close> runs from 0 to 99.
\<close>

theorem tick_keeps_inv:
  assumes "server_inv s" and "\<not> forced s" and "CheckUserSceneCmd e n s = Some (Inr (c, s'))" and "n < 100"
  shows "server_inv s' \<and> c = (n + 1) mod 100"
proof -
  let ?m1 = "if n + 1 = 100
            then sbind (lift_world Send2TopServerTest) (\<lambda>r.
                 sbind (if r \<le> 0 then sbind (lift_world (ConnectToTopServer (te_sock e) (te_okay e))) (\<lambda>_. sret ()) else sret ()) (\<lambda>_. sret 0))
            else sret (n + 1)"
  let ?rep = "\<lambda>c. if c = 24
            then sbind (\<lambda>s. sret (OnlineUserNum (UserList.head (wd_store (sv_w s)) OnlineUser),
                                   OnlineUserNum (UserList.head (wd_store (sv_w s)) OnlineIot)) s) (\<lambda>(nu, ni).
                 sbind (lift_world (UpdateServerRunInfo (te_server e) (te_ip e) (te_cpu e) (te_mem e) (te_pending e) nu ni)) (\<lambda>_. sret ()))
            else sret ()"
  have k: "skeeps ?m1" "skeeps (?rep c)" for c by (intro skeeps_rules skeeps_sbind skeeps_lift keeping)+
  obtain c' s1 s2 where m: "?m1 s = Some (Inr (c', s1))"
    and p: "(if c' = 10 \<or> c' = 23 then sbind (PingMallocConnList (te_busy e) (te_mal e) (te_now e)) (\<lambda>_. freeConnMemWait4Free) else sret ()) s1
      = Some (Inr ((), s2))" and r: "?rep c' s2 = Some (Inr ((), s'))" and c: "c = c'"
    using assms(3) unfolding CheckUserSceneCmd_def sbind_Inr by (auto simp: sret_def)
  have s1: "server_inv s1" "\<not> forced s1" using k(1) m assms(1,2) unfolding skeeps_def forced_def by metis+
  have "server_inv s2"
  proof (cases "c' = 10 \<or> c' = 23")
    case True
    then obtain s3 where s3: "PingMallocConnList (te_busy e) (te_mal e) (te_now e) s1 = Some (Inr ((), s3))" "freeConnMemWait4Free s3 = Some (Inr ((), s2))"
      using p by (auto simp: sbind_Inr)
    then have "server_inv s3" "\<not> forced s3" using skeeps_rules(5) s1 unfolding skeeps_def forced_def by metis+
    then show ?thesis using inv_sweep s3(2) by blast
  qed (use p s1 in \<open>auto simp: sret_def\<close>)
  then have "server_inv s'" using k(2) r unfolding skeeps_def by blast
  moreover have "c' = (n + 1) mod 100" using m assms(4) by (auto simp: sbind_Inr sret_def split: if_splits)
  ultimately show ?thesis using c by simp
qed

definition tick0 :: tick_env where
  "tick0 = \<lparr>te_sock = Some 6, te_okay = True, te_busy = (\<lambda>_. False), te_mal = (\<lambda>_. True), te_now = ''2020-01-01 12:00:00'',
     te_server = ''1'', te_ip = ''127.0.0.1'', te_cpu = 1, te_mem = 1, te_pending = 0\<rparr>"

theorem tick_keeps_inv_witness: "\<exists>s'. CheckUserSceneCmd tick0 9 server0 = Some (Inr (10, s')) \<and> server_inv s'"
proof -
  have z: "sv_ping server0 = []" "sv_free server0 = []" "\<not> sv_mutex server0" by (simp_all add: server0_def)
  have p: "PingMallocConnList b m now server0 = Some (Inr ((), server0))" if "length now < 20" for b m now
    using z that by (simp add: PingMallocConnList_def on_world_def oret_def server0_def)
  have f: "freeConnMemWait4Free server0 = Some (Inr ((), server0))"
    by (simp add: freeConnMemWait4Free_def on_world_def oret_def server0_def)
  have s': "CheckUserSceneCmd tick0 9 server0 = Some (Inr (10, server0))"
    using p [of "te_now tick0"] f by (simp add: CheckUserSceneCmd_def sbind_def sret_def) (simp add: tick0_def sbind_def sret_def)
  have nf: "\<not> forced server0" by (simp add: forced_def z)
  have "server_inv server0" using tick_keeps_inv [OF started_inv [OF server0_started] nf s'] by simp
  then show ?thesis using s' by blast
qed

end
