(* ===== verification/MemPool.thy ===== *)
theory MemPool
  imports Prelude
begin

text \<open>
  The memory pool of src/MemoryPool/memorypool.c. Memory is an explicit store: \<open>hdr\<close> holds the chunk headers
  (\<open>_MP_Chunk\<close>) by address, \<open>ftr\<close> the pointers that end a chunk. A write removes every header and every end pointer
  whose bytes it overlaps (\<open>clobber\<close>). Addresses are numbers, 0 is the null pointer; reading a header or an end pointer
  that is not there is a fault. \<open>mem_size_t\<close> is 64 bits wide, \<open>long\<close> has 4 bytes and a
  pointer 8, as in the Windows build; a header then has 32 bytes. The mutex is left out: every operation holds it.
\<close>

section \<open>Structures\<close>

record MP_Chunk =
  ck_alloc_mem :: nat
  ck_prev :: nat
  ck_next :: nat
  ck_is_free :: bool

record MP_Memory =
  mm_start :: nat
  mm_id :: nat
  mm_pool_size :: nat
  mm_alloc_mem :: nat
  mm_alloc_prog_mem :: nat
  mm_free_list :: nat
  mm_alloc_list :: nat

record MemoryPool =
  mp_last_id :: nat
  mp_auto_extend :: bool
  mp_mem_pool_size :: nat
  mp_total :: nat
  mp_max :: nat
  mp_mlist :: "MP_Memory list"

record cmem =
  hdr :: "nat \<Rightarrow> MP_Chunk option"
  ftr :: "nat \<Rightarrow> nat option"

definition MP_CHUNKHEADER :: nat where
  "MP_CHUNKHEADER = 32"

definition MP_CHUNKEND :: nat where
  "MP_CHUNKEND = 8"

definition sizeof_MP_Memory :: nat where
  "sizeof_MP_Memory = 64"

text \<open>The smallest multiple of 4 above \<open>n\<close>.\<close>

definition MP_ALIGN_SIZE :: "nat \<Rightarrow> nat" where
  "MP_ALIGN_SIZE n = u64 (int (n + 4 - n mod 4))"

text \<open>The bytes from \<open>lo\<close> to \<open>hi\<close> are written.\<close>

definition clobber :: "nat \<Rightarrow> nat \<Rightarrow> cmem \<Rightarrow> cmem" where
  "clobber lo hi H =
     \<lparr>hdr = (\<lambda>y. if y < hi \<and> lo < y + MP_CHUNKHEADER then None else hdr H y),
      ftr = (\<lambda>y. if y < hi \<and> lo < y + MP_CHUNKEND then None else ftr H y)\<rparr>"

definition rdh :: "cmem \<Rightarrow> nat \<Rightarrow> MP_Chunk res" where
  "rdh H x = (if x = 0 then fault NullDeref else case hdr H x of None \<Rightarrow> fault OutOfBounds | Some c \<Rightarrow> ok c)"

definition wrh :: "nat \<Rightarrow> MP_Chunk \<Rightarrow> cmem \<Rightarrow> cmem" where
  "wrh x c H = (let H' = clobber x (x + MP_CHUNKHEADER) H in H'\<lparr>hdr := (hdr H')(x \<mapsto> c)\<rparr>)"

definition rdf :: "cmem \<Rightarrow> nat \<Rightarrow> nat res" where
  "rdf H x = (case ftr H x of None \<Rightarrow> fault OutOfBounds | Some y \<Rightarrow> ok y)"

definition wrf :: "nat \<Rightarrow> nat \<Rightarrow> cmem \<Rightarrow> cmem" where
  "wrf x y H = (let H' = clobber x (x + MP_CHUNKEND) H in H'\<lparr>ftr := (ftr H')(x \<mapsto> y)\<rparr>)"

section \<open>Doubly linked lists\<close>

text \<open>\<open>MP_DLINKLIST_INS_FRT\<close> and \<open>MP_DLINKLIST_DEL\<close>: the new head and the memory.\<close>

definition dlink_ins :: "nat \<Rightarrow> nat \<Rightarrow> cmem \<Rightarrow> (nat \<times> cmem) res" where
  "dlink_ins head x H =
     rbind (rdh H x) (\<lambda>c.
     let H1 = wrh x (c\<lparr>ck_prev := 0, ck_next := head\<rparr>) H in
     if head \<noteq> 0 then rbind (rdh H1 head) (\<lambda>n. ok (x, wrh head (n\<lparr>ck_prev := x\<rparr>) H1)) else ok (x, H1))"

definition dlink_del :: "nat \<Rightarrow> nat \<Rightarrow> cmem \<Rightarrow> (nat \<times> cmem) res" where
  "dlink_del head x H =
     rbind (rdh H x) (\<lambda>c.
     if ck_prev c = 0
     then if ck_next c \<noteq> 0 then rbind (rdh H (ck_next c)) (\<lambda>n. ok (ck_next c, wrh (ck_next c) (n\<lparr>ck_prev := 0\<rparr>) H)) else ok (ck_next c, H)
     else rbind (rdh H (ck_prev c)) (\<lambda>p.
          let H1 = wrh (ck_prev c) (p\<lparr>ck_next := ck_next c\<rparr>) H in
          if ck_next c \<noteq> 0 then rbind (rdh H1 (ck_next c)) (\<lambda>n. ok (head, wrh (ck_next c) (n\<lparr>ck_prev := ck_prev c\<rparr>) H1)) else ok (head, H1)))"

section \<open>Blocks of memory\<close>

text \<open>\<open>MP_INIT_MEMORY_STRUCT\<close> on the block that starts at \<open>s\<close>.\<close>

definition MP_INIT_MEMORY_STRUCT :: "nat \<Rightarrow> MP_Memory \<Rightarrow> cmem \<Rightarrow> MP_Memory \<times> cmem" where
  "MP_INIT_MEMORY_STRUCT sz mm H =
     (mm\<lparr>mm_pool_size := sz, mm_alloc_mem := 0, mm_alloc_prog_mem := 0, mm_free_list := mm_start mm, mm_alloc_list := 0\<rparr>,
      wrh (mm_start mm) \<lparr>ck_alloc_mem = sz, ck_prev = 0, ck_next = 0, ck_is_free = True\<rparr> H)"

definition new_block :: "nat \<Rightarrow> nat \<Rightarrow> MP_Memory" where
  "new_block s i = \<lparr>mm_start = s + sizeof_MP_Memory, mm_id = i, mm_pool_size = 0, mm_alloc_mem = 0, mm_alloc_prog_mem = 0,
     mm_free_list = 0, mm_alloc_list = 0\<rparr>"

text \<open>\<open>s\<close> is the result of \<open>malloc\<close>, \<open>auto0\<close> what the new structure holds in \<open>auto_extend\<close>.\<close>

definition MemoryPoolInit :: "nat \<Rightarrow> nat \<Rightarrow> bool \<Rightarrow> nat \<Rightarrow> bool \<Rightarrow> cmem \<Rightarrow> MemoryPool option \<times> cmem" where
  "MemoryPoolInit maxsize psz malpool s auto0 H =
     (if maxsize < psz \<or> \<not> malpool \<or> s = 0 then (None, H)
      else case MP_INIT_MEMORY_STRUCT psz (new_block s 0) H of (mm, H') \<Rightarrow>
             (Some \<lparr>mp_last_id = 1, mp_auto_extend = (psz < maxsize \<or> auto0), mp_mem_pool_size = psz, mp_total = psz, mp_max = maxsize,
                mp_mlist = [mm]\<rparr>, H'))"

definition extend_memory_list :: "nat \<Rightarrow> nat \<Rightarrow> MemoryPool \<Rightarrow> cmem \<Rightarrow> (MemoryPool \<times> cmem) option" where
  "extend_memory_list s sz mp H =
     (if s = 0 then None
      else case MP_INIT_MEMORY_STRUCT sz (new_block s (mp_last_id mp)) H of (mm, H') \<Rightarrow>
             Some (mp\<lparr>mp_last_id := (mp_last_id mp + 1) mod 2 ^ 32, mp_mlist := mm # mp_mlist mp\<rparr>, H'))"

text \<open>The size that is compared is that of the pool, not that of the block.\<close>

fun find_memory_list :: "nat \<Rightarrow> MP_Memory list \<Rightarrow> nat \<Rightarrow> nat \<Rightarrow> nat option" where
  "find_memory_list psz [] p i = None"
| "find_memory_list psz (mm # ms) p i =
     (if mm_start mm \<le> p \<and> p < mm_start mm + psz then Some i else find_memory_list psz ms p (i + 1))"

section \<open>Allocation\<close>

text \<open>The loop over a free list: the first chunk that is large enough.\<close>

partial_function (option) find_free :: "cmem \<Rightarrow> nat \<Rightarrow> nat \<Rightarrow> nat res option" where
  "find_free H need f =
     (if f = 0 then Some (ok 0)
      else case rdh H f of Inl e \<Rightarrow> Some (Inl e)
           | Inr c \<Rightarrow> if need \<le> ck_alloc_mem c then Some (ok f) else find_free H need (ck_next c))"

text \<open>The chunk \<open>f\<close> is split, if what remains is large enough, and the lists and counters of its block are updated.\<close>

definition split_chunk :: "nat \<Rightarrow> nat \<Rightarrow> nat \<Rightarrow> cmem \<Rightarrow> (nat \<times> cmem) res" where
  "split_chunk need f flist H =
     rbind (rdh H f) (\<lambda>c.
     let fr = f + need; n = ck_alloc_mem c - need;
         H1 = wrf (fr + n - MP_CHUNKEND) fr (wrh fr (c\<lparr>ck_alloc_mem := n\<rparr>) H) in
     rbind (if ck_prev c = 0 then ok (fr, H1)
            else rbind (rdh H1 (ck_prev c)) (\<lambda>p. ok (flist, wrh (ck_prev c) (p\<lparr>ck_next := fr\<rparr>) H1))) (\<lambda>(fl, H2).
     rbind (if ck_next c = 0 then ok H2
            else rbind (rdh H2 (ck_next c)) (\<lambda>x. ok (wrh (ck_next c) (x\<lparr>ck_prev := fr\<rparr>) H2))) (\<lambda>H3.
     rbind (rdh H3 f) (\<lambda>c3.
       ok (fl, wrf (f + need - MP_CHUNKEND) f (wrh f (c3\<lparr>ck_is_free := False, ck_alloc_mem := need\<rparr>) H3))))))"

definition whole_chunk :: "nat \<Rightarrow> nat \<Rightarrow> cmem \<Rightarrow> (nat \<times> cmem) res" where
  "whole_chunk f flist H =
     rbind (dlink_del flist f H) (\<lambda>(fl, H1). rbind (rdh H1 f) (\<lambda>c. ok (fl, wrh f (c\<lparr>ck_is_free := False\<rparr>) H1)))"

definition take_chunk :: "nat \<Rightarrow> nat \<Rightarrow> MP_Memory \<Rightarrow> cmem \<Rightarrow> (nat \<times> MP_Memory \<times> cmem) res" where
  "take_chunk need f mm H =
     rbind (rdh H f) (\<lambda>c.
     rbind (if ck_alloc_mem c - need > MP_CHUNKHEADER + MP_CHUNKEND then split_chunk need f (mm_free_list mm) H
            else whole_chunk f (mm_free_list mm) H) (\<lambda>(fl, H1).
     rbind (dlink_ins (mm_alloc_list mm) f H1) (\<lambda>(al, H2).
     rbind (rdh H2 f) (\<lambda>c2.
       ok (f + MP_CHUNKHEADER,
           mm\<lparr>mm_free_list := fl, mm_alloc_list := al, mm_alloc_mem := u64 (int (mm_alloc_mem mm + ck_alloc_mem c2)),
              mm_alloc_prog_mem := u64 (int (mm_alloc_prog_mem mm + ck_alloc_mem c2) - int (MP_CHUNKHEADER + MP_CHUNKEND))\<rparr>, H2)))))"

text \<open>The loop over the blocks; the result is 0 if no block has such a chunk.\<close>

fun alloc_blocks :: "nat \<Rightarrow> nat \<Rightarrow> MP_Memory list \<Rightarrow> cmem \<Rightarrow> (nat \<times> MP_Memory list \<times> cmem) res option" where
  "alloc_blocks psz need [] H = Some (ok (0, [], H))"
| "alloc_blocks psz need (mm # ms) H =
     (let rest = map_option (\<lambda>r. rbind r (\<lambda>(p, ms', H'). ok (p, mm # ms', H'))) (alloc_blocks psz need ms H) in
      if u64 (int psz - int (mm_alloc_mem mm)) < need then rest
      else case find_free H need (mm_free_list mm) of
             None \<Rightarrow> None
           | Some (Inl e) \<Rightarrow> Some (Inl e)
           | Some (Inr f) \<Rightarrow> if f = 0 then rest
               else Some (rbind (take_chunk need f mm H) (\<lambda>(p, mm', H'). ok (p, mm' # ms, H'))))"

definition extension :: "MemoryPool \<Rightarrow> nat" where
  "extension mp = (let add = u64 (int (mp_max mp) - int (mp_mem_pool_size mp)) in
     if add \<ge> mp_mem_pool_size mp then mp_mem_pool_size mp else add)"

text \<open>\<open>mal n\<close> is the result of \<open>malloc\<close> when the pool has \<open>n\<close> blocks.\<close>

partial_function (option) alloc_retry :: "(nat \<Rightarrow> nat) \<Rightarrow> nat \<Rightarrow> MemoryPool \<Rightarrow> cmem \<Rightarrow> (nat \<times> MemoryPool \<times> cmem) res option" where
  "alloc_retry mal need mp H =
     (case alloc_blocks (mp_mem_pool_size mp) need (mp_mlist mp) H of
        None \<Rightarrow> None
      | Some (Inl e) \<Rightarrow> Some (Inl e)
      | Some (Inr (p, ms, H')) \<Rightarrow>
          if p \<noteq> 0 then Some (ok (p, mp\<lparr>mp_mlist := ms\<rparr>, H'))
          else if \<not> mp_auto_extend mp \<or> mp_total mp \<ge> mp_max mp then Some (ok (0, mp, H))
          else case extend_memory_list (mal (length (mp_mlist mp))) (extension mp) mp H of
                 None \<Rightarrow> Some (ok (0, mp, H))
               | Some (mp', H1) \<Rightarrow> alloc_retry mal need (mp'\<lparr>mp_total := u64 (int (mp_total mp' + extension mp))\<rparr>) H1)"

definition MemoryPoolAlloc :: "(nat \<Rightarrow> nat) \<Rightarrow> nat \<Rightarrow> MemoryPool \<Rightarrow> cmem \<Rightarrow> (nat \<times> MemoryPool \<times> cmem) res option" where
  "MemoryPoolAlloc mal wantsize mp H =
     (let need = MP_ALIGN_SIZE (u64 (int (wantsize + MP_CHUNKHEADER + MP_CHUNKEND))) in
      if wantsize = 0 \<or> need > mp_mem_pool_size mp then Some (ok (0, mp, H)) else alloc_retry mal need mp H)"

section \<open>Release\<close>

text \<open>The first loop of \<open>merge_free_chunk\<close> walks to the left over free chunks, the second one joins those to the right.\<close>

partial_function (option) merge_left :: "cmem \<Rightarrow> nat \<Rightarrow> nat \<Rightarrow> nat \<Rightarrow> nat res option" where
  "merge_left H start p0 p1 =
     (case rdh H p0 of Inl e \<Rightarrow> Some (Inl e)
      | Inr c \<Rightarrow> if \<not> ck_is_free c then Some (ok p1)
          else if p0 \<le> start + MP_CHUNKEND + MP_CHUNKHEADER then Some (ok p0)
          else case rdf H (p0 - MP_CHUNKEND) of Inl e \<Rightarrow> Some (Inl e) | Inr q \<Rightarrow> merge_left H start q p0)"

partial_function (option) merge_right :: "nat \<Rightarrow> nat \<Rightarrow> nat \<Rightarrow> nat \<Rightarrow> cmem \<Rightarrow> (nat \<times> cmem) res option" where
  "merge_right bound p1 p0 flist H =
     (if \<not> p0 < bound then Some (ok (flist, H))
      else case rdh H p0 of Inl e \<Rightarrow> Some (Inl e)
           | Inr c0 \<Rightarrow> if \<not> ck_is_free c0 then Some (ok (flist, H))
               else case rbind (dlink_del flist p0 H) (\<lambda>(fl, H1). rbind (rdh H1 p0) (\<lambda>d0. rbind (rdh H1 p1) (\<lambda>d1.
                      ok (fl, d0, wrh p1 (d1\<lparr>ck_alloc_mem := u64 (int (ck_alloc_mem d1 + ck_alloc_mem d0))\<rparr>) H1)))) of
                      Inl e \<Rightarrow> Some (Inl e)
                    | Inr (fl, d0, H2) \<Rightarrow> merge_right bound p1 (p0 + ck_alloc_mem d0) fl H2)"

definition merge_free_chunk :: "nat \<Rightarrow> MP_Memory \<Rightarrow> nat \<Rightarrow> cmem \<Rightarrow> (MP_Memory \<times> cmem) res option" where
  "merge_free_chunk psz mm c H =
     (case merge_left H (mm_start mm) c c of
        None \<Rightarrow> None
      | Some (Inl e) \<Rightarrow> Some (Inl e)
      | Some (Inr p1) \<Rightarrow>
          (case rdh H p1 of Inl e \<Rightarrow> Some (Inl e)
           | Inr c1 \<Rightarrow>
              (case merge_right (mm_start mm + psz) p1 (p1 + ck_alloc_mem c1) (mm_free_list mm) H of
                 None \<Rightarrow> None
               | Some r \<Rightarrow> Some (rbind r (\<lambda>(fl, H1). rbind (rdh H1 p1) (\<lambda>d.
                   ok (mm\<lparr>mm_free_list := fl\<rparr>, wrf (p1 + ck_alloc_mem d - MP_CHUNKEND) p1 H1)))))))"

text \<open>The chunk \<open>ck\<close> moves from the list of allocated to the list of free chunks.\<close>

definition release_chunk :: "nat \<Rightarrow> MP_Memory \<Rightarrow> cmem \<Rightarrow> (MP_Memory \<times> cmem) res" where
  "release_chunk ck mm H =
     rbind (dlink_del (mm_alloc_list mm) ck H) (\<lambda>(al, H1).
     rbind (dlink_ins (mm_free_list mm) ck H1) (\<lambda>(fl, H2).
     rbind (rdh H2 ck) (\<lambda>c.
       ok (mm\<lparr>mm_alloc_list := al, mm_free_list := fl, mm_alloc_mem := u64 (int (mm_alloc_mem mm) - int (ck_alloc_mem c)),
              mm_alloc_prog_mem := u64 (int (mm_alloc_prog_mem mm) - int (ck_alloc_mem c) + int (MP_CHUNKHEADER + MP_CHUNKEND))\<rparr>,
           wrh ck (c\<lparr>ck_is_free := True\<rparr>) H2))))"

definition MemoryPoolFree :: "nat \<Rightarrow> MemoryPool \<Rightarrow> cmem \<Rightarrow> (int \<times> MemoryPool \<times> cmem) res option" where
  "MemoryPoolFree p mp H =
     (if p = 0 then Some (ok (1, mp, H))
      else case (if mp_auto_extend mp then find_memory_list (mp_mem_pool_size mp) (mp_mlist mp) p 0
                 else if mp_mlist mp = [] then None else Some 0) of
             None \<Rightarrow> Some (fault NullDeref)
           | Some i \<Rightarrow>
               (case release_chunk (p - MP_CHUNKHEADER) (mp_mlist mp ! i) H of
                  Inl e \<Rightarrow> Some (Inl e)
                | Inr (mm, H1) \<Rightarrow>
                    map_option (\<lambda>r. rbind r (\<lambda>(mm', H2). ok (0, mp\<lparr>mp_mlist := (mp_mlist mp)[i := mm']\<rparr>, H2)))
                      (merge_free_chunk (mp_mem_pool_size mp) mm (p - MP_CHUNKHEADER) H1)))"

section \<open>The other operations\<close>

fun clear_blocks :: "MP_Memory list \<Rightarrow> cmem \<Rightarrow> MP_Memory list \<times> cmem" where
  "clear_blocks [] H = ([], H)"
| "clear_blocks (mm # ms) H = (case MP_INIT_MEMORY_STRUCT (mm_pool_size mm) mm H of (mm', H1) \<Rightarrow>
     case clear_blocks ms H1 of (ms', H2) \<Rightarrow> (mm' # ms', H2))"

definition MemoryPoolClear :: "MemoryPool \<Rightarrow> cmem \<Rightarrow> MemoryPool \<times> cmem" where
  "MemoryPoolClear mp H = (case clear_blocks (mp_mlist mp) H of (ms, H') \<Rightarrow> (mp\<lparr>mp_mlist := ms\<rparr>, H'))"

text \<open>The blocks and the pool are given back to the C heap.\<close>

definition MemoryPoolDestroy :: "MemoryPool \<Rightarrow> cmem \<Rightarrow> int \<times> cmem" where
  "MemoryPoolDestroy mp H =
     (0, fold (\<lambda>mm. clobber (mm_start mm - sizeof_MP_Memory) (mm_start mm + mm_pool_size mm)) (mp_mlist mp) H)"

definition get_memory_id :: "MP_Memory \<Rightarrow> nat" where
  "get_memory_id mm = mm_id mm"

definition get_memory_list_count :: "MemoryPool \<Rightarrow> nat" where
  "get_memory_list_count mp = length (mp_mlist mp)"

partial_function (option) list_count :: "cmem \<Rightarrow> nat \<Rightarrow> nat \<Rightarrow> nat res option" where
  "list_count H p n = (if p = 0 then Some (ok n) else case rdh H p of Inl e \<Rightarrow> Some (Inl e) | Inr c \<Rightarrow> list_count H (ck_next c) (n + 1))"

definition get_memory_info :: "MP_Memory \<Rightarrow> cmem \<Rightarrow> nat res option \<times> nat res option" where
  "get_memory_info mm H = (list_count H (mm_free_list mm) 0, list_count H (mm_alloc_list mm) 0)"

definition GetTotalMemory :: "MemoryPool \<Rightarrow> nat" where
  "GetTotalMemory mp = mp_total mp"

definition GetUsedMemory :: "MemoryPool \<Rightarrow> nat" where
  "GetUsedMemory mp = u64 (int (sum_list (map mm_alloc_mem (mp_mlist mp))))"

definition GetProgMemory :: "MemoryPool \<Rightarrow> nat" where
  "GetProgMemory mp = u64 (int (sum_list (map mm_alloc_prog_mem (mp_mlist mp))))"

section \<open>The store\<close>

text \<open>Headers and end pointers never overlap: every write removes what it overlaps.\<close>

definition sep :: "cmem \<Rightarrow> bool" where
  "sep H \<longleftrightarrow> (\<forall>x y. hdr H x \<noteq> None \<longrightarrow> hdr H y \<noteq> None \<longrightarrow> x < y \<longrightarrow> x + MP_CHUNKHEADER \<le> y) \<and>
     (\<forall>x y. hdr H x \<noteq> None \<longrightarrow> ftr H y \<noteq> None \<longrightarrow> y + MP_CHUNKEND \<le> x \<or> x + MP_CHUNKHEADER \<le> y) \<and>
     (\<forall>x y. ftr H x \<noteq> None \<longrightarrow> ftr H y \<noteq> None \<longrightarrow> x < y \<longrightarrow> x + MP_CHUNKEND \<le> y)"

lemmas chunk_sizes = MP_CHUNKHEADER_def MP_CHUNKEND_def

lemma sepD:
  assumes "sep H"
  shows "hdr H x \<noteq> None \<Longrightarrow> hdr H y \<noteq> None \<Longrightarrow> x \<noteq> y \<Longrightarrow> x + MP_CHUNKHEADER \<le> y \<or> y + MP_CHUNKHEADER \<le> x"
    and "hdr H x \<noteq> None \<Longrightarrow> ftr H y \<noteq> None \<Longrightarrow> y + MP_CHUNKEND \<le> x \<or> x + MP_CHUNKHEADER \<le> y"
    and "ftr H x \<noteq> None \<Longrightarrow> ftr H y \<noteq> None \<Longrightarrow> x \<noteq> y \<Longrightarrow> x + MP_CHUNKEND \<le> y \<or> y + MP_CHUNKEND \<le> x"
  using assms unfolding sep_def by (meson linorder_neqE_nat)+

lemma hdr_clobber [simp]: "hdr (clobber lo hi H) y = (if y < hi \<and> lo < y + MP_CHUNKHEADER then None else hdr H y)"
  by (simp add: clobber_def)

lemma ftr_clobber [simp]: "ftr (clobber lo hi H) y = (if y < hi \<and> lo < y + MP_CHUNKEND then None else ftr H y)"
  by (simp add: clobber_def)

lemma sep_clobber: "sep H \<Longrightarrow> sep (clobber lo hi H)"
  unfolding sep_def by simp

lemma hdr_wrh: "hdr (wrh x c H) y = (if y = x then Some c else if y < x + MP_CHUNKHEADER \<and> x < y + MP_CHUNKHEADER then None else hdr H y)"
  by (simp add: wrh_def Let_def)

lemma ftr_wrh: "ftr (wrh x c H) y = (if y < x + MP_CHUNKHEADER \<and> x < y + MP_CHUNKEND then None else ftr H y)"
  by (simp add: wrh_def Let_def)

lemma hdr_wrf: "hdr (wrf x p H) y = (if y < x + MP_CHUNKEND \<and> x < y + MP_CHUNKHEADER then None else hdr H y)"
  by (simp add: wrf_def Let_def)

lemma ftr_wrf: "ftr (wrf x p H) y = (if y = x then Some p else if y < x + MP_CHUNKEND \<and> x < y + MP_CHUNKEND then None else ftr H y)"
  by (simp add: wrf_def Let_def)

lemma sep_wrh: "sep H \<Longrightarrow> sep (wrh x c H)"
  unfolding sep_def by (auto simp: hdr_wrh ftr_wrh split: if_splits)

lemma sep_wrf: "sep H \<Longrightarrow> sep (wrf x p H)"
  unfolding sep_def by (auto simp: hdr_wrf ftr_wrf split: if_splits)

text \<open>A header that is there is overwritten in place.\<close>

lemma wrh_in_place:
  assumes "sep H" "hdr H x = Some d" shows "wrh x c H = H\<lparr>hdr := (hdr H)(x \<mapsto> c)\<rparr>"
proof (rule cmem.equality)
  have "hdr (wrh x c H) y = ((hdr H)(x \<mapsto> c)) y" for y
    using sepD(1) [OF assms(1), of x y] assms(2) by (cases "x = y"; cases "hdr H y") (auto simp: hdr_wrh)
  then show "hdr (wrh x c H) = hdr (H\<lparr>hdr := (hdr H)(x \<mapsto> c)\<rparr>)" by (simp add: fun_eq_iff)
  have "ftr (wrh x c H) y = ftr H y" for y
    using sepD(2) [OF assms(1), of x y] assms(2) by (cases "ftr H y") (auto simp: ftr_wrh)
  then show "ftr (wrh x c H) = ftr (H\<lparr>hdr := (hdr H)(x \<mapsto> c)\<rparr>)" by (simp add: fun_eq_iff)
qed simp

lemma sep_update: "sep H \<Longrightarrow> hdr H x = Some d \<Longrightarrow> sep (H\<lparr>hdr := (hdr H)(x \<mapsto> c)\<rparr>)"
  by (metis sep_wrh wrh_in_place)

section \<open>Doubly linked lists in the store\<close>

abbreviation hd_or :: "nat \<Rightarrow> nat list \<Rightarrow> nat" where
  "hd_or n xs \<equiv> (case xs of [] \<Rightarrow> n | x # _ \<Rightarrow> x)"

abbreviation last_or :: "nat \<Rightarrow> nat list \<Rightarrow> nat" where
  "last_or p xs \<equiv> (if xs = [] then p else last xs)"

fun dseg :: "(nat \<Rightarrow> MP_Chunk option) \<Rightarrow> nat \<Rightarrow> nat list \<Rightarrow> nat \<Rightarrow> bool" where
  "dseg h p [] n = True"
| "dseg h p (x # xs) n = ((\<exists>c. h x = Some c \<and> ck_prev c = p \<and> ck_next c = hd_or n xs) \<and> dseg h x xs n)"

definition dlist :: "(nat \<Rightarrow> MP_Chunk option) \<Rightarrow> nat \<Rightarrow> nat list \<Rightarrow> bool" where
  "dlist h x xs \<longleftrightarrow> x = hd_or 0 xs \<and> distinct xs \<and> 0 \<notin> set xs \<and> dseg h 0 xs 0"

lemma dseg_append: "dseg h p (us @ vs) n \<longleftrightarrow> dseg h p us (hd_or n vs) \<and> dseg h (last_or p us) vs n"
  by (induction us arbitrary: p) (auto split: list.splits)

lemma dseg_cong:
  "dseg h p xs n \<Longrightarrow> (\<And>x. x \<in> set xs \<Longrightarrow> h' x = h x) \<Longrightarrow> dseg h' p xs n"
  by (induction xs arbitrary: p) auto

lemma dseg_links:
  "dseg h p xs n \<Longrightarrow> (\<And>x. x \<in> set xs \<Longrightarrow>
     map_option (\<lambda>c. (ck_prev c, ck_next c)) (h' x) = map_option (\<lambda>c. (ck_prev c, ck_next c)) (h x)) \<Longrightarrow> dseg h' p xs n"
  by (induction xs arbitrary: p) fastforce+

lemma dseg_Some: "dseg h p xs n \<Longrightarrow> x \<in> set xs \<Longrightarrow> \<exists>c. h x = Some c"
  by (induction xs arbitrary: p) auto

text \<open>The two assignments of the list macros, which leave the null pointer alone.\<close>

definition set_prev :: "nat \<Rightarrow> nat \<Rightarrow> (nat \<Rightarrow> MP_Chunk option) \<Rightarrow> nat \<Rightarrow> MP_Chunk option" where
  "set_prev x v h = (if x = 0 then h else h(x := map_option (\<lambda>c. c\<lparr>ck_prev := v\<rparr>) (h x)))"

definition set_next :: "nat \<Rightarrow> nat \<Rightarrow> (nat \<Rightarrow> MP_Chunk option) \<Rightarrow> nat \<Rightarrow> MP_Chunk option" where
  "set_next x v h = (if x = 0 then h else h(x := map_option (\<lambda>c. c\<lparr>ck_next := v\<rparr>) (h x)))"

lemma set_prev_other [simp]: "y \<noteq> x \<Longrightarrow> set_prev x v h y = h y"
  by (simp add: set_prev_def)

lemma set_next_other [simp]: "y \<noteq> x \<Longrightarrow> set_next x v h y = h y"
  by (simp add: set_next_def)

lemma dseg_set_next:
  "dseg h 0 us m \<Longrightarrow> distinct us \<Longrightarrow> 0 \<notin> set us \<Longrightarrow> dseg (set_next (last_or 0 us) n h) 0 us n"
proof (cases us rule: rev_cases)
  case (snoc ws w)
  assume "dseg h 0 us m" "distinct us" "0 \<notin> set us"
  then show ?thesis using snoc
    by (auto simp: dseg_append set_next_def elim!: dseg_cong)
qed simp

lemma dseg_set_prev:
  "dseg h p vs n \<Longrightarrow> distinct vs \<Longrightarrow> 0 \<notin> set vs \<Longrightarrow> dseg (set_prev (hd_or 0 vs) q h) q vs n"
  by (cases vs) (auto simp: set_prev_def elim!: dseg_cong)

text \<open>What the list operations leave alone: the sizes and the marks of all chunks.\<close>

definition body :: "MP_Chunk \<Rightarrow> nat \<times> bool" where
  "body c = (ck_alloc_mem c, ck_is_free c)"

definition relinked :: "nat set \<Rightarrow> cmem \<Rightarrow> cmem \<Rightarrow> bool" where
  "relinked X H H' \<longleftrightarrow> ftr H' = ftr H \<and> (\<forall>x. map_option body (hdr H' x) = map_option body (hdr H x)) \<and> (\<forall>x. x \<notin> X \<longrightarrow> hdr H' x = hdr H x)"

lemma body_set_prev [simp]: "map_option body (set_prev x v h y) = map_option body (h y)"
  by (cases "h y") (auto simp: set_prev_def body_def)

lemma body_set_next [simp]: "map_option body (set_next x v h y) = map_option body (h y)"
  by (cases "h y") (auto simp: set_next_def body_def)

lemma update_set_prev:
  assumes "sep H" "x \<noteq> 0" "hdr H x = Some c"
  shows "wrh x (c\<lparr>ck_prev := v\<rparr>) H = H\<lparr>hdr := set_prev x v (hdr H)\<rparr>"
  using assms by (simp add: wrh_in_place set_prev_def)

lemma update_set_next:
  assumes "sep H" "x \<noteq> 0" "hdr H x = Some c"
  shows "wrh x (c\<lparr>ck_next := v\<rparr>) H = H\<lparr>hdr := set_next x v (hdr H)\<rparr>"
  using assms by (simp add: wrh_in_place set_next_def)

lemma sep_dom: "sep H \<Longrightarrow> (\<And>x. h x \<noteq> None \<Longrightarrow> hdr H x \<noteq> None) \<Longrightarrow> sep (H\<lparr>hdr := h\<rparr>)"
  unfolding sep_def by auto

lemma sep_set_prev: "sep H \<Longrightarrow> sep (H\<lparr>hdr := set_prev x v (hdr H)\<rparr>)"
  by (erule sep_dom) (auto simp: set_prev_def split: if_splits)

lemma sep_set_next: "sep H \<Longrightarrow> sep (H\<lparr>hdr := set_next x v (hdr H)\<rparr>)"
  by (erule sep_dom) (auto simp: set_next_def split: if_splits)

lemma relinkedD:
  assumes "relinked X H H'"
  shows "ftr H' = ftr H" "map_option body (hdr H' x) = map_option body (hdr H x)" "x \<notin> X \<Longrightarrow> hdr H' x = hdr H x"
  using assms by (auto simp: relinked_def)

lemma relinked_set_prev: "x = 0 \<or> x \<in> X \<Longrightarrow> relinked X H (H\<lparr>hdr := set_prev x v (hdr H)\<rparr>)"
  by (auto simp: relinked_def) (auto simp: set_prev_def)

lemma relinked_set_next: "x = 0 \<or> x \<in> X \<Longrightarrow> relinked X H (H\<lparr>hdr := set_next x v (hdr H)\<rparr>)"
  by (auto simp: relinked_def) (auto simp: set_next_def)

lemma relinked_trans: "relinked X H H1 \<Longrightarrow> relinked Y H1 H2 \<Longrightarrow> relinked (X \<union> Y) H H2"
  by (simp add: relinked_def)

lemma relinked_mono: "relinked X H H' \<Longrightarrow> X \<subseteq> Y \<Longrightarrow> relinked Y H H'"
  by (auto simp: relinked_def)

text \<open>Between \<open>us\<close> and \<open>vs\<close>, the links are set to \<open>n\<close> and \<open>q\<close>.\<close>

definition patch :: "nat list \<Rightarrow> nat list \<Rightarrow> nat \<Rightarrow> nat \<Rightarrow> cmem \<Rightarrow> cmem" where
  "patch us vs n q H = H\<lparr>hdr := set_prev (hd_or 0 vs) q (set_next (last_or 0 us) n (hdr H))\<rparr>"

lemma patch_dseg:
  assumes "dseg (hdr H) 0 us m" "dseg (hdr H) p vs 0" "distinct (us @ vs)" "0 \<notin> set (us @ vs)"
  shows "dseg (hdr (patch us vs n q H)) 0 us n \<and> dseg (hdr (patch us vs n q H)) q vs 0"
proof
  let ?h = "set_next (last_or 0 us) n (hdr H)"
  have vs: "hd_or 0 vs \<notin> set us" using assms(3,4) by (cases vs) auto
  have us: "last_or 0 us \<notin> set vs" using assms(3,4) by (cases us rule: rev_cases) auto
  have 1: "dseg ?h 0 us n" using dseg_set_next [OF assms(1)] assms(3,4) by simp
  show "dseg (hdr (patch us vs n q H)) 0 us n"
  proof (rule dseg_cong [OF 1])
    fix y assume "y \<in> set us"
    then have "y \<noteq> hd_or 0 vs" using vs by auto
    then show "hdr (patch us vs n q H) y = ?h y" by (simp add: patch_def)
  qed
  have 2: "dseg ?h p vs 0"
  proof (rule dseg_cong [OF assms(2)])
    fix y assume "y \<in> set vs"
    then have "y \<noteq> last_or 0 us" using us by metis
    then show "?h y = hdr H y" by simp
  qed
  show "dseg (hdr (patch us vs n q H)) q vs 0" using dseg_set_prev [OF 2] assms(3,4) by (simp add: patch_def)
qed

lemma patch_relinked: "relinked (set us \<union> set vs) H (patch us vs n q H)"
proof -
  have "relinked (set us) H (H\<lparr>hdr := set_next (last_or 0 us) n (hdr H)\<rparr>)" by (rule relinked_set_next) auto
  moreover have "relinked (set vs) (H\<lparr>hdr := set_next (last_or 0 us) n (hdr H)\<rparr>) (patch us vs n q H)"
    using relinked_set_prev [of "hd_or 0 vs" "set vs" "H\<lparr>hdr := set_next (last_or 0 us) n (hdr H)\<rparr>" q]
    by (cases vs) (simp_all add: patch_def)
  ultimately show ?thesis by (rule relinked_trans)
qed

lemma patch_sep: "sep H \<Longrightarrow> sep (patch us vs n q H)"
  using sep_set_prev [OF sep_set_next, of H] by (simp add: patch_def)

text \<open>The two assignments of the macros, with their guards.\<close>

lemma patch_run:
  assumes "sep H" "dseg (hdr H) 0 us m" "dseg (hdr H) p vs 0" "distinct (us @ vs)" "0 \<notin> set (us @ vs)"
  shows "rbind (if last_or 0 us = 0 then ok (a, H)
            else rbind (rdh H (last_or 0 us)) (\<lambda>c. ok (b, wrh (last_or 0 us) (c\<lparr>ck_next := n\<rparr>) H))) (\<lambda>(fl, H2).
         rbind (if hd_or 0 vs = 0 then ok H2
            else rbind (rdh H2 (hd_or 0 vs)) (\<lambda>x. ok (wrh (hd_or 0 vs) (x\<lparr>ck_prev := q\<rparr>) H2))) (\<lambda>H3. k fl H3))
       = k (if us = [] then a else b) (patch us vs n q H)"
proof -
  let ?H = "H\<lparr>hdr := set_next (last_or 0 us) n (hdr H)\<rparr>"
  have 1: "(if last_or 0 us = 0 then ok (a, H)
            else rbind (rdh H (last_or 0 us)) (\<lambda>c. ok (b, wrh (last_or 0 us) (c\<lparr>ck_next := n\<rparr>) H))) =
       ok (if us = [] then a else b, ?H)"
  proof (cases us rule: rev_cases)
    case Nil then show ?thesis by (simp add: set_next_def)
  next
    case (snoc ws w)
    then obtain c where c: "hdr H w = Some c" and w: "w \<noteq> 0" using assms(2,5) dseg_Some [of "hdr H" 0 us m w] by auto
    then show ?thesis using snoc by (simp add: rdh_def update_set_next [OF assms(1) w c])
  qed
  have 2: "(if hd_or 0 vs = 0 then ok ?H
            else rbind (rdh ?H (hd_or 0 vs)) (\<lambda>x. ok (wrh (hd_or 0 vs) (x\<lparr>ck_prev := q\<rparr>) ?H))) = ok (patch us vs n q H)"
  proof (cases vs)
    case Nil then show ?thesis by (simp add: patch_def set_prev_def)
  next
    case (Cons v ws)
    then obtain c where c: "hdr H v = Some c" and v: "v \<noteq> 0" using assms(3,5) by auto
    have "v \<noteq> last_or 0 us" using Cons assms(4,5) by (cases us rule: rev_cases) auto
    then have c': "hdr ?H v = Some c" using c by simp
    then show ?thesis using Cons v update_set_prev [OF sep_set_next [OF assms(1)] v c'] by (simp add: rdh_def patch_def)
  qed
  show ?thesis unfolding 1 by (simp only: rbind_Inr prod.case 2)
qed

lemma dlist_split:
  assumes "dlist h x0 (us @ x # vs)"
  obtains c where "h x = Some c" "ck_prev c = last_or 0 us" "ck_next c = hd_or 0 vs" "x \<noteq> 0"
    "dseg h 0 us x" "dseg h x vs 0" "distinct (us @ vs)" "0 \<notin> set (us @ vs)" "x \<notin> set us" "x \<notin> set vs" "x0 = hd_or x us"
proof -
  have d: "x0 = hd_or 0 (us @ x # vs)" "distinct (us @ x # vs)" "0 \<notin> set (us @ x # vs)" "dseg h 0 (us @ x # vs) 0"
    using assms unfolding dlist_def by blast+
  then obtain c where "h x = Some c" "ck_prev c = last_or 0 us" "ck_next c = hd_or 0 vs" "dseg h 0 us x" "dseg h x vs 0"
    unfolding dseg_append by auto
  moreover have "x0 = hd_or x us" using d(1) by (cases us) auto
  ultimately show thesis using that d(2,3) by simp
qed

lemma dlink_del_run:
  assumes "hdr H x = Some c" "x \<noteq> 0"
  shows "dlink_del head x H =
     rbind (if ck_prev c = 0 then ok (ck_next c, H)
            else rbind (rdh H (ck_prev c)) (\<lambda>d. ok (head, wrh (ck_prev c) (d\<lparr>ck_next := ck_next c\<rparr>) H))) (\<lambda>(fl, H2).
     rbind (if ck_next c = 0 then ok H2
            else rbind (rdh H2 (ck_next c)) (\<lambda>n. ok (wrh (ck_next c) (n\<lparr>ck_prev := ck_prev c\<rparr>) H2))) (\<lambda>H3. ok (fl, H3)))"
  using assms by (cases "ck_prev c = 0"; cases "ck_next c = 0") (simp_all add: dlink_del_def rdh_def [of H x] rbind_assoc Let_def)

lemma dlink_ins_run:
  assumes "hdr H x = Some c" "x \<noteq> 0"
  shows "dlink_ins head x H =
     rbind (if head = 0 then ok (wrh x (c\<lparr>ck_prev := 0, ck_next := head\<rparr>) H)
            else rbind (rdh (wrh x (c\<lparr>ck_prev := 0, ck_next := head\<rparr>) H) head)
                   (\<lambda>n. ok (wrh head (n\<lparr>ck_prev := x\<rparr>) (wrh x (c\<lparr>ck_prev := 0, ck_next := head\<rparr>) H)))) (\<lambda>H3. ok (x, H3))"
  using assms by (simp add: dlink_ins_def rdh_def [of H x] rbind_assoc Let_def)

lemma dlink_del_patch:
  assumes "sep H" "dlist (hdr H) head (us @ x # vs)"
  shows "dlink_del head x H = ok (hd_or 0 (us @ vs), patch us vs (hd_or 0 vs) (last_or 0 us) H)"
proof -
  obtain c where c: "hdr H x = Some c" "ck_prev c = last_or 0 us" "ck_next c = hd_or 0 vs" "x \<noteq> 0"
    "dseg (hdr H) 0 us x" "dseg (hdr H) x vs 0" "distinct (us @ vs)" "0 \<notin> set (us @ vs)" "x \<notin> set us" "x \<notin> set vs" "head = hd_or x us"
    by (rule dlist_split [OF assms(2)])
  show ?thesis unfolding dlink_del_run [OF c(1,4)] c(2,3) patch_run [OF assms(1) c(5-8)]
    using c(11) by (cases us) auto
qed

text \<open>\<open>MP_DLINKLIST_DEL\<close> takes the chunk out of its list, wherever it is.\<close>

lemma dlink_del_ok:
  assumes "sep H" "dlist (hdr H) head (us @ x # vs)"
  shows "\<exists>H'. dlink_del head x H = ok (hd_or 0 (us @ vs), H') \<and> dlist (hdr H') (hd_or 0 (us @ vs)) (us @ vs) \<and>
     relinked (set us \<union> set vs) H H' \<and> sep H'"
proof -
  let ?H = "patch us vs (hd_or 0 vs) (last_or 0 us) H"
  have c: "dseg (hdr H) 0 us x" "dseg (hdr H) x vs 0" "distinct (us @ vs)" "0 \<notin> set (us @ vs)"
    by (rule dlist_split [OF assms(2)], assumption)+
  have "dlist (hdr ?H) (hd_or 0 (us @ vs)) (us @ vs)"
    using patch_dseg [OF c] c(3,4) by (simp add: dlist_def dseg_append)
  then show ?thesis using dlink_del_patch [OF assms] patch_relinked patch_sep [OF assms(1)] by blast
qed

text \<open>\<open>MP_DLINKLIST_INS_FRT\<close> puts the chunk in front.\<close>

lemma dlink_ins_ok:
  assumes "sep H" "dlist (hdr H) head xs" "x \<notin> set xs" "x \<noteq> 0" "hdr H x = Some c"
  shows "\<exists>H'. dlink_ins head x H = ok (x, H') \<and> dlist (hdr H') x (x # xs) \<and> relinked (insert x (set xs)) H H' \<and> sep H'"
proof -
  let ?c = "c\<lparr>ck_prev := 0, ck_next := head\<rparr>"
  let ?H = "H\<lparr>hdr := (hdr H)(x \<mapsto> ?c)\<rparr>"
  have w: "wrh x ?c H = ?H" by (rule wrh_in_place [OF assms(1,5)])
  have xs: "head = hd_or 0 xs" "distinct xs" "0 \<notin> set xs" "dseg (hdr H) 0 xs 0" using assms(2) by (auto simp: dlist_def)
  have s: "sep ?H" using sep_update [OF assms(1,5)] .
  have d: "dseg (hdr ?H) 0 xs 0" by (rule dseg_cong [OF xs(4)]) (use assms(3) in auto)
  let ?H' = "patch [] xs 0 x ?H"
  have r: "dlink_ins head x H = ok (x, ?H')"
    using patch_run [OF s, of "[]" x 0 xs x x 0 x "\<lambda>a h. ok (a, h)"] d xs(2,3)
    unfolding dlink_ins_run [OF assms(5,4)] w xs(1) [symmetric] by simp
  have d': "dseg (hdr ?H') x xs 0" using patch_dseg [of ?H "[]" x 0 xs 0 x] d xs by simp
  have "hd_or 0 xs \<noteq> x" using assms(3,4) by (cases xs) auto
  then have "hdr ?H' x = Some ?c" using assms(4) by (simp add: patch_def set_next_def)
  then have l: "dlist (hdr ?H') x (x # xs)" using d' xs assms(3,4) by (simp add: dlist_def)
  have "relinked {x} H ?H" using assms(5) by (simp add: relinked_def body_def)
  then have "relinked (insert x (set xs)) H ?H'" using relinked_trans [OF _ patch_relinked [of "[]" xs]] by fastforce
  then show ?thesis using r l patch_sep [OF s] by blast
qed

end
