(* ===== verification/PoolBlock.thy ===== *)
theory PoolBlock
  imports MemPool
begin

text \<open>
  The invariant of one block of the memory pool: its chunks tile it, every chunk but the last is followed by a pointer to
  its header, no two free chunks are adjacent, the free and the allocated chunks are in their lists and the counters
  agree. Taking a chunk and releasing one keep it.
\<close>

section \<open>Tilings\<close>

abbreviation csz :: "cmem \<Rightarrow> nat \<Rightarrow> nat" where
  "csz H x \<equiv> ck_alloc_mem (the (hdr H x))"

abbreviation cfree :: "cmem \<Rightarrow> nat \<Rightarrow> bool" where
  "cfree H x \<equiv> ck_is_free (the (hdr H x))"

fun tiles :: "cmem \<Rightarrow> nat \<Rightarrow> nat list \<Rightarrow> nat \<Rightarrow> bool" where
  "tiles H a [] e = (a = e)"
| "tiles H a (x # xs) e = (x = a \<and> hdr H x \<noteq> None \<and> MP_CHUNKHEADER + MP_CHUNKEND < csz H x \<and> tiles H (x + csz H x) xs e)"

abbreviation foot :: "cmem \<Rightarrow> nat \<Rightarrow> nat \<Rightarrow> bool" where
  "foot H x y \<equiv> ftr H (y - MP_CHUNKEND) = Some x"

abbreviation not_both_free :: "cmem \<Rightarrow> nat \<Rightarrow> nat \<Rightarrow> bool" where
  "not_both_free H x y \<equiv> \<not> (cfree H x \<and> cfree H y)"

lemma body_eq:
  assumes "map_option body (hdr H' x) = map_option body (hdr H x)" "hdr H x \<noteq> None"
  shows "csz H' x = csz H x" "cfree H' x = cfree H x" "hdr H' x \<noteq> None"
  using assms by (auto simp: body_def map_option_case split: option.splits)

lemma tiles_append: "tiles H a (us @ vs) e \<longleftrightarrow> (\<exists>m. tiles H a us m \<and> tiles H m vs e)"
  by (induction us arbitrary: a) auto

lemma tiles_le: "tiles H a xs e \<Longrightarrow> a \<le> e"
  by (induction xs arbitrary: a) fastforce+

lemma tiles_bounds:
  "tiles H a xs e \<Longrightarrow> x \<in> set xs \<Longrightarrow> a \<le> x \<and> x + csz H x \<le> e \<and> hdr H x \<noteq> None \<and> MP_CHUNKHEADER + MP_CHUNKEND < csz H x"
proof (induction xs arbitrary: a)
  case (Cons y ys)
  then show ?case using tiles_le [of H "y + csz H y" ys e] by fastforce
qed simp

lemma tiles_sorted: "tiles H a xs e \<Longrightarrow> sorted_wrt (\<lambda>x y. x + csz H x \<le> y) xs"
proof (induction xs arbitrary: a)
  case (Cons y ys)
  then show ?case using tiles_bounds [of H "y + csz H y" ys e] by auto
qed simp

lemma tiles_distinct: "tiles H a xs e \<Longrightarrow> distinct xs"
proof (induction xs arbitrary: a)
  case (Cons y ys)
  then show ?case using tiles_bounds [of H "y + csz H y" ys e y] by auto
qed simp

lemma tiles_apart:
  assumes "tiles H a xs e" "x \<in> set xs" "y \<in> set xs" "x \<noteq> y"
  shows "x + csz H x \<le> y \<or> y + csz H y \<le> x"
proof -
  obtain i j where "i < length xs" "j < length xs" "x = xs ! i" "y = xs ! j" using assms(2,3) by (auto simp: in_set_conv_nth)
  then show ?thesis using tiles_sorted [OF assms(1)] assms(4)
    by (metis (no_types, lifting) linorder_neqE_nat sorted_wrt_iff_nth_less)
qed

lemma tiles_body:
  "tiles H a xs e \<Longrightarrow> (\<And>x. x \<in> set xs \<Longrightarrow> map_option body (hdr H' x) = map_option body (hdr H x)) \<Longrightarrow> tiles H' a xs e"
proof (induction xs arbitrary: a)
  case (Cons y ys)
  then show ?case using body_eq [of H' y H] by auto
qed simp

lemma tiles_split:
  assumes "tiles H a (us @ f # vs) e"
    and "map_option body (hdr H' f) = Some (need, b)" "map_option body (hdr H' (f + need)) = Some (n, b')"
    and "need + n = csz H f" "MP_CHUNKHEADER + MP_CHUNKEND < need" "MP_CHUNKHEADER + MP_CHUNKEND < n"
    and "\<And>x. x \<in> set (us @ vs) \<Longrightarrow> map_option body (hdr H' x) = map_option body (hdr H x)"
  shows "tiles H' a (us @ f # (f + need) # vs) e"
proof -
  obtain m where m: "tiles H a us m" "m = f" "tiles H (f + csz H f) vs e" using assms(1) by (auto simp: tiles_append)
  have "tiles H' a us f" using tiles_body [OF m(1)] assms(7) m(2) by simp
  moreover have "tiles H' (f + csz H f) vs e" using tiles_body [OF m(3)] assms(7) by simp
  ultimately show ?thesis using assms(2-6) by (auto simp: tiles_append body_def add.assoc)
qed

lemma tiles_join:
  assumes "tiles H a (us @ p # q # vs) e"
    and "map_option body (hdr H' p) = Some (csz H p + csz H q, b)"
    and "\<And>x. x \<in> set (us @ vs) \<Longrightarrow> map_option body (hdr H' x) = map_option body (hdr H x)"
  shows "tiles H' a (us @ p # vs) e"
proof -
  obtain m where m: "tiles H a us m" "m = p" "q = p + csz H p" "tiles H (q + csz H q) vs e" "MP_CHUNKHEADER + MP_CHUNKEND < csz H p"
    using assms(1) by (auto simp: tiles_append)
  have "tiles H' a us p" using tiles_body [OF m(1)] assms(3) m(2) by simp
  moreover have "tiles H' (q + csz H q) vs e" using tiles_body [OF m(4)] assms(3) by simp
  ultimately show ?thesis using assms(2) m(3,5) by (auto simp: tiles_append body_def add.assoc)
qed

section \<open>The invariant of a block\<close>

definition tiling :: "cmem \<Rightarrow> nat \<Rightarrow> nat \<Rightarrow> nat list \<Rightarrow> bool" where
  "tiling H a e xs \<longleftrightarrow> 0 < a \<and> e < 2 ^ 63 \<and> tiles H a xs e \<and> successively (foot H) xs"

definition block_inv :: "cmem \<Rightarrow> MP_Memory \<Rightarrow> nat list \<Rightarrow> nat list \<Rightarrow> nat list \<Rightarrow> bool" where
  "block_inv H mm xs fs al \<longleftrightarrow>
     tiling H (mm_start mm) (mm_start mm + mm_pool_size mm) xs \<and> successively (not_both_free H) xs \<and>
     dlist (hdr H) (mm_free_list mm) fs \<and> dlist (hdr H) (mm_alloc_list mm) al \<and>
     set fs = {x \<in> set xs. cfree H x} \<and> set al = {x \<in> set xs. \<not> cfree H x} \<and>
     mm_alloc_mem mm = (\<Sum>x\<leftarrow>al. csz H x) \<and> mm_alloc_prog_mem mm = (\<Sum>x\<leftarrow>al. csz H x - (MP_CHUNKHEADER + MP_CHUNKEND))"

text \<open>The store changes only between \<open>lo\<close> and \<open>hi\<close>.\<close>

definition touched :: "nat \<Rightarrow> nat \<Rightarrow> cmem \<Rightarrow> cmem \<Rightarrow> bool" where
  "touched lo hi H H' \<longleftrightarrow> (\<forall>x. x + MP_CHUNKHEADER \<le> lo \<or> hi \<le> x \<longrightarrow> hdr H' x = hdr H x) \<and>
     (\<forall>x. x + MP_CHUNKEND \<le> lo \<or> hi \<le> x \<longrightarrow> ftr H' x = ftr H x)"

lemma touched_refl [simp]: "touched lo hi H H"
  by (simp add: touched_def)

lemma touched_trans: "touched lo hi H H1 \<Longrightarrow> touched lo hi H1 H2 \<Longrightarrow> touched lo hi H H2"
  by (simp add: touched_def)

lemma touched_mono: "touched lo hi H H' \<Longrightarrow> lo' \<le> lo \<Longrightarrow> hi \<le> hi' \<Longrightarrow> touched lo' hi' H H'"
  unfolding touched_def by auto

lemma touched_clobber: "lo < hi \<Longrightarrow> touched lo hi H (clobber lo hi H)"
  by (simp add: touched_def)

lemma touched_wrh: "touched x (x + MP_CHUNKHEADER) H (wrh x c H)"
  by (auto simp: touched_def hdr_wrh ftr_wrh chunk_sizes)

lemma touched_wrf: "touched x (x + MP_CHUNKEND) H (wrf x p H)"
  by (auto simp: touched_def hdr_wrf ftr_wrf chunk_sizes)

lemma touched_relinked:
  assumes "relinked X H H'" "\<And>x. x \<in> X \<Longrightarrow> lo \<le> x \<and> x < hi" "lo < hi" shows "touched lo hi H H'"
  unfolding touched_def
proof (intro conjI allI impI)
  fix x assume "x + MP_CHUNKHEADER \<le> lo \<or> hi \<le> x"
  then have "x \<notin> X" using assms(2) [of x] by (auto simp: chunk_sizes)
  then show "hdr H' x = hdr H x" by (rule relinkedD(3) [OF assms(1)])
qed (simp add: relinkedD(1) [OF assms(1)])

text \<open>The bytes of a block that belong to the application are those between a header and an end pointer.\<close>

lemma tiles_touched:
  assumes "tiles H a xs e" "f \<in> set xs" "touched lo hi H H'" "f + MP_CHUNKHEADER \<le> lo" "hi \<le> f + csz H f" "x \<in> set xs"
  shows "hdr H' x = hdr H x"
proof -
  have "x + MP_CHUNKHEADER \<le> lo \<or> hi \<le> x"
    using tiles_apart [OF assms(1,2,6)] tiles_bounds [OF assms(1,6)] assms(4,5) by (cases "f = x") (auto simp: chunk_sizes)
  then show ?thesis using assms(3) unfolding touched_def by blast
qed

lemma tiles_next: "tiles H a xs e \<Longrightarrow> f \<in> set xs \<Longrightarrow> f + csz H f = e \<or> f + csz H f \<in> set xs"
proof (induction xs arbitrary: a)
  case (Cons y ys)
  then show ?case by (cases ys) auto
qed simp

lemma foot_touched:
  assumes "tiles H a xs e" "f \<in> set xs" "touched lo hi H H'" "f + MP_CHUNKHEADER \<le> lo" "hi \<le> f + csz H f" "y \<in> set xs"
    and "y \<noteq> f + csz H f \<or> hi + MP_CHUNKEND \<le> f + csz H f"
  shows "ftr H' (y - MP_CHUNKEND) = ftr H (y - MP_CHUNKEND)"
proof -
  have "y - MP_CHUNKEND + MP_CHUNKEND \<le> lo \<or> hi \<le> y - MP_CHUNKEND"
  proof (cases "y \<le> f")
    case True then show ?thesis using assms(4) by (auto simp: chunk_sizes)
  next
    case False
    then have y: "f + csz H f \<le> y" using tiles_apart [OF assms(1,2,6)] by auto
    then show ?thesis
      using tiles_next [OF assms(1,2)] tiles_apart [OF assms(1) _ assms(6)] tiles_bounds [OF assms(1)] assms(5,6,7)
      by (cases "y = f + csz H f") (fastforce simp: chunk_sizes)+
  qed
  then show ?thesis using assms(3) unfolding touched_def by blast
qed

text \<open>Whatever the application writes into an allocated chunk, the block stays as it is.\<close>

lemma block_inv_cong:
  assumes "block_inv H mm xs fs al" "\<And>x. x \<in> set xs \<Longrightarrow> hdr H' x = hdr H x"
    and "\<And>y. y \<in> set xs \<Longrightarrow> y \<noteq> mm_start mm \<Longrightarrow> ftr H' (y - MP_CHUNKEND) = ftr H (y - MP_CHUNKEND)"
  shows "block_inv H' mm xs fs al"
proof -
  note b = assms(1) [unfolded block_inv_def tiling_def]
  have sub: "set fs \<subseteq> set xs" "set al \<subseteq> set xs" using b by auto
  have same: "\<And>x. x \<in> set al \<Longrightarrow> hdr H' x = hdr H x" using sub(2) assms(2) by blast
  have "tiles H' (mm_start mm) xs (mm_start mm + mm_pool_size mm)" using b assms(2) tiles_body by metis
  moreover have "successively (foot H') xs"
  proof (cases xs)
    case (Cons z zs)
    have t: "tiles H (mm_start mm) xs (mm_start mm + mm_pool_size mm)" using b by blast
    have "z = mm_start mm" "distinct xs" using tiles_distinct [OF t] t Cons by auto
    then have *: "\<And>y. y \<in> set zs \<Longrightarrow> ftr H' (y - MP_CHUNKEND) = ftr H (y - MP_CHUNKEND)" using assms(3) Cons by auto
    have "successively (foot H) xs" using b by blast
    then show ?thesis unfolding Cons using *
      by (induction zs arbitrary: z) (auto simp: successively_Cons)
  qed simp
  moreover have "successively (not_both_free H') xs"
    using b assms(2) by (auto elim!: successively_mono)
  moreover have "dlist (hdr H') (mm_free_list mm) fs" "dlist (hdr H') (mm_alloc_list mm) al"
    using b assms(2) sub dseg_cong [of "hdr H" 0 _ 0 "hdr H'"] unfolding dlist_def by (meson subsetD)+
  moreover have s: "(\<Sum>x\<leftarrow>al. csz H' x) = (\<Sum>x\<leftarrow>al. csz H x)"
    "(\<Sum>x\<leftarrow>al. csz H' x - (MP_CHUNKHEADER + MP_CHUNKEND)) = (\<Sum>x\<leftarrow>al. csz H x - (MP_CHUNKHEADER + MP_CHUNKEND))"
    using same by (simp_all cong: map_cong)
  moreover have e: "{x \<in> set xs. cfree H' x} = {x \<in> set xs. cfree H x}" "{x \<in> set xs. \<not> cfree H' x} = {x \<in> set xs. \<not> cfree H x}"
    using assms(2) by auto
  ultimately show ?thesis using b unfolding block_inv_def tiling_def s e by blast
qed

lemma block_inv_payload:
  assumes "block_inv H mm xs fs al" "f \<in> set xs" "touched lo hi H H'" "f + MP_CHUNKHEADER \<le> lo" "hi + MP_CHUNKEND \<le> f + csz H f"
  shows "block_inv H' mm xs fs al"
proof -
  have t: "tiles H (mm_start mm) xs (mm_start mm + mm_pool_size mm)" using assms(1) by (simp add: block_inv_def tiling_def)
  show ?thesis using tiles_touched [OF t assms(2-4)] foot_touched [OF t assms(2-4)] assms(5) by (intro block_inv_cong [OF assms(1)]) auto
qed

lemma block_inv_elsewhere:
  assumes "block_inv H mm xs fs al" "touched lo hi H H'" "mm_start mm + mm_pool_size mm \<le> lo \<or> hi \<le> mm_start mm"
  shows "block_inv H' mm xs fs al"
proof (rule block_inv_cong [OF assms(1)])
  have t: "tiles H (mm_start mm) xs (mm_start mm + mm_pool_size mm)" using assms(1) by (simp add: block_inv_def tiling_def)
  fix x assume x: "x \<in> set xs"
  have "x + MP_CHUNKHEADER \<le> lo \<or> hi \<le> x" using tiles_bounds [OF t x] assms(3) by auto
  then show "hdr H' x = hdr H x" using assms(2) unfolding touched_def by blast
  assume "x \<noteq> mm_start mm"
  then obtain z zs where z: "xs = z # zs" "x \<in> set zs" "z = mm_start mm" using x t by (cases xs) auto
  then have "tiles H (z + csz H z) zs (mm_start mm + mm_pool_size mm)" "MP_CHUNKHEADER + MP_CHUNKEND < csz H z" using t by auto
  then have "mm_start mm + MP_CHUNKHEADER + MP_CHUNKEND \<le> x" using tiles_bounds z(2,3) by fastforce
  then have "x - MP_CHUNKEND + MP_CHUNKEND \<le> lo \<or> hi \<le> x - MP_CHUNKEND" using tiles_bounds [OF t x] assms(3) by auto
  then show "ftr H' (x - MP_CHUNKEND) = ftr H (x - MP_CHUNKEND)" using assms(2) unfolding touched_def by blast
qed

section \<open>Taking a chunk\<close>

text \<open>The search returns the first chunk of the free list that is large enough.\<close>

lemma find_free_ok:
  assumes "dseg (hdr H) p fs 0" "0 \<notin> set fs"
  shows "find_free H need (hd_or 0 fs) = Some (ok (case find (\<lambda>x. need \<le> csz H x) fs of None \<Rightarrow> 0 | Some x \<Rightarrow> x))"
  using assms
proof (induction fs arbitrary: p)
  case Nil then show ?case by (subst find_free.simps) simp
next
  case (Cons x fs)
  then show ?case by (subst find_free.simps) (auto simp: rdh_def)
qed

lemma tiling_relinked:
  assumes "relinked X H H'" "tiling H a e xs" shows "tiling H' a e xs"
  using assms tiles_body [of H a xs e H'] by (simp add: tiling_def relinked_def)

lemma relinked_csz:
  assumes "relinked X H H'" "hdr H x \<noteq> None" shows "csz H' x = csz H x" "cfree H' x = cfree H x" "hdr H' x \<noteq> None"
  using body_eq [OF relinkedD(2) [OF assms(1)] assms(2)] by auto

lemma dlist_relinked:
  assumes "relinked X H H'" "dlist (hdr H) x xs" "set xs \<inter> X = {}" shows "dlist (hdr H') x xs"
  using assms dseg_cong [of "hdr H" 0 xs 0 "hdr H'"] relinkedD(3) [OF assms(1)] unfolding dlist_def by blast

lemma dlist_cong: "dlist h x xs \<Longrightarrow> (\<And>y. y \<in> set xs \<Longrightarrow> h' y = h y) \<Longrightarrow> dlist h' x xs"
  unfolding dlist_def using dseg_cong by blast

lemma dlist_update: "f \<notin> set xs \<Longrightarrow> dlist h x xs \<Longrightarrow> dlist (h(f \<mapsto> c)) x xs"
  by (erule dlist_cong) auto

lemma block_invD:
  assumes "block_inv H mm xs fs al"
  shows "tiling H (mm_start mm) (mm_start mm + mm_pool_size mm) xs" "successively (not_both_free H) xs"
    "dlist (hdr H) (mm_free_list mm) fs" "dlist (hdr H) (mm_alloc_list mm) al" "set fs = {x \<in> set xs. cfree H x}"
    "set al = {x \<in> set xs. \<not> cfree H x}" "mm_alloc_mem mm = (\<Sum>x\<leftarrow>al. csz H x)"
    "mm_alloc_prog_mem mm = (\<Sum>x\<leftarrow>al. csz H x - (MP_CHUNKHEADER + MP_CHUNKEND))"
    "tiles H (mm_start mm) xs (mm_start mm + mm_pool_size mm)" "successively (foot H) xs" "0 < mm_start mm"
    "mm_start mm + mm_pool_size mm < 2 ^ 63"
  using assms unfolding block_inv_def tiling_def by blast+

text \<open>The counter of a block stays below its size.\<close>

lemma tiles_sum: "tiles H a xs e \<Longrightarrow> a + (\<Sum>x\<leftarrow>xs. csz H x) = e"
  by (induction xs arbitrary: a) (fastforce simp: add.assoc)+

lemma u64_nat: "x = int n \<Longrightarrow> n < 2 ^ 64 \<Longrightarrow> u64 x = n"
  by simp

lemma alloc_sum:
  assumes "tiles H a xs e" "distinct al" "set al \<subseteq> set xs" shows "(\<Sum>x\<leftarrow>al. csz H x) \<le> e - a"
proof -
  have "(\<Sum>x\<leftarrow>al. csz H x) = (\<Sum>x\<in>set al. csz H x)" using assms(2) by (simp add: sum_list_distinct_conv_sum_set)
  also have "\<dots> \<le> (\<Sum>x\<in>set xs. csz H x)" using assms(3) by (intro sum_mono2) auto
  also have "\<dots> = (\<Sum>x\<leftarrow>xs. csz H x)" using tiles_distinct [OF assms(1)] by (simp add: sum_list_distinct_conv_sum_set)
  finally show ?thesis using tiles_sum [OF assms(1)] by simp
qed

text \<open>The chunk that was taken goes to the front of the list of allocated chunks.\<close>

definition limbo :: "cmem \<Rightarrow> MP_Memory \<Rightarrow> nat list \<Rightarrow> nat \<Rightarrow> nat list \<Rightarrow> nat list \<Rightarrow> nat \<Rightarrow> bool" where
  "limbo H mm xs fl fs al f \<longleftrightarrow>
     sep H \<and> tiling H (mm_start mm) (mm_start mm + mm_pool_size mm) xs \<and> successively (not_both_free H) xs \<and>
     dlist (hdr H) fl fs \<and> dlist (hdr H) (mm_alloc_list mm) al \<and> set fs = {x \<in> set xs. cfree H x} \<and>
     set al = {x \<in> set xs. \<not> cfree H x} - {f} \<and> f \<in> set xs \<and> \<not> cfree H f \<and>
     mm_alloc_mem mm = (\<Sum>x\<leftarrow>al. csz H x) \<and> mm_alloc_prog_mem mm = (\<Sum>x\<leftarrow>al. csz H x - (MP_CHUNKHEADER + MP_CHUNKEND))"

lemma take_finish:
  assumes "limbo H mm xs fl fs al f"
  shows "\<exists>H' mm'. rbind (dlink_ins (mm_alloc_list mm) f H) (\<lambda>(al, H2).
       rbind (rdh H2 f) (\<lambda>c2.
       ok (f + MP_CHUNKHEADER,
           mm\<lparr>mm_free_list := fl, mm_alloc_list := al, mm_alloc_mem := u64 (int (mm_alloc_mem mm + ck_alloc_mem c2)),
              mm_alloc_prog_mem := u64 (int (mm_alloc_prog_mem mm + ck_alloc_mem c2) - int (MP_CHUNKHEADER + MP_CHUNKEND))\<rparr>, H2))) =
       ok (f + MP_CHUNKHEADER, mm', H') \<and> sep H' \<and> block_inv H' mm' xs fs (f # al) \<and> relinked (set xs) H H' \<and>
       mm_start mm' = mm_start mm \<and> mm_pool_size mm' = mm_pool_size mm \<and> mm_id mm' = mm_id mm"
proof -
  have assms: "sep H" "tiling H (mm_start mm) (mm_start mm + mm_pool_size mm) xs" "successively (not_both_free H) xs"
    "dlist (hdr H) fl fs" "dlist (hdr H) (mm_alloc_list mm) al" "set fs = {x \<in> set xs. cfree H x}"
    "set al = {x \<in> set xs. \<not> cfree H x} - {f}" "f \<in> set xs" "\<not> cfree H f"
    "mm_alloc_mem mm = (\<Sum>x\<leftarrow>al. csz H x)" "mm_alloc_prog_mem mm = (\<Sum>x\<leftarrow>al. csz H x - (MP_CHUNKHEADER + MP_CHUNKEND))"
    using assms unfolding limbo_def by blast+
  have t: "tiles H (mm_start mm) xs (mm_start mm + mm_pool_size mm)" "mm_start mm + mm_pool_size mm < 2 ^ 63" "0 < mm_start mm"
    using assms(2) by (auto simp: tiling_def)
  have b: "\<And>x. x \<in> set xs \<Longrightarrow> hdr H x \<noteq> None \<and> MP_CHUNKHEADER + MP_CHUNKEND < csz H x" using tiles_bounds [OF t(1)] by blast
  obtain c where c: "hdr H f = Some c" using b [OF assms(8)] by blast
  have f: "f \<notin> set al" "f \<noteq> 0" using assms(7,8) tiles_bounds [OF t(1), of f] t(3) by auto
  obtain H' where H': "dlink_ins (mm_alloc_list mm) f H = ok (f, H')" "dlist (hdr H') f (f # al)" "relinked (insert f (set al)) H H'" "sep H'"
    using dlink_ins_ok [OF assms(1,5) f(1,2) c] by blast
  have k: "\<And>x. x \<in> set xs \<Longrightarrow> csz H' x = csz H x \<and> cfree H' x = cfree H x \<and> hdr H' x \<noteq> None"
    using relinked_csz [OF H'(3)] b by blast
  obtain c' where c': "hdr H' f = Some c'" "ck_alloc_mem c' = csz H f" using k [OF assms(8)] by auto
  have al: "set (f # al) \<subseteq> set xs" using assms(7,8) by auto
  have sums: "(\<Sum>x\<leftarrow>f # al. csz H' x) = mm_alloc_mem mm + csz H f"
    "(\<Sum>x\<leftarrow>f # al. csz H' x - (MP_CHUNKHEADER + MP_CHUNKEND)) = mm_alloc_prog_mem mm + (csz H f - (MP_CHUNKHEADER + MP_CHUNKEND))"
    using k al assms(10,11) by (simp_all add: subset_iff cong: map_cong)
  have "distinct (f # al)" using H'(2) by (simp add: dlist_def)
  then have small: "mm_alloc_mem mm + csz H f \<le> mm_pool_size mm"
    using alloc_sum [OF t(1) _ al] assms(10) by simp
  have "mm_alloc_prog_mem mm \<le> mm_alloc_mem mm" unfolding assms(10,11) by (rule sum_list_mono) simp
  then have u: "u64 (int (mm_alloc_mem mm + csz H f)) = mm_alloc_mem mm + csz H f"
    "u64 (int (mm_alloc_prog_mem mm + csz H f) - int (MP_CHUNKHEADER + MP_CHUNKEND)) = mm_alloc_prog_mem mm + (csz H f - (MP_CHUNKHEADER + MP_CHUNKEND))"
    using small t(2) b [OF assms(8)] by (intro u64_nat; auto simp: of_nat_diff)+
  have fr: "dlist (hdr H') fl fs" by (rule dlist_relinked [OF H'(3) assms(4)]) (use assms(6,7,9) in auto)
  have "successively (not_both_free H') xs" using assms(3) k by (auto elim!: successively_mono)
  moreover have "set fs = {x \<in> set xs. cfree H' x}" "set (f # al) = {x \<in> set xs. \<not> cfree H' x}" using assms(6-9) k by auto
  moreover have "relinked (set xs) H H'" using relinked_mono [OF H'(3)] al by auto
  ultimately show ?thesis
    using tiling_relinked [OF H'(3) assms(2)] H' fr c' sums u f(2) by (simp add: rdh_def block_inv_def)
qed

text \<open>A chunk that is hardly larger than needed is taken as a whole.\<close>

lemma not_both_free_mono:
  "successively (not_both_free H) xs \<Longrightarrow> (\<And>x. x \<in> set xs \<Longrightarrow> cfree H' x \<Longrightarrow> cfree H x) \<Longrightarrow> successively (not_both_free H') xs"
  by (erule successively_mono) auto

lemma sums_cong:
  assumes "\<And>x. x \<in> set al \<Longrightarrow> csz H' x = csz H x"
  shows "(\<Sum>x\<leftarrow>al. csz H' x) = (\<Sum>x\<leftarrow>al. csz H x)"
    "(\<Sum>x\<leftarrow>al. csz H' x - (MP_CHUNKHEADER + MP_CHUNKEND)) = (\<Sum>x\<leftarrow>al. csz H x - (MP_CHUNKHEADER + MP_CHUNKEND))"
  using assms by (simp_all cong: map_cong)

lemma limboI:
  assumes "sep H" "tiling H (mm_start mm) (mm_start mm + mm_pool_size mm) xs" "successively (not_both_free H) xs"
    and "dlist (hdr H) fl fs" "dlist (hdr H) (mm_alloc_list mm) al" "set fs = {x \<in> set xs. cfree H x}"
    and "set al = {x \<in> set xs. \<not> cfree H x} - {f}" "f \<in> set xs" "\<not> cfree H f"
    and "mm_alloc_mem mm = (\<Sum>x\<leftarrow>al. csz G x)" "mm_alloc_prog_mem mm = (\<Sum>x\<leftarrow>al. csz G x - (MP_CHUNKHEADER + MP_CHUNKEND))"
    and "\<And>x. x \<in> set al \<Longrightarrow> csz H x = csz G x"
  shows "limbo H mm xs fl fs al f"
  unfolding limbo_def by (intro conjI assms(1-9)) (simp_all only: sums_cong [OF assms(12)] assms(10,11))

lemma whole_chunk_ok:
  assumes "sep H" "block_inv H mm xs (us @ f # vs) al"
  shows "\<exists>H'. whole_chunk f (mm_free_list mm) H = ok (hd_or 0 (us @ vs), H') \<and> limbo H' mm xs (hd_or 0 (us @ vs)) (us @ vs) al f \<and>
     touched (mm_start mm) (mm_start mm + mm_pool_size mm) H H' \<and> (\<forall>x\<in>set xs. csz H' x = csz H x)"
proof -
  note b = block_invD [OF assms(2)]
  have f: "f \<in> set xs" "cfree H f" "f \<noteq> 0" "f \<notin> set us" "f \<notin> set vs" using b(3,5) by (auto simp: dlist_def)
  obtain H1 where H1: "dlink_del (mm_free_list mm) f H = ok (hd_or 0 (us @ vs), H1)" "dlist (hdr H1) (hd_or 0 (us @ vs)) (us @ vs)"
    "relinked (set us \<union> set vs) H H1" "sep H1" using dlink_del_ok [OF assms(1) b(3)] by blast
  have k: "\<And>x. x \<in> set xs \<Longrightarrow> csz H1 x = csz H x \<and> cfree H1 x = cfree H x \<and> hdr H1 x \<noteq> None"
    using relinked_csz [OF H1(3)] tiles_bounds [OF b(9)] by blast
  obtain c where c: "hdr H1 f = Some c" using k [OF f(1)] by blast
  let ?H = "H1\<lparr>hdr := (hdr H1)(f \<mapsto> c\<lparr>ck_is_free := False\<rparr>)\<rparr>"
  have run: "whole_chunk f (mm_free_list mm) H = ok (hd_or 0 (us @ vs), ?H)"
    using H1(1) c f(3) wrh_in_place [OF H1(4) c] by (simp add: whole_chunk_def rdh_def)
  have k': "\<And>x. x \<in> set xs \<Longrightarrow> csz ?H x = csz H x \<and> cfree ?H x = (cfree H x \<and> x \<noteq> f) \<and> hdr ?H x \<noteq> None"
    using k k [OF f(1)] c by auto
  have t: "tiling ?H (mm_start mm) (mm_start mm + mm_pool_size mm) xs"
  proof -
    have "tiles ?H a xs e" if "tiles H1 a xs e" for a e
      using that c by (induction xs arbitrary: a) auto
    then show ?thesis using tiling_relinked [OF H1(3) b(1)] by (simp add: tiling_def)
  qed
  have "dlist (hdr ?H) (hd_or 0 (us @ vs)) (us @ vs)"
    using H1(2) f(4,5) by (simp add: dlist_update)
  then have l: "dlist (hdr ?H) (hd_or 0 (us @ vs)) (us @ vs)" .
  have la: "dlist (hdr ?H) (mm_alloc_list mm) al"
  proof -
    have "set al \<inter> (set us \<union> set vs) = {}" "f \<notin> set al" using b(5,6) f(2) by auto
    then show ?thesis using dlist_relinked [OF H1(3) b(4)] by (simp add: dlist_update)
  qed
  have e: "{x \<in> set xs. cfree ?H x} = {x \<in> set xs. cfree H x} - {f}" "{x \<in> set xs. \<not> cfree ?H x} - {f} = {x \<in> set xs. \<not> cfree H x}"
    using k' f(2) by blast+
  have sf: "set (us @ vs) = {x \<in> set xs. cfree ?H x}" unfolding e b(5) [symmetric] using f(4,5) by auto
  have sa: "set al = {x \<in> set xs. \<not> cfree ?H x} - {f}" unfolding e by (rule b(6))
  have nb: "successively (not_both_free ?H) xs" by (rule not_both_free_mono [OF b(2)]) (use k' in blast)
  have sz: "\<And>x. x \<in> set al \<Longrightarrow> csz ?H x = csz H x" using k' b(6) by blast
  have nf: "\<not> cfree ?H f" by simp
  have "limbo ?H mm xs (hd_or 0 (us @ vs)) (us @ vs) al f"
    by (rule limboI [OF sep_update [OF H1(4) c] t nb l la sf sa f(1) nf b(7,8) sz])
  moreover have "touched (mm_start mm) (mm_start mm + mm_pool_size mm) H ?H"
  proof -
    have in_block: "\<And>x. x \<in> set xs \<Longrightarrow> mm_start mm \<le> x \<and> x < mm_start mm + mm_pool_size mm" using tiles_bounds [OF b(9)] by fastforce
    have "touched (mm_start mm) (mm_start mm + mm_pool_size mm) H H1"
      by (rule touched_relinked [OF H1(3)]) (use in_block b(5) f(1) in fastforce)+
    moreover have "touched (mm_start mm) (mm_start mm + mm_pool_size mm) H1 ?H"
      using in_block [OF f(1)] by (auto simp: touched_def chunk_sizes)
    ultimately show ?thesis by (rule touched_trans)
  qed
  ultimately show ?thesis using run k' by blast
qed

text \<open>
  A chunk is split: a new header is written behind the part that is taken, and the rest replaces the chunk in the free list.
\<close>

lemma split_headers:
  assumes "sep H" "block_inv H mm xs fs al" "f \<in> set xs" "hdr H f = Some c"
    and "MP_CHUNKHEADER + MP_CHUNKEND < need" "need + n = csz H f" "MP_CHUNKHEADER + MP_CHUNKEND < n"
  defines "H1 \<equiv> wrf (f + need + n - MP_CHUNKEND) (f + need) (wrh (f + need) (c\<lparr>ck_alloc_mem := n\<rparr>) H)"
  shows "sep H1" "hdr H1 (f + need) = Some (c\<lparr>ck_alloc_mem := n\<rparr>)" "\<And>x. x \<in> set xs \<Longrightarrow> hdr H1 x = hdr H x"
    "foot H1 (f + need) (f + csz H f)" "touched (f + need) (f + csz H f) H H1" "f + need \<notin> set xs"
proof -
  note b = block_invD [OF assms(2)]
  show "sep H1" unfolding H1_def using assms(1) by (simp add: sep_wrh sep_wrf)
  show "hdr H1 (f + need) = Some (c\<lparr>ck_alloc_mem := n\<rparr>)" unfolding H1_def using assms(7) by (auto simp: hdr_wrf hdr_wrh chunk_sizes)
  show "foot H1 (f + need) (f + csz H f)" unfolding H1_def using assms(6,7) by (simp add: ftr_wrf ac_simps)
  have "touched (f + need) (f + csz H f) H (wrh (f + need) (c\<lparr>ck_alloc_mem := n\<rparr>) H)"
    by (rule touched_mono [OF touched_wrh]) (use assms(6,7) in auto)
  moreover have "touched (f + need) (f + csz H f) (wrh (f + need) (c\<lparr>ck_alloc_mem := n\<rparr>) H) H1"
    unfolding H1_def by (rule touched_mono [OF touched_wrf]) (use assms(6,7) in auto)
  ultimately show t: "touched (f + need) (f + csz H f) H H1" by (rule touched_trans)
  show "\<And>x. x \<in> set xs \<Longrightarrow> hdr H1 x = hdr H x" by (rule tiles_touched [OF b(9) assms(3) t]) (use assms(5) in auto)
  show "f + need \<notin> set xs" using tiles_apart [OF b(9) assms(3), of "f + need"] assms(5-7) by auto
qed

lemma split_chunk_run:
  assumes "hdr H f = Some c" "f \<noteq> 0"
  shows "split_chunk need f flist H =
     rbind (if ck_prev c = 0
            then ok (f + need, wrf (f + need + (ck_alloc_mem c - need) - MP_CHUNKEND) (f + need) (wrh (f + need) (c\<lparr>ck_alloc_mem := ck_alloc_mem c - need\<rparr>) H))
            else rbind (rdh (wrf (f + need + (ck_alloc_mem c - need) - MP_CHUNKEND) (f + need) (wrh (f + need) (c\<lparr>ck_alloc_mem := ck_alloc_mem c - need\<rparr>) H)) (ck_prev c))
              (\<lambda>p. ok (flist, wrh (ck_prev c) (p\<lparr>ck_next := f + need\<rparr>)
                 (wrf (f + need + (ck_alloc_mem c - need) - MP_CHUNKEND) (f + need) (wrh (f + need) (c\<lparr>ck_alloc_mem := ck_alloc_mem c - need\<rparr>) H))))) (\<lambda>(fl, H2).
     rbind (if ck_next c = 0 then ok H2
            else rbind (rdh H2 (ck_next c)) (\<lambda>x. ok (wrh (ck_next c) (x\<lparr>ck_prev := f + need\<rparr>) H2))) (\<lambda>H3.
     rbind (rdh H3 f) (\<lambda>c3.
       ok (fl, wrf (f + need - MP_CHUNKEND) f (wrh f (c3\<lparr>ck_is_free := False, ck_alloc_mem := need\<rparr>) H3)))))"
  unfolding split_chunk_def Let_def using assms by (simp add: rdh_def [of H f])

text \<open>The block after the split, from what the store holds at the chunks and at the end pointers.\<close>

lemma split_feet:
  assumes "tiles H a (ls @ f # rs) e" "successively (foot H) (ls @ f # rs)"
    and "foot H' f (f + need)" "foot H' (f + need) (f + csz H f)"
    and "\<And>y. y \<in> set (ls @ f # rs) \<Longrightarrow> y \<noteq> f + csz H f \<Longrightarrow> ftr H' (y - MP_CHUNKEND) = ftr H (y - MP_CHUNKEND)"
  shows "successively (foot H') (ls @ f # (f + need) # rs)"
proof -
  have rs: "rs = [] \<or> hd rs = f + csz H f" using assms(1) by (cases rs) (auto simp: tiles_append)
  have dist: "distinct (ls @ f # rs)" by (rule tiles_distinct [OF assms(1)])
  have out: "f + csz H f \<notin> set (ls @ [f])"
    using tiles_sorted [OF assms(1)] tiles_bounds [OF assms(1), of f] by (fastforce simp: sorted_wrt_append)
  have in_ls: "ftr H' (y - MP_CHUNKEND) = ftr H (y - MP_CHUNKEND)" if "y \<in> set (ls @ [f])" for y
  proof (rule assms(5))
    show "y \<noteq> f + csz H f" using that out by metis
  qed (use that in auto)
  have "successively (foot H) (ls @ [f])" using assms(2) by (auto simp: successively_append_iff)
  then have 1: "successively (foot H') (ls @ [f])"
    by (rule successively_mono) (use in_ls in simp)
  have "successively (foot H) rs" using assms(2) by (auto simp: successively_append_iff successively_Cons)
  then have 2: "successively (foot H') rs"
  proof (cases rs)
    case (Cons z zs)
    then have "z = f + csz H f" using rs by simp
    then have n: "\<And>y. y \<in> set zs \<Longrightarrow> ftr H' (y - MP_CHUNKEND) = ftr H (y - MP_CHUNKEND)" using assms(5) dist Cons by auto
    have "successively (foot H) zs" "zs \<noteq> [] \<longrightarrow> foot H z (hd zs)" using \<open>successively (foot H) rs\<close> Cons by (auto simp: successively_Cons)
    then have "successively (foot H') zs" by (auto elim!: successively_mono simp: n)
    then show ?thesis using Cons n [of "hd zs"] \<open>zs \<noteq> [] \<longrightarrow> foot H z (hd zs)\<close> by (cases zs) auto
  qed simp
  show ?thesis using 1 2 assms(3,4) rs by (auto simp: successively_append_iff successively_Cons)
qed

lemma split_limbo:
  assumes "sep H'" "block_inv H mm (ls @ f # rs) (us @ f # vs) al"
    and "MP_CHUNKHEADER + MP_CHUNKEND < need" "need + n = csz H f" "MP_CHUNKHEADER + MP_CHUNKEND < n"
    and "map_option body (hdr H' f) = Some (need, False)" "map_option body (hdr H' (f + need)) = Some (n, True)"
    and body: "\<And>y. y \<in> set (ls @ rs) \<Longrightarrow> map_option body (hdr H' y) = map_option body (hdr H y)"
    and "\<And>y. y \<in> set al \<Longrightarrow> hdr H' y = hdr H y" "dlist (hdr H') fl (us @ (f + need) # vs)"
    and "foot H' f (f + need)" "foot H' (f + need) (f + csz H f)"
    and "\<And>y. y \<in> set (ls @ f # rs) \<Longrightarrow> y \<noteq> f + csz H f \<Longrightarrow> ftr H' (y - MP_CHUNKEND) = ftr H (y - MP_CHUNKEND)"
  shows "limbo H' mm (ls @ f # (f + need) # rs) fl (us @ (f + need) # vs) al f"
proof -
  note b = block_invD [OF assms(2)]
  have f: "cfree H f" "f \<notin> set al" using b(5,6) by auto
  have dist: "distinct (ls @ f # rs)" by (rule tiles_distinct [OF b(9)])
  have k: "csz H' y = csz H y" "cfree H' y = cfree H y" if "y \<in> set (ls @ rs)" for y
    using body_eq [OF body [OF that]] tiles_bounds [OF b(9), of y] that by auto
  have ff: "\<not> cfree H' f" "cfree H' (f + need)" using assms(6,7) by (auto simp: body_def)
  have t: "tiling H' (mm_start mm) (mm_start mm + mm_pool_size mm) (ls @ f # (f + need) # rs)"
    using tiles_split [OF b(9) assms(6,7,4,3,5) body] split_feet [OF b(9,10) assms(11,12,13)] b(11,12) by (simp add: tiling_def)
  have nb: "successively (not_both_free H') (ls @ f # (f + need) # rs)"
  proof -
    have "successively (not_both_free H) ls" "successively (not_both_free H) rs"
      using b(2) by (auto simp: successively_append_iff successively_Cons)
    then have "successively (not_both_free H') ls" "successively (not_both_free H') rs"
      by (auto elim!: not_both_free_mono simp: k)
    moreover have "rs \<noteq> [] \<longrightarrow> \<not> cfree H' (hd rs)" using b(2) f(1) k by (cases rs) (auto simp: successively_append_iff)
    ultimately show ?thesis using ff by (auto simp: successively_append_iff successively_Cons)
  qed
  have "f + need \<notin> set (ls @ rs)" using tiles_apart [OF b(9), of f "f + need"] assms(3-5) by auto
  moreover have "set us \<union> set vs = {x \<in> set (ls @ rs). cfree H x}"
    using b(3,5) dist unfolding dlist_def by auto
  ultimately have fs: "set (us @ (f + need) # vs) = {x \<in> set (ls @ f # (f + need) # rs). cfree H' x}" using ff k by auto
  have "set al = {x \<in> set (ls @ rs). \<not> cfree H x}" using b(6) f by auto
  then have al: "set al = {x \<in> set (ls @ f # (f + need) # rs). \<not> cfree H' x} - {f}" using ff k dist by auto
  have l: "dlist (hdr H') (mm_alloc_list mm) al" by (rule dlist_cong [OF b(4) assms(9)])
  have sz: "\<And>x. x \<in> set al \<Longrightarrow> csz H' x = csz H x" using assms(9) by simp
  show ?thesis by (rule limboI [OF assms(1) t nb assms(10) l fs al _ ff(1) b(7,8) sz]) simp_all
qed

text \<open>The rest takes the place of the chunk in the free list.\<close>

lemma split_relink:
  assumes "sep H" "dlist (hdr H) fl0 (us @ f # vs)" "hdr H f = Some c" "hdr H fr = Some (c\<lparr>ck_alloc_mem := n\<rparr>)"
    and "fr \<notin> set (us @ f # vs)" "fr \<noteq> 0"
  defines "H' \<equiv> patch us vs fr fr H"
  shows "sep H'" "relinked (set us \<union> set vs) H H'" "hdr H' f = Some c" "hdr H' fr = Some (c\<lparr>ck_alloc_mem := n\<rparr>)"
    "dlist (hdr H') (if us = [] then fr else fl0) (us @ fr # vs)"
proof -
  obtain d where c: "hdr H f = Some d" "ck_prev d = last_or 0 us" "ck_next d = hd_or 0 vs" "f \<noteq> 0"
    "dseg (hdr H) 0 us f" "dseg (hdr H) f vs 0" "distinct (us @ vs)" "0 \<notin> set (us @ vs)" "f \<notin> set us" "f \<notin> set vs" "fl0 = hd_or f us"
    by (rule dlist_split [OF assms(2)])
  show "sep H'" unfolding H'_def by (rule patch_sep [OF assms(1)])
  show r: "relinked (set us \<union> set vs) H H'" unfolding H'_def by (rule patch_relinked)
  show "hdr H' f = Some c" using relinkedD(3) [OF r, of f] c(9,10) assms(3) by simp
  show fr: "hdr H' fr = Some (c\<lparr>ck_alloc_mem := n\<rparr>)" using relinkedD(3) [OF r, of fr] assms(4,5) by simp
  have "dseg (hdr H') 0 us fr" "dseg (hdr H') fr vs 0" unfolding H'_def using patch_dseg [OF c(5-8)] by blast+
  moreover have "d = c" using c(1) assms(3) by simp
  moreover have "(if us = [] then fr else fl0) = hd_or 0 (us @ fr # vs)" using c(11) by (cases us) auto
  ultimately show "dlist (hdr H') (if us = [] then fr else fl0) (us @ fr # vs)"
    using fr c(2,3,7,8) assms(5,6) unfolding dlist_def dseg_append by simp
qed

lemma split_chunk_ok:
  assumes "sep H" "block_inv H mm (ls @ f # rs) (us @ f # vs) al"
    and "MP_CHUNKHEADER + MP_CHUNKEND < need" "need + n = csz H f" "MP_CHUNKHEADER + MP_CHUNKEND < n"
  shows "\<exists>fl H'. split_chunk need f (mm_free_list mm) H = ok (fl, H') \<and>
     limbo H' mm (ls @ f # (f + need) # rs) fl (us @ (f + need) # vs) al f \<and>
     touched (mm_start mm) (mm_start mm + mm_pool_size mm) H H' \<and> csz H' f = need \<and> (\<forall>x\<in>set al. csz H' x = csz H x)"
proof -
  let ?xs = "ls @ f # rs" and ?fr = "f + need"
  note b = block_invD [OF assms(2)]
  obtain c where c: "hdr H f = Some c" "ck_prev c = last_or 0 us" "ck_next c = hd_or 0 vs" "f \<noteq> 0"
    "dseg (hdr H) 0 us f" "dseg (hdr H) f vs 0" "distinct (us @ vs)" "0 \<notin> set (us @ vs)" "f \<notin> set us" "f \<notin> set vs" "mm_free_list mm = hd_or f us"
    by (rule dlist_split [OF b(3)])
  have f: "f \<in> set ?xs" "cfree H f" using b(5) by auto
  have nn: "ck_alloc_mem c - need = n" "ck_is_free c" using assms(4) c(1) f(2) by simp_all
  have sub: "set us \<subseteq> set ?xs" "set vs \<subseteq> set ?xs" "set al \<subseteq> set ?xs" using b(5,6) by auto
  have al: "set al \<inter> set us = {}" "set al \<inter> set vs = {}" "f \<notin> set al" using b(5,6) by auto
  define H1 where "H1 = wrf (f + need + n - MP_CHUNKEND) ?fr (wrh ?fr (c\<lparr>ck_alloc_mem := n\<rparr>) H)"
  note H1 = split_headers [OF assms(1,2) f(1) c(1) assms(3,4,5), folded H1_def]
  have d1: "dlist (hdr H1) (mm_free_list mm) (us @ f # vs)"
    by (rule dlist_cong [OF b(3)]) (use H1(3) sub f(1) in auto)
  have fr: "?fr \<notin> set (us @ f # vs)" "?fr \<noteq> 0" using H1(6) sub f(1) c(4) by auto
  have f1: "hdr H1 f = Some c" using H1(3) [OF f(1)] c(1) by simp
  have dd: "dseg (hdr H1) 0 us f" "dseg (hdr H1) f vs 0"
    using d1 unfolding dlist_def dseg_append by auto
  define H3 where "H3 = patch us vs ?fr ?fr H1"
  note H3 = split_relink [OF H1(1) d1 f1 H1(2) fr, folded H3_def]
  let ?c' = "c\<lparr>ck_is_free := False, ck_alloc_mem := need\<rparr>"
  define H4 where "H4 = H3\<lparr>hdr := (hdr H3)(f \<mapsto> ?c')\<rparr>"
  have s4: "sep H4" unfolding H4_def by (rule sep_update [OF H3(1,3)])
  define H5 where "H5 = wrf (?fr - MP_CHUNKEND) f H4"
  let ?fl = "if us = [] then ?fr else mm_free_list mm"
  have run: "split_chunk need f (mm_free_list mm) H = ok (?fl, H5)"
    unfolding split_chunk_run [OF c(1,4)] nn(1) c(2,3) H1_def [symmetric] patch_run [OF H1(1) dd c(7,8)] H3_def [symmetric]
    using H3(3) wrh_in_place [OF H3(1,3)] c(4) by (simp add: rdh_def H5_def H4_def)
  have bd: "\<And>x. x \<in> set ?xs \<Longrightarrow> mm_start mm \<le> x \<and> x < mm_start mm + mm_pool_size mm" using tiles_bounds [OF b(9)] by fastforce
  have e: "f + csz H f \<le> mm_start mm + mm_pool_size mm" using tiles_bounds [OF b(9) f(1)] by simp
  have "touched (mm_start mm) (mm_start mm + mm_pool_size mm) H H1"
    by (rule touched_mono [OF H1(5)]) (use bd [OF f(1)] e in auto)
  moreover have "touched (mm_start mm) (mm_start mm + mm_pool_size mm) H1 H3"
    by (rule touched_relinked [OF H3(2)]) (use bd sub f(1) in fastforce)+
  moreover have "touched (mm_start mm) (mm_start mm + mm_pool_size mm) H3 H4"
    using bd [OF f(1)] by (auto simp: touched_def chunk_sizes H4_def)
  moreover have "touched (mm_start mm) (mm_start mm + mm_pool_size mm) H4 H5" unfolding H5_def
    by (rule touched_mono [OF touched_wrf]) (use bd [OF f(1)] e assms(3-5) in auto)
  ultimately have touched: "touched (mm_start mm) (mm_start mm + mm_pool_size mm) H H5" by (meson touched_trans)
  have same: "hdr H5 y = hdr H4 y" if "y \<in> set ?xs \<or> y = ?fr" for y
  proof -
    have "y + MP_CHUNKHEADER \<le> ?fr - MP_CHUNKEND \<or> ?fr \<le> y"
      using that tiles_apart [OF b(9) f(1), of y] tiles_bounds [OF b(9), of y] assms(3,4) by (cases "y = f") auto
    then show ?thesis using assms(3) by (auto simp: hdr_wrf H5_def)
  qed
  have h_f: "hdr H5 f = Some ?c'" using same [of f] by (simp add: H4_def)
  have h_fr: "hdr H5 ?fr = Some (c\<lparr>ck_alloc_mem := n\<rparr>)" using same [of ?fr] H3(4) assms(3) by (simp add: H4_def)
  have neq: "y \<noteq> f" if "y \<in> set (ls @ rs)" for y using that tiles_distinct [OF b(9)] by auto
  have h: "map_option body (hdr H5 y) = map_option body (hdr H y)" if "y \<in> set (ls @ rs)" for y
    using same [of y] relinkedD(2) [OF H3(2), of y] H1(3) [of y] that neq [OF that] by (auto simp: H4_def)
  have h_al: "hdr H5 y = hdr H y" if "y \<in> set al" for y
  proof -
    have y: "y \<in> set ?xs" "y \<noteq> f" "y \<notin> set us \<union> set vs" using that al sub(3) by auto
    then show ?thesis using same [of y] relinkedD(3) [OF H3(2) y(3)] H1(3) [OF y(1)] by (simp add: H4_def)
  qed
  have ft: "ftr H5 y = ftr H1 y" if "y + MP_CHUNKEND \<le> ?fr - MP_CHUNKEND \<or> ?fr \<le> y" for y
    using that relinkedD(1) [OF H3(2)] assms(3) by (auto simp: ftr_wrf H5_def H4_def chunk_sizes)
  have old: "ftr H5 (y - MP_CHUNKEND) = ftr H (y - MP_CHUNKEND)" if "y \<in> set ?xs" "y \<noteq> f + csz H f" for y
  proof -
    have "y - MP_CHUNKEND + MP_CHUNKEND \<le> ?fr - MP_CHUNKEND \<or> ?fr \<le> y - MP_CHUNKEND"
      using tiles_apart [OF b(9) f(1) that(1)] assms(3-5) c(4) by (cases "y = f") (auto simp: chunk_sizes)
    then show ?thesis using ft foot_touched [OF b(9) f(1) H1(5) _ _ that(1)] that(2) assms(3) by auto
  qed
  have "?fr \<le> f + csz H f - MP_CHUNKEND" using assms(4,5) by simp
  then have feet: "foot H5 f ?fr" "foot H5 ?fr (f + csz H f)"
    using ft [of "f + csz H f - MP_CHUNKEND"] H1(4) by (simp_all add: H5_def ftr_wrf [of "?fr - MP_CHUNKEND" f H4 "?fr - MP_CHUNKEND"])
  have d5: "dlist (hdr H5) ?fl (us @ ?fr # vs)"
  proof (rule dlist_cong [OF H3(5)])
    fix y assume "y \<in> set (us @ ?fr # vs)"
    then show "hdr H5 y = hdr H3 y" using same [of y] sub c(9,10) fr(1) by (auto simp: H4_def)
  qed
  have "limbo H5 mm (ls @ f # ?fr # rs) ?fl (us @ ?fr # vs) al f"
    by (rule split_limbo [OF _ assms(2-5) _ _ h h_al d5 feet old])
      (simp_all add: h_f h_fr body_def nn sep_wrf [OF s4] H5_def [symmetric], simp add: H5_def sep_wrf [OF s4])
  then show ?thesis using run touched h_f h_al by auto
qed

text \<open>Taking a chunk keeps the invariant, and the chunks that are allocated already keep their sizes.\<close>

lemma limbo_touched:
  assumes "limbo H mm xs fl fs al f" "relinked (set xs) H H'"
  shows "touched (mm_start mm) (mm_start mm + mm_pool_size mm) H H'" "\<And>x. x \<in> set xs \<Longrightarrow> csz H' x = csz H x"
proof -
  have t: "tiles H (mm_start mm) xs (mm_start mm + mm_pool_size mm)" and f: "f \<in> set xs" using assms(1) unfolding limbo_def tiling_def by blast+
  show "touched (mm_start mm) (mm_start mm + mm_pool_size mm) H H'"
  proof (rule touched_relinked [OF assms(2)])
    fix x assume "x \<in> set xs"
    then show "mm_start mm \<le> x \<and> x < mm_start mm + mm_pool_size mm" using tiles_bounds [OF t] by fastforce
  qed (use tiles_bounds [OF t f] in simp)
  show "csz H' x = csz H x" if "x \<in> set xs" for x using relinked_csz(1) [OF assms(2)] tiles_bounds [OF t that] by blast
qed

lemma take_chunk_ok:
  assumes "sep H" "block_inv H mm xs fs al" "f \<in> set fs" "need \<le> csz H f" "MP_CHUNKHEADER + MP_CHUNKEND < need"
  shows "\<exists>mm' H' xs' fs'. take_chunk need f mm H = ok (f + MP_CHUNKHEADER, mm', H') \<and> sep H' \<and> block_inv H' mm' xs' fs' (f # al) \<and>
     touched (mm_start mm) (mm_start mm + mm_pool_size mm) H H' \<and> need \<le> csz H' f \<and> (\<forall>x\<in>set al. csz H' x = csz H x) \<and>
     mm_start mm' = mm_start mm \<and> mm_pool_size mm' = mm_pool_size mm"
proof -
  note b = block_invD [OF assms(2)]
  have f: "f \<in> set xs" "f \<noteq> 0" using b(3,5) assms(3) unfolding dlist_def by (blast, metis)
  obtain us vs where fs: "fs = us @ f # vs" using assms(3) by (auto dest: split_list)
  obtain ls rs where xs: "xs = ls @ f # rs" using f(1) by (auto dest: split_list)
  obtain c where c: "hdr H f = Some c" using tiles_bounds [OF b(9) f(1)] by blast
  have *: "\<exists>fl H1 xs' fs'. (if ck_alloc_mem c - need > MP_CHUNKHEADER + MP_CHUNKEND then split_chunk need f (mm_free_list mm) H
            else whole_chunk f (mm_free_list mm) H) = ok (fl, H1) \<and> limbo H1 mm xs' fl fs' al f \<and>
       touched (mm_start mm) (mm_start mm + mm_pool_size mm) H H1 \<and> need \<le> csz H1 f \<and> (\<forall>x\<in>set al. csz H1 x = csz H x)"
  proof (cases "ck_alloc_mem c - need > MP_CHUNKHEADER + MP_CHUNKEND")
    case True
    then have "need + (csz H f - need) = csz H f" "MP_CHUNKHEADER + MP_CHUNKEND < csz H f - need" using c by auto
    then show ?thesis using split_chunk_ok [OF assms(1) _ assms(5)] assms(2) True unfolding fs xs by fastforce
  next
    case False
    then show ?thesis using whole_chunk_ok [OF assms(1), of mm xs us f vs al] assms(2,4) f(1) b(6) unfolding fs by fastforce
  qed
  then obtain fl H1 xs' fs' where H1: "(if ck_alloc_mem c - need > MP_CHUNKHEADER + MP_CHUNKEND then split_chunk need f (mm_free_list mm) H
            else whole_chunk f (mm_free_list mm) H) = ok (fl, H1)" "limbo H1 mm xs' fl fs' al f"
       "touched (mm_start mm) (mm_start mm + mm_pool_size mm) H H1" "need \<le> csz H1 f" "\<forall>x\<in>set al. csz H1 x = csz H x" by blast
  note fin = take_finish [OF H1(2)]
  have in_xs: "f \<in> set xs'" "set al \<subseteq> set xs'" using H1(2) unfolding limbo_def by blast+
  obtain mm' H' where H': "take_chunk need f mm H = ok (f + MP_CHUNKHEADER, mm', H')" "sep H'" "block_inv H' mm' xs' fs' (f # al)"
     "relinked (set xs') H1 H'" "mm_start mm' = mm_start mm" "mm_pool_size mm' = mm_pool_size mm"
    using fin unfolding take_chunk_def rdh_def [of H f] by (auto simp: c f(2) H1(1) simp del: rbind_assoc)
  have "touched (mm_start mm) (mm_start mm + mm_pool_size mm) H H'"
    using touched_trans [OF H1(3) limbo_touched(1) [OF H1(2) H'(4)]] .
  moreover have "need \<le> csz H' f" "\<forall>x\<in>set al. csz H' x = csz H x"
    using limbo_touched(2) [OF H1(2) H'(4)] in_xs H1(4,5) by auto
  ultimately show ?thesis using H' by blast
qed

end
