(* ===== verification/PoolFree.thy ===== *)
theory PoolFree
  imports PoolBlock
begin

text \<open>
  Releasing a chunk: it moves to the free list and is joined with the free chunks to its left and to its right, after which
  the invariant of the block holds again.
\<close>

section \<open>Joining free chunks\<close>

text \<open>
  The state of the second loop of \<open>merge_free_chunk\<close>: \<open>p\<close> absorbs the free chunks that follow it. The pointer at its end is
  written only after the loop.
\<close>

definition merging :: "cmem \<Rightarrow> nat \<Rightarrow> nat \<Rightarrow> nat list \<Rightarrow> nat \<Rightarrow> nat list \<Rightarrow> nat \<Rightarrow> nat list \<Rightarrow> nat \<Rightarrow> nat list \<Rightarrow> bool" where
  "merging H a e ls p rs fl fs ah al \<longleftrightarrow>
     sep H \<and> 0 < a \<and> e < 2 ^ 63 \<and> tiles H a (ls @ p # rs) e \<and> successively (foot H) (ls @ [p]) \<and> successively (foot H) rs \<and> cfree H p \<and>
     dlist (hdr H) fl fs \<and> dlist (hdr H) ah al \<and> set fs = {x \<in> set (ls @ p # rs). cfree H x} \<and> set al = {x \<in> set (ls @ p # rs). \<not> cfree H x}"

lemma mergingD:
  assumes "merging H a e ls p rs fl fs ah al"
  shows "sep H" "0 < a" "e < 2 ^ 63" "tiles H a (ls @ p # rs) e" "successively (foot H) (ls @ [p])" "successively (foot H) rs" "cfree H p"
    "dlist (hdr H) fl fs" "dlist (hdr H) ah al" "set fs = {x \<in> set (ls @ p # rs). cfree H x}" "set al = {x \<in> set (ls @ p # rs). \<not> cfree H x}"
  using assms unfolding merging_def by blast+

text \<open>A change of the size or of the mark of a chunk leaves the lists alone.\<close>

lemma dlist_body:
  assumes "dlist h x xs" "h p = Some d" "ck_prev d' = ck_prev d" "ck_next d' = ck_next d"
  shows "dlist (h(p \<mapsto> d')) x xs"
  using assms dseg_links [of h 0 xs 0 "h(p \<mapsto> d')"] by (simp add: dlist_def)

definition resized :: "nat \<Rightarrow> nat \<Rightarrow> cmem \<Rightarrow> cmem \<Rightarrow> bool" where
  "resized p n H H' \<longleftrightarrow> ftr H' = ftr H \<and> map_option body (hdr H' p) = Some (n, True) \<and>
     (\<forall>y. y \<noteq> p \<longrightarrow> map_option body (hdr H' y) = map_option body (hdr H y))"

lemma merging_join:
  assumes "merging H a e ls p (q # rs) fl fs ah al" "cfree H q" "resized p (csz H p + csz H q) H H'" "sep H'"
    and "dlist (hdr H') fl' fs'" "set fs' = set fs - {q}" "dlist (hdr H') ah al"
  shows "merging H' a e ls p rs fl' fs' ah al"
proof -
  note m = mergingD [OF assms(1)]
  have dist: "distinct (ls @ p # q # rs)" by (rule tiles_distinct [OF m(4)])
  have h: "map_option body (hdr H' y) = map_option body (hdr H y)" if "y \<in> set (ls @ rs)" for y
    using assms(3) that dist by (auto simp: resized_def)
  have k: "cfree H' y = cfree H y" if "y \<in> set (ls @ rs)" for y
    using body_eq(2) [OF h [OF that]] tiles_bounds [OF m(4), of y] that by auto
  have p: "map_option body (hdr H' p) = Some (csz H p + csz H q, True)" using assms(3) by (simp add: resized_def)
  then have pf: "cfree H' p" by (auto simp: body_def)
  have t: "tiles H' a (ls @ p # rs) e" by (rule tiles_join [OF m(4) p h])
  have ft: "ftr H' = ftr H" using assms(3) by (simp add: resized_def)
  have e: "{x \<in> set (ls @ p # rs). cfree H' x} = {x \<in> set (ls @ p # rs). cfree H x}"
    "{x \<in> set (ls @ p # rs). \<not> cfree H' x} = {x \<in> set (ls @ p # rs). \<not> cfree H x}" using k pf m(7) by auto
  have "set fs' = {x \<in> set (ls @ p # rs). cfree H' x}" unfolding e assms(6) m(10) using dist by auto
  moreover have "set al = {x \<in> set (ls @ p # rs). \<not> cfree H' x}" unfolding e m(11) using assms(2) by auto
  moreover have "successively (foot H') rs" "successively (foot H') (ls @ [p])" unfolding ft using m(5,6) by (auto simp: successively_Cons)
  ultimately show ?thesis unfolding merging_def using t assms(4,5,7) m(2,3) pf by blast
qed

text \<open>One round of the loop.\<close>

lemma merge_round:
  assumes "merging H a e ls p (q # rs) fl fs ah al" "cfree H q"
  shows "\<exists>fl' fs' d0 H'. rbind (dlink_del fl q H) (\<lambda>(fl, H1). rbind (rdh H1 q) (\<lambda>d0. rbind (rdh H1 p) (\<lambda>d1.
           ok (fl, d0, wrh p (d1\<lparr>ck_alloc_mem := u64 (int (ck_alloc_mem d1 + ck_alloc_mem d0))\<rparr>) H1)))) = ok (fl', d0, H') \<and>
     ck_alloc_mem d0 = csz H q \<and> csz H' p = csz H p + csz H q \<and> merging H' a e ls p rs fl' fs' ah al \<and> touched a e H H' \<and>
     (\<forall>y. y \<noteq> p \<longrightarrow> map_option body (hdr H' y) = map_option body (hdr H y))"
proof -
  note m = mergingD [OF assms(1)]
  let ?xs = "ls @ p # q # rs"
  have pq: "p \<in> set ?xs" "q \<in> set ?xs" "p \<noteq> q" using tiles_distinct [OF m(4)] by auto
  have "q \<in> set fs" using m(10) assms(2) pq(2) by blast
  then obtain us vs where fs: "fs = us @ q # vs" by (auto dest: split_list)
  have q: "q \<notin> set (us @ vs)" "q \<noteq> 0" "p \<noteq> 0" using m(8) tiles_bounds [OF m(4) pq(1)] m(2) unfolding fs dlist_def by auto
  obtain H1 where H1: "dlink_del fl q H = ok (hd_or 0 (us @ vs), H1)" "dlist (hdr H1) (hd_or 0 (us @ vs)) (us @ vs)"
    "relinked (set us \<union> set vs) H H1" "sep H1" using dlink_del_ok [OF m(1), of fl us q vs] m(8) unfolding fs by blast
  have ex: "hdr H p \<noteq> None" "hdr H q \<noteq> None" using tiles_bounds [OF m(4)] pq by blast+
  obtain d0 d1 where d: "hdr H1 q = Some d0" "hdr H1 p = Some d1" "ck_alloc_mem d0 = csz H q" "ck_alloc_mem d1 = csz H p" "ck_is_free d1"
    using relinked_csz [OF H1(3) ex(1)] relinked_csz [OF H1(3) ex(2)] m(7) by fastforce
  have "p + csz H p = q" "q + csz H q \<le> e" using m(4) tiles_bounds [OF m(4) pq(2)] by (auto simp: tiles_append)
  then have u: "u64 (int (csz H p + csz H q)) = csz H p + csz H q" using m(3) by (intro u64_nat) auto
  let ?d = "d1\<lparr>ck_alloc_mem := csz H p + csz H q\<rparr>"
  let ?H = "H1\<lparr>hdr := (hdr H1)(p \<mapsto> ?d)\<rparr>"
  have run: "rbind (dlink_del fl q H) (\<lambda>(fl, H1). rbind (rdh H1 q) (\<lambda>d0. rbind (rdh H1 p) (\<lambda>d1.
           ok (fl, d0, wrh p (d1\<lparr>ck_alloc_mem := u64 (int (ck_alloc_mem d1 + ck_alloc_mem d0))\<rparr>) H1)))) = ok (hd_or 0 (us @ vs), d0, ?H)"
    using d q u wrh_in_place [OF H1(4) d(2)] by (simp add: H1(1) rdh_def)
  have keep: "map_option body (hdr ?H y) = map_option body (hdr H y)" if "y \<noteq> p" for y using relinkedD(2) [OF H1(3), of y] that by simp
  have "resized p (csz H p + csz H q) H ?H"
    using keep relinkedD(1) [OF H1(3)] d(5) by (simp add: resized_def body_def)
  moreover have "dlist (hdr ?H) (hd_or 0 (us @ vs)) (us @ vs)" using dlist_body [OF H1(2) d(2)] by simp
  moreover have "dlist (hdr ?H) ah al"
  proof -
    have "set al \<inter> set fs = {}" using m(10,11) by auto
    then have "set al \<inter> (set us \<union> set vs) = {}" unfolding fs by auto
    then show ?thesis using dlist_body [OF dlist_relinked [OF H1(3) m(9)] d(2)] by simp
  qed
  moreover have "set (us @ vs) = set fs - {q}" using q(1) unfolding fs by auto
  ultimately have "merging ?H a e ls p rs (hd_or 0 (us @ vs)) (us @ vs) ah al"
    using merging_join [OF assms(1,2) _ sep_update [OF H1(4) d(2)]] by blast
  moreover have "touched a e H ?H"
  proof -
    have bd: "a \<le> x \<and> x < e" if "x \<in> set ?xs" for x using tiles_bounds [OF m(4) that] by auto
    have "set us \<union> set vs \<subseteq> set ?xs" using m(10) unfolding fs by auto
    then have "touched a e H H1" by (intro touched_relinked [OF H1(3)]) (use bd pq(1) in fastforce)+
    moreover have "touched a e H1 ?H" using bd [OF pq(1)] by (auto simp: touched_def chunk_sizes)
    ultimately show ?thesis by (rule touched_trans)
  qed
  ultimately show ?thesis using run d(3) keep by (intro exI [of _ "hd_or 0 (us @ vs)"] exI [of _ "us @ vs"] exI [of _ d0] exI [of _ ?H]) simp
qed

lemma merge_right_step:
  assumes "hdr H q = Some c" "q \<noteq> 0" "q < e" "ck_is_free c"
    and "rbind (dlink_del fl q H) (\<lambda>(fl, H1). rbind (rdh H1 q) (\<lambda>d0. rbind (rdh H1 p) (\<lambda>d1.
           ok (fl, d0, wrh p (d1\<lparr>ck_alloc_mem := u64 (int (ck_alloc_mem d1 + ck_alloc_mem d0))\<rparr>) H1)))) = ok (fl1, d0, H1)"
  shows "merge_right e p q fl H = merge_right e p (q + ck_alloc_mem d0) fl1 H1"
  by (subst merge_right.simps) (simp only: assms(5), simp add: rdh_def assms(1-4))

text \<open>The loop ends at the first chunk that is not free, or at the end of the block.\<close>

lemma merge_right_ok:
  assumes "merging H a e ls p rs fl fs ah al"
  shows "\<exists>fl' H' ks rs' fs'. merge_right e p (p + csz H p) fl H = Some (ok (fl', H')) \<and> merging H' a e ls p rs' fl' fs' ah al \<and>
     rs = ks @ rs' \<and> (rs' = [] \<or> \<not> cfree H (hd rs')) \<and> touched a e H H' \<and>
     (\<forall>y. y \<noteq> p \<longrightarrow> map_option body (hdr H' y) = map_option body (hdr H y))"
  using assms
proof (induction rs arbitrary: H fl fs)
  case Nil
  then have "p + csz H p = e" using mergingD(4) [OF Nil] by (auto simp: tiles_append)
  then show ?case using Nil by (subst merge_right.simps) auto
next
  case (Cons q rs)
  note m = mergingD [OF Cons.prems]
  have q: "q = p + csz H p" using m(4) by (auto simp: tiles_append)
  have qx: "q \<in> set (ls @ p # q # rs)" "q \<noteq> p" using tiles_distinct [OF m(4)] by auto
  have lt: "q < e" "q \<noteq> 0" using tiles_bounds [OF m(4) qx(1)] m(2) by auto
  obtain c where c: "hdr H q = Some c" using tiles_bounds [OF m(4) qx(1)] by blast
  show ?case
  proof (cases "cfree H q")
    case False
    then have "merge_right e p (p + csz H p) fl H = Some (ok (fl, H))"
      unfolding q [symmetric] using c lt by (subst merge_right.simps) (simp add: rdh_def)
    moreover have "q # rs = [] @ q # rs" "\<not> cfree H (hd (q # rs))" using False by simp_all
    ultimately show ?thesis using Cons.prems touched_refl by blast
  next
    case True
    obtain fl1 fs1 d0 H1 where r: "rbind (dlink_del fl q H) (\<lambda>(fl, H1). rbind (rdh H1 q) (\<lambda>d0. rbind (rdh H1 p) (\<lambda>d1.
           ok (fl, d0, wrh p (d1\<lparr>ck_alloc_mem := u64 (int (ck_alloc_mem d1 + ck_alloc_mem d0))\<rparr>) H1)))) = ok (fl1, d0, H1)"
      "ck_alloc_mem d0 = csz H q" "csz H1 p = csz H p + csz H q" "merging H1 a e ls p rs fl1 fs1 ah al" "touched a e H H1"
      "\<forall>y. y \<noteq> p \<longrightarrow> map_option body (hdr H1 y) = map_option body (hdr H y)"
      using merge_round [OF Cons.prems True] by blast
    obtain fl' H' ks rs' fs' where IH: "merge_right e p (p + csz H1 p) fl1 H1 = Some (ok (fl', H'))" "merging H' a e ls p rs' fl' fs' ah al"
      "rs = ks @ rs'" "rs' = [] \<or> \<not> cfree H1 (hd rs')" "touched a e H1 H'"
      "\<forall>y. y \<noteq> p \<longrightarrow> map_option body (hdr H' y) = map_option body (hdr H1 y)"
      using Cons.IH [OF r(4)] by blast
    have "ck_is_free c" "q + ck_alloc_mem d0 = p + csz H1 p" using True c r(2,3) q by simp_all
    then have "merge_right e p (p + csz H p) fl H = Some (ok (fl', H'))"
      using merge_right_step [OF c lt(2,1) _ r(1)] IH(1) unfolding q [symmetric] by simp
    moreover have "rs' = [] \<or> \<not> cfree H (hd rs')"
    proof (cases rs')
      case (Cons z zs)
      have "z \<in> set (ls @ p # q # rs)" "z \<noteq> p" using tiles_distinct [OF m(4)] IH(3) Cons by auto
      then have "cfree H1 z = cfree H z" using body_eq(2) r(6) tiles_bounds [OF m(4)] by blast
      then show ?thesis using IH(4) Cons by simp
    qed simp
    moreover have "q # rs = (q # ks) @ rs'" using IH(3) by simp
    ultimately show ?thesis using IH(2,6) r(6) touched_trans [OF r(5) IH(5)] by metis
  qed
qed

section \<open>To the left\<close>

text \<open>The first loop follows the pointers in front of the chunks, as long as the chunks are free.\<close>

lemma merge_left_nonfree: "hdr H x \<noteq> None \<Longrightarrow> x \<noteq> 0 \<Longrightarrow> \<not> cfree H x \<Longrightarrow> merge_left H a x p = Some (ok p)"
  by (subst merge_left.simps) (auto simp: rdh_def)

lemma merge_left_first: "hdr H a \<noteq> None \<Longrightarrow> a \<noteq> 0 \<Longrightarrow> cfree H a \<Longrightarrow> merge_left H a a p = Some (ok a)"
  by (subst merge_left.simps) (auto simp: rdh_def)

lemma merge_left_step:
  assumes "tiles H a (ls @ l # x # rs) e" "foot H l x" "0 < a" "cfree H x"
  shows "merge_left H a x p = merge_left H a l x"
proof -
  have x: "x = l + csz H l" "hdr H x \<noteq> None" "x \<noteq> 0" "a \<le> l" "MP_CHUNKHEADER + MP_CHUNKEND < csz H l"
    using assms(1,3) tiles_bounds [OF assms(1), of l] by (auto simp: tiles_append)
  then have "\<not> x \<le> a + MP_CHUNKEND + MP_CHUNKHEADER" by simp
  then show ?thesis using assms(2,4) x(2,3) by (subst merge_left.simps) (auto simp: rdh_def rdf_def)
qed

lemma merge_left_ok:
  assumes "tiles H a (ls @ x # rs) e" "successively (foot H) (ls @ x # rs)" "successively (not_both_free H) ls" "0 < a" "cfree H x"
  shows "merge_left H a x x = Some (ok (if ls \<noteq> [] \<and> cfree H (last ls) then last ls else x))"
proof (cases ls rule: rev_cases)
  case Nil
  then have "x = a" "hdr H x \<noteq> None" using assms(1) by auto
  then show ?thesis using Nil merge_left_first assms(4,5) by simp
next
  case (snoc ks l)
  have t: "tiles H a (ks @ l # x # rs) e" "foot H l x" using assms(1,2) snoc by (auto simp: successively_append_iff)
  have l: "hdr H l \<noteq> None" "l \<noteq> 0" using tiles_bounds [OF t(1), of l] assms(4) by auto
  have 1: "merge_left H a x x = merge_left H a l x" by (rule merge_left_step [OF t assms(4,5)])
  show ?thesis
  proof (cases "cfree H l")
    case False then show ?thesis using 1 merge_left_nonfree [OF l] snoc by simp
  next
    case True
    show ?thesis
    proof (cases ks rule: rev_cases)
      case Nil
      then have "l = a" using t(1) by simp
      then show ?thesis using 1 merge_left_first l True snoc by simp
    next
      case (snoc js j)
      then have t': "tiles H a (js @ j # l # x # rs) e" "foot H j l" "\<not> cfree H j"
        using t(1) assms(2,3) \<open>ls = ks @ [l]\<close> True by (auto simp: successively_append_iff)
      have "hdr H j \<noteq> None" "j \<noteq> 0" using tiles_bounds [OF t'(1), of j] assms(4) by auto
      then show ?thesis using 1 merge_left_step [OF t'(1,2) assms(4) True] merge_left_nonfree t'(3) True \<open>ls = ks @ [l]\<close> by simp
    qed
  qed
qed

section \<open>Releasing a chunk\<close>

text \<open>The invariant of a block without the coalescing of its free chunks.\<close>

definition block_core :: "cmem \<Rightarrow> MP_Memory \<Rightarrow> nat list \<Rightarrow> nat list \<Rightarrow> nat list \<Rightarrow> bool" where
  "block_core H mm xs fs al \<longleftrightarrow> tiling H (mm_start mm) (mm_start mm + mm_pool_size mm) xs \<and>
     dlist (hdr H) (mm_free_list mm) fs \<and> dlist (hdr H) (mm_alloc_list mm) al \<and>
     set fs = {x \<in> set xs. cfree H x} \<and> set al = {x \<in> set xs. \<not> cfree H x} \<and>
     mm_alloc_mem mm = (\<Sum>x\<leftarrow>al. csz H x) \<and> mm_alloc_prog_mem mm = (\<Sum>x\<leftarrow>al. csz H x - (MP_CHUNKHEADER + MP_CHUNKEND))"

lemma block_inv_core: "block_inv H mm xs fs al \<longleftrightarrow> block_core H mm xs fs al \<and> successively (not_both_free H) xs"
  unfolding block_inv_def block_core_def by blast

lemma block_coreI:
  assumes "tiling H (mm_start mm) (mm_start mm + mm_pool_size mm) xs"
    and "dlist (hdr H) (mm_free_list mm) fs" "dlist (hdr H) (mm_alloc_list mm) al"
    and "set fs = {x \<in> set xs. cfree H x}" "set al = {x \<in> set xs. \<not> cfree H x}"
    and "mm_alloc_mem mm = (\<Sum>x\<leftarrow>al. csz G x)" "mm_alloc_prog_mem mm = (\<Sum>x\<leftarrow>al. csz G x - (MP_CHUNKHEADER + MP_CHUNKEND))"
    and "\<And>x. x \<in> set al \<Longrightarrow> csz H x = csz G x"
  shows "block_core H mm xs fs al"
  unfolding block_core_def by (intro conjI assms(1-5)) (simp_all only: sums_cong [OF assms(8)] assms(6,7))

lemma release_lists:
  assumes "sep H" "block_inv H mm xs fs (us @ ck # vs)"
  shows "\<exists>H1 H2 c. dlink_del (mm_alloc_list mm) ck H = ok (hd_or 0 (us @ vs), H1) \<and> dlink_ins (mm_free_list mm) ck H1 = ok (ck, H2) \<and> sep H2 \<and> relinked (set xs) H H2 \<and> hdr H2 ck = Some c \<and>
       dlist (hdr H2) (hd_or 0 (us @ vs)) (us @ vs) \<and> dlist (hdr H2) ck (ck # fs)"
proof -
  note b = block_invD [OF assms(2)]
  have ck: "ck \<in> set xs" "\<not> cfree H ck" "ck \<noteq> 0" "ck \<notin> set (us @ vs)" using b(4,6) by (auto simp: dlist_def)
  have disj: "set fs \<inter> set (us @ ck # vs) = {}" unfolding b(5,6) by auto
  obtain H1 where H1: "dlink_del (mm_alloc_list mm) ck H = ok (hd_or 0 (us @ vs), H1)" "dlist (hdr H1) (hd_or 0 (us @ vs)) (us @ vs)"
    "relinked (set us \<union> set vs) H H1" "sep H1" using dlink_del_ok [OF assms(1) b(4)] by blast
  obtain d where d: "hdr H1 ck = Some d" using relinked_csz(3) [OF H1(3)] tiles_bounds [OF b(9) ck(1)] by blast
  have f1: "dlist (hdr H1) (mm_free_list mm) fs" by (rule dlist_relinked [OF H1(3) b(3)]) (use disj in auto)
  obtain H2 where H2: "dlink_ins (mm_free_list mm) ck H1 = ok (ck, H2)" "dlist (hdr H2) ck (ck # fs)" "relinked (insert ck (set fs)) H1 H2" "sep H2"
    using dlink_ins_ok [OF H1(4) f1 _ ck(3) d] disj by auto
  obtain c where c: "hdr H2 ck = Some c" using relinked_csz(3) [OF H2(3)] d by blast
  have "dlist (hdr H2) (hd_or 0 (us @ vs)) (us @ vs)"
    by (rule dlist_relinked [OF H2(3) H1(2)]) (use disj ck(4) in auto)
  moreover have "relinked (set xs) H H2"
  proof (rule relinked_mono [OF relinked_trans [OF H1(3) H2(3)]])
    have "set (us @ ck # vs) \<subseteq> set xs" "set fs \<subseteq> set xs" unfolding b(5,6) by auto
    then show "set us \<union> set vs \<union> insert ck (set fs) \<subseteq> set xs" by auto
  qed
  ultimately show ?thesis using H1(1) H2 c by blast
qed

lemma release_chunk_ok:
  assumes "sep H" "block_inv H mm xs fs (us @ ck # vs)"
  shows "\<exists>mm' H'. release_chunk ck mm H = ok (mm', H') \<and> sep H' \<and> block_core H' mm' xs (ck # fs) (us @ vs) \<and>
     touched (mm_start mm) (mm_start mm + mm_pool_size mm) H H' \<and> mm_start mm' = mm_start mm \<and> mm_pool_size mm' = mm_pool_size mm \<and>
     (\<forall>x\<in>set xs. csz H' x = csz H x \<and> cfree H' x = (cfree H x \<or> x = ck))"
proof -
  note b = block_invD [OF assms(2)]
  have ck: "ck \<in> set xs" "\<not> cfree H ck" "ck \<notin> set (us @ vs)" using b(4,6) by (auto simp: dlist_def)
  obtain H1 H2 c where d: "dlink_del (mm_alloc_list mm) ck H = ok (hd_or 0 (us @ vs), H1)" "dlink_ins (mm_free_list mm) ck H1 = ok (ck, H2)"
     and H2: "sep H2" "relinked (set xs) H H2" "hdr H2 ck = Some c" "dlist (hdr H2) (hd_or 0 (us @ vs)) (us @ vs)" "dlist (hdr H2) ck (ck # fs)"
    using release_lists [OF assms] by blast
  have "ck \<noteq> 0" using H2(5) by (auto simp: dlist_def)
  then have run: "release_chunk ck mm H = ok (mm\<lparr>mm_alloc_list := hd_or 0 (us @ vs), mm_free_list := ck,
              mm_alloc_mem := u64 (int (mm_alloc_mem mm) - int (ck_alloc_mem c)),
              mm_alloc_prog_mem := u64 (int (mm_alloc_prog_mem mm) - int (ck_alloc_mem c) + int (MP_CHUNKHEADER + MP_CHUNKEND))\<rparr>,
           wrh ck (c\<lparr>ck_is_free := True\<rparr>) H2)" using H2(3) by (simp add: release_chunk_def d rdh_def)
  have ex: "hdr H x \<noteq> None \<and> MP_CHUNKHEADER + MP_CHUNKEND < csz H x" if "x \<in> set xs" for x using tiles_bounds [OF b(9) that] by blast
  have k2: "csz H2 x = csz H x \<and> cfree H2 x = cfree H x \<and> hdr H2 x \<noteq> None" if "x \<in> set xs" for x
    using relinked_csz [OF H2(2)] ex [OF that] by blast
  have c: "ck_alloc_mem c = csz H ck" using k2 [OF ck(1)] H2(3) by simp
  let ?H = "H2\<lparr>hdr := (hdr H2)(ck \<mapsto> c\<lparr>ck_is_free := True\<rparr>)\<rparr>"
  have w: "wrh ck (c\<lparr>ck_is_free := True\<rparr>) H2 = ?H" by (rule wrh_in_place [OF H2(1,3)])
  have k: "csz ?H x = csz H x \<and> cfree ?H x = (cfree H x \<or> x = ck)" if "x \<in> set xs" for x using k2 [OF that] c by auto
  have "tiles ?H a xs e" if "tiles H2 a xs e" for a e using that H2(3) by (induction xs arbitrary: a) auto
  then have t: "tiling ?H (mm_start mm) (mm_start mm + mm_pool_size mm) xs" using tiling_relinked [OF H2(2) b(1)] by (simp add: tiling_def)
  have l: "dlist (hdr ?H) ck (ck # fs)" "dlist (hdr ?H) (hd_or 0 (us @ vs)) (us @ vs)"
    using dlist_body [OF H2(5,3)] dlist_body [OF H2(4,3)] by simp_all
  have e: "{x \<in> set xs. cfree ?H x} = insert ck {x \<in> set xs. cfree H x}" "{x \<in> set xs. \<not> cfree ?H x} = {x \<in> set xs. \<not> cfree H x} - {ck}"
    using k ck(1) by blast+
  have sets: "set (ck # fs) = {x \<in> set xs. cfree ?H x}" "set (us @ vs) = {x \<in> set xs. \<not> cfree ?H x}"
    unfolding e b(5,6) [symmetric] using ck(3) by auto
  have al: "set (us @ vs) \<subseteq> set xs" using b(6) by auto
  then have sz: "csz ?H x = csz H x" if "x \<in> set (us @ vs)" for x using k that by blast
  have u: "u64 (int (mm_alloc_mem mm) - int (csz H ck)) = (\<Sum>x\<leftarrow>us @ vs. csz H x)"
    "u64 (int (mm_alloc_prog_mem mm) - int (csz H ck) + int (MP_CHUNKHEADER + MP_CHUNKEND)) = (\<Sum>x\<leftarrow>us @ vs. csz H x - (MP_CHUNKHEADER + MP_CHUNKEND))"
  proof -
    have "mm_alloc_mem mm \<le> mm_pool_size mm"
      using alloc_sum [OF b(9), of "us @ ck # vs"] b(4,6,7) unfolding dlist_def by auto
    moreover have "mm_alloc_prog_mem mm \<le> mm_alloc_mem mm" unfolding b(7,8) by (rule sum_list_mono) simp
    ultimately show "u64 (int (mm_alloc_mem mm) - int (csz H ck)) = (\<Sum>x\<leftarrow>us @ vs. csz H x)"
      "u64 (int (mm_alloc_prog_mem mm) - int (csz H ck) + int (MP_CHUNKHEADER + MP_CHUNKEND)) = (\<Sum>x\<leftarrow>us @ vs. csz H x - (MP_CHUNKHEADER + MP_CHUNKEND))"
      using b(7,8,12) ex [OF ck(1)] by (intro u64_nat; auto simp: of_nat_diff)+
  qed
  have "touched (mm_start mm) (mm_start mm + mm_pool_size mm) H H2"
    by (rule touched_relinked [OF H2(2)]) (use tiles_bounds [OF b(9)] ck(1) in fastforce)+
  moreover have "touched (mm_start mm) (mm_start mm + mm_pool_size mm) H2 ?H"
    using tiles_bounds [OF b(9) ck(1)] by (auto simp: touched_def chunk_sizes)
  ultimately have "touched (mm_start mm) (mm_start mm + mm_pool_size mm) H ?H" by (rule touched_trans)
  moreover let ?mm = "mm\<lparr>mm_alloc_list := hd_or 0 (us @ vs), mm_free_list := ck, mm_alloc_mem := (\<Sum>x\<leftarrow>us @ vs. csz H x),
       mm_alloc_prog_mem := (\<Sum>x\<leftarrow>us @ vs. csz H x - (MP_CHUNKHEADER + MP_CHUNKEND))\<rparr>"
  have "block_core ?H ?mm xs (ck # fs) (us @ vs)"
    by (rule block_coreI [OF _ _ _ sets _ _ sz]) (use t l in simp_all)
  moreover have "release_chunk ck mm H = ok (?mm, ?H)" unfolding run w c u ..
  ultimately show ?thesis using sep_update [OF H2(1,3)] k by (intro exI [of _ ?mm] exI [of _ ?H]) simp
qed

text \<open>After the loop, the pointer at the end of the joined chunk is written.\<close>

lemma merging_end:
  assumes "merging H a e ls p rs fl fs ah al"
  defines "H' \<equiv> wrf (p + csz H p - MP_CHUNKEND) p H"
  shows "sep H'" "tiling H' a e (ls @ p # rs)" "\<And>x. x \<in> set (ls @ p # rs) \<Longrightarrow> hdr H' x = hdr H x" "touched a e H H'"
proof -
  note m = mergingD [OF assms(1)]
  let ?xs = "ls @ p # rs"
  have p: "p \<in> set ?xs" by simp
  have bp: "a \<le> p" "p + csz H p \<le> e" "MP_CHUNKHEADER + MP_CHUNKEND < csz H p" using tiles_bounds [OF m(4) p] by auto
  show "sep H'" unfolding H'_def by (rule sep_wrf [OF m(1)])
  have t: "touched (p + csz H p - MP_CHUNKEND) (p + csz H p) H H'"
    unfolding H'_def by (rule touched_mono [OF touched_wrf]) (use bp in auto)
  show "touched a e H H'" by (rule touched_mono [OF t]) (use bp in auto)
  have lo: "p + MP_CHUNKHEADER \<le> p + csz H p - MP_CHUNKEND" using bp(3) by simp
  show h: "hdr H' x = hdr H x" if "x \<in> set ?xs" for x by (rule tiles_touched [OF m(4) p t lo _ that]) simp
  have old: "ftr H' (y - MP_CHUNKEND) = ftr H (y - MP_CHUNKEND)" if "y \<in> set ?xs" "y \<noteq> p + csz H p" for y
    by (rule foot_touched [OF m(4) p t lo _ that(1)]) (use that(2) in auto)
  have new: "foot H' p (p + csz H p)" unfolding H'_def by (simp add: ftr_wrf)
  have rs: "rs = [] \<or> hd rs = p + csz H p" using m(4) by (cases rs) (auto simp: tiles_append)
  have dist: "distinct ?xs" by (rule tiles_distinct [OF m(4)])
  have out: "p + csz H p \<notin> set (ls @ [p])"
    using tiles_sorted [OF m(4)] bp(3) by (fastforce simp: sorted_wrt_append)
  have "successively (foot H') (ls @ [p])"
  proof (rule successively_mono [OF m(5)])
    fix x y assume "y \<in> set (ls @ [p])" "foot H x y"
    moreover from this have "y \<noteq> p + csz H p" using out by metis
    ultimately show "foot H' x y" using old [of y] by auto
  qed
  moreover have "successively (foot H') rs"
  proof (cases rs)
    case (Cons z zs)
    then have n: "ftr H' (y - MP_CHUNKEND) = ftr H (y - MP_CHUNKEND)" if "y \<in> set zs" for y using old [of y] dist rs that by auto
    have "successively (foot H) zs" "zs \<noteq> [] \<longrightarrow> foot H z (hd zs)" using m(6) Cons by (auto simp: successively_Cons)
    then show ?thesis using Cons n [of "hd zs"] by (cases zs) (auto elim!: successively_mono simp: n)
  qed simp
  ultimately have "successively (foot H') ?xs" using new rs by (auto simp: successively_append_iff successively_Cons)
  moreover have "tiles H' a ?xs e" by (rule tiles_body [OF m(4)]) (simp add: h)
  ultimately show "tiling H' a e ?xs" using m(2,3) by (simp add: tiling_def)
qed

text \<open>Where the merging starts: at the released chunk, or at the free chunk in front of it.\<close>

lemma merging_start:
  assumes "sep H" "block_core H mm xs fs al" "xs = ls @ p # rs" "cfree H p"
  shows "merging H (mm_start mm) (mm_start mm + mm_pool_size mm) ls p rs (mm_free_list mm) fs (mm_alloc_list mm) al"
proof -
  have "successively (foot H) xs" using assms(2) by (simp add: block_core_def tiling_def)
  then have "successively (foot H) (ls @ [p])" "successively (foot H) rs" unfolding assms(3) by (auto simp: successively_append_iff successively_Cons)
  then show ?thesis using assms unfolding merging_def block_core_def tiling_def assms(3) by blast
qed

text \<open>
  \<open>merge_free_chunk\<close> after a release: the chunks on either side of the released one were coalesced, and the whole block is
  when it returns. The size of the block has to be that of the pool, which bounds the loop.
\<close>

lemma merge_free_chunk_ok:
  assumes "sep H" "block_core H mm (ls @ ck # rs) fs al" "cfree H ck" "successively (not_both_free H) ls" "successively (not_both_free H) rs"
    and "mm_pool_size mm = psz"
  shows "\<exists>mm' H' xs' fs'. merge_free_chunk psz mm ck H = Some (ok (mm', H')) \<and> sep H' \<and> block_inv H' mm' xs' fs' al \<and>
     touched (mm_start mm) (mm_start mm + mm_pool_size mm) H H' \<and> mm_start mm' = mm_start mm \<and> mm_pool_size mm' = mm_pool_size mm \<and>
     (\<forall>x\<in>set al. csz H' x = csz H x)"
proof -
  let ?a = "mm_start mm" and ?e = "mm_start mm + mm_pool_size mm"
  have t: "tiles H ?a (ls @ ck # rs) ?e" "successively (foot H) (ls @ ck # rs)" "0 < ?a" using assms(2) by (auto simp: block_core_def tiling_def)
  define p where "p = (if ls \<noteq> [] \<and> cfree H (last ls) then last ls else ck)"
  obtain js qs where xs: "ls @ ck # rs = js @ p # qs" and p: "cfree H p" and js: "successively (not_both_free H) (js @ [p])"
    and qs: "qs = rs \<or> qs = ck # rs"
  proof (cases "ls \<noteq> [] \<and> cfree H (last ls)")
    case True
    then show ?thesis using that [of "butlast ls" "ck # rs"] assms(4) by (simp add: p_def)
  next
    case False
    then show ?thesis using that [of ls rs] assms(3,4) by (auto simp: p_def successively_append_iff)
  qed
  have left: "merge_left H ?a ck ck = Some (ok p)" unfolding p_def by (rule merge_left_ok [OF t(1,2) assms(4) t(3) assms(3)])
  have px: "p \<in> set (ls @ ck # rs)" unfolding xs by simp
  obtain c where c: "hdr H p = Some c" "p \<noteq> 0" using tiles_bounds [OF t(1) px] t(3) by auto
  have m: "merging H ?a ?e js p qs (mm_free_list mm) fs (mm_alloc_list mm) al" by (rule merging_start [OF assms(1,2) xs p])
  obtain fl' H1 ks rs' fs' where r: "merge_right ?e p (p + csz H p) (mm_free_list mm) H = Some (ok (fl', H1))"
     "merging H1 ?a ?e js p rs' fl' fs' (mm_alloc_list mm) al" "qs = ks @ rs'" "rs' = [] \<or> \<not> cfree H (hd rs')" "touched ?a ?e H H1"
     "\<forall>y. y \<noteq> p \<longrightarrow> map_option body (hdr H1 y) = map_option body (hdr H y)" using merge_right_ok [OF m] by blast
  note m1 = mergingD [OF r(2)]
  obtain d where d: "hdr H1 p = Some d" using tiles_bounds [OF m1(4), of p] by auto
  let ?H = "wrf (p + csz H1 p - MP_CHUNKEND) p H1" and ?mm = "mm\<lparr>mm_free_list := fl'\<rparr>"
  note e = merging_end [OF r(2)]
  have run: "merge_free_chunk psz mm ck H = Some (ok (?mm, ?H))"
    using left c r(1) d assms(6) by (simp add: merge_free_chunk_def rdh_def)
  have same: "csz H1 x = csz H x \<and> cfree H1 x = cfree H x" if "x \<in> set (ls @ ck # rs)" "x \<noteq> p" for x
    using body_eq [of H1 x H] r(6) that(2) tiles_bounds [OF t(1) that(1)] by blast
  have al: "x \<in> set (ls @ ck # rs) \<and> x \<noteq> p" if "x \<in> set al" for x using assms(2) p that unfolding block_core_def by blast
  have alx: "x \<in> set (js @ p # rs')" if "x \<in> set al" for x using m1(11) that by blast
  have sz: "csz ?H x = csz H x" if "x \<in> set al" for x using e(3) [OF alx [OF that]] same al that by simp
  have dl: "dlist (hdr ?H) fl' fs'" by (rule dlist_cong [OF m1(8) e(3)]) (use m1(10) in blast)
  have da: "dlist (hdr ?H) (mm_alloc_list mm) al" by (rule dlist_cong [OF m1(9) e(3)]) (use alx in blast)
  have e2: "{x \<in> set (js @ p # rs'). cfree ?H x} = {x \<in> set (js @ p # rs'). cfree H1 x}"
    "{x \<in> set (js @ p # rs'). \<not> cfree ?H x} = {x \<in> set (js @ p # rs'). \<not> cfree H1 x}" using e(3) by auto
  have "block_core ?H ?mm (js @ p # rs') fs' al"
  proof (rule block_coreI [where G = H])
    show "set fs' = {x \<in> set (js @ p # rs'). cfree ?H x}" unfolding e2 by (rule m1(10))
    show "set al = {x \<in> set (js @ p # rs'). \<not> cfree ?H x}" unfolding e2 by (rule m1(11))
    have "mm_alloc_mem mm = (\<Sum>x\<leftarrow>al. csz H x)" "mm_alloc_prog_mem mm = (\<Sum>x\<leftarrow>al. csz H x - (MP_CHUNKHEADER + MP_CHUNKEND))"
      using assms(2) unfolding block_core_def by blast+
    then show "mm_alloc_mem ?mm = (\<Sum>x\<leftarrow>al. csz H x)" "mm_alloc_prog_mem ?mm = (\<Sum>x\<leftarrow>al. csz H x - (MP_CHUNKHEADER + MP_CHUNKEND))"
      by simp_all
  qed (use e(2) dl da in simp_all, rule sz)
  moreover have "successively (not_both_free ?H) (js @ p # rs')"
  proof -
    have suffix: "successively (not_both_free H) rs'"
    proof (cases "qs = rs")
      case True
      then have "rs = ks @ rs'" using r(3) by simp
      then show ?thesis using assms(5) by (simp add: successively_append_iff)
    next
      case False
      then have "ks \<noteq> []" using qs r(3,4) assms(3) by (cases ks) auto
      then obtain ks' where "rs = ks' @ rs'" using False qs r(3) by (cases ks) auto
      then show ?thesis using assms(5) by (simp add: successively_append_iff)
    qed
    have dist: "distinct (js @ p # rs')" by (rule tiles_distinct [OF m1(4)])
    have free: "cfree ?H x = cfree H x" if "x \<in> set (js @ rs')" for x
    proof -
      have "x \<in> set (ls @ ck # rs)" "x \<noteq> p" using that dist unfolding xs r(3) by auto
      then show ?thesis using same [of x] e(3) [of x] that by auto
    qed
    have "successively (not_both_free ?H) rs'" by (rule not_both_free_mono [OF suffix]) (use free in auto)
    moreover have "successively (not_both_free ?H) js" by (rule not_both_free_mono [of H]) (use js free in \<open>auto simp: successively_append_iff\<close>)
    moreover have "js \<noteq> [] \<longrightarrow> \<not> cfree ?H (last js)" using js free [of "last js"] p by (auto simp: successively_append_iff)
    moreover have "rs' \<noteq> [] \<longrightarrow> \<not> cfree ?H (hd rs')" using r(4) free [of "hd rs'"] by auto
    ultimately show ?thesis by (auto simp: successively_append_iff successively_Cons)
  qed
  ultimately show ?thesis using run e(1) touched_trans [OF r(5) e(4)] sz by (auto simp: block_inv_core)
qed

end
