(* ===== verification/PoolApi.thy ===== *)
theory PoolApi
  imports PoolFree
begin

text \<open>
  The memory pool as its callers see it: a set of allocated regions. An allocation adds a region that is disjoint from all
  others, a release removes it, and what the application writes inside its regions does not harm the pool. The contract is
  the locale \<open>allocator\<close>; the pool is an instance.
\<close>

section \<open>Regions of a block\<close>

definition region :: "cmem \<Rightarrow> nat \<Rightarrow> nat \<times> nat" where
  "region H x = (x + MP_CHUNKHEADER, csz H x - (MP_CHUNKHEADER + MP_CHUNKEND))"

definition holds :: "cmem \<Rightarrow> MP_Memory \<Rightarrow> (nat \<times> nat) set \<Rightarrow> bool" where
  "holds H mm A \<longleftrightarrow> (\<exists>xs fs al. block_inv H mm xs fs al \<and> A = region H ` set al)"

definition mm_end :: "MP_Memory \<Rightarrow> nat" where
  "mm_end mm = mm_start mm + mm_pool_size mm"

definition apart :: "MP_Memory \<Rightarrow> MP_Memory \<Rightarrow> bool" where
  "apart m n \<longleftrightarrow> mm_end m \<le> mm_start n \<or> mm_end n \<le> mm_start m"

lemma apart_sym: "apart m n \<Longrightarrow> apart n m"
  by (auto simp: apart_def)

lemma holds_bounds:
  assumes "holds H mm A" "(p, n) \<in> A" shows "mm_start mm + MP_CHUNKHEADER \<le> p \<and> 0 < n \<and> p + n + MP_CHUNKEND \<le> mm_end mm"
proof -
  obtain xs fs al where b: "block_inv H mm xs fs al" "A = region H ` set al" using assms(1) by (auto simp: holds_def)
  then obtain x where x: "x \<in> set al" "p = x + MP_CHUNKHEADER" "n = csz H x - (MP_CHUNKHEADER + MP_CHUNKEND)"
    using assms(2) by (auto simp: region_def)
  have "x \<in> set xs" using block_invD(6) [OF b(1)] x(1) by blast
  then show ?thesis using tiles_bounds [OF block_invD(9) [OF b(1)]] x(2,3) by (fastforce simp: mm_end_def)
qed

lemma holds_disjoint:
  assumes "holds H mm A" "(p, n) \<in> A" "(q, m) \<in> A" "(p, n) \<noteq> (q, m)"
  shows "p + n + MP_CHUNKEND \<le> q \<or> q + m + MP_CHUNKEND \<le> p"
proof -
  obtain xs fs al where b: "block_inv H mm xs fs al" "A = region H ` set al" using assms(1) by (auto simp: holds_def)
  then obtain x y where x: "x \<in> set al" "(p, n) = region H x" and y: "y \<in> set al" "(q, m) = region H y"
    using assms(2,3) by auto
  note t = block_invD(9) [OF b(1)]
  have in_xs: "x \<in> set xs" "y \<in> set xs" using block_invD(6) [OF b(1)] x(1) y(1) by blast+
  have "x \<noteq> y" using assms(4) x(2) y(2) by auto
  then show ?thesis using tiles_apart [OF t in_xs] tiles_bounds [OF t in_xs(1)] tiles_bounds [OF t in_xs(2)] x(2) y(2) by (auto simp: region_def)
qed

lemma holdsI:
  assumes "block_inv H' mm xs fs al" "\<And>x. x \<in> set al \<Longrightarrow> region H' x = region H x" shows "holds H' mm (region H ` set al)"
proof -
  have "region H' ` set al = region H ` set al" by (rule image_cong [OF refl assms(2)])
  then show ?thesis using assms(1) unfolding holds_def by metis
qed

lemma holds_elsewhere:
  assumes "holds H mm A" "touched (mm_start m) (mm_end m) H H'" "apart m mm" shows "holds H' mm A"
proof -
  obtain xs fs al where b: "block_inv H mm xs fs al" "A = region H ` set al" using assms(1) by (auto simp: holds_def)
  have far: "mm_start mm + mm_pool_size mm \<le> mm_start m \<or> mm_end m \<le> mm_start mm" using assms(3) by (auto simp: apart_def mm_end_def)
  have b': "block_inv H' mm xs fs al" by (rule block_inv_elsewhere [OF b(1) assms(2) far])
  have "region H' x = region H x" if "x \<in> set al" for x
  proof -
    have "x \<in> set xs" using block_invD(6) [OF b(1)] that by blast
    then have "x + MP_CHUNKHEADER \<le> mm_start m \<or> mm_end m \<le> x" using tiles_bounds [OF block_invD(9) [OF b(1)]] far by fastforce
    then have "hdr H' x = hdr H x" using assms(2) unfolding touched_def by blast
    then show ?thesis by (simp add: region_def)
  qed
  then show ?thesis unfolding b(2) by (rule holdsI [OF b'])
qed

lemma holds_payload:
  assumes "holds H mm A" "(p, n) \<in> A" "p \<le> lo" "hi \<le> p + n" "lo < hi" shows "holds (clobber lo hi H) mm A"
proof -
  obtain xs fs al where b: "block_inv H mm xs fs al" "A = region H ` set al" using assms(1) by (auto simp: holds_def)
  then obtain x where x: "x \<in> set al" "p = x + MP_CHUNKHEADER" "n = csz H x - (MP_CHUNKHEADER + MP_CHUNKEND)"
    using assms(2) by (auto simp: region_def)
  note t = block_invD(9) [OF b(1)]
  have xs: "x \<in> set xs" "set al \<subseteq> set xs" using block_invD(6) [OF b(1)] x(1) by blast+
  have lo: "x + MP_CHUNKHEADER \<le> lo" "hi + MP_CHUNKEND \<le> x + csz H x" using assms(3,4) x tiles_bounds [OF t xs(1)] by auto
  note tc = touched_clobber [OF assms(5), of H]
  have b': "block_inv (clobber lo hi H) mm xs fs al" by (rule block_inv_payload [OF b(1) xs(1) tc lo])
  have "region (clobber lo hi H) y = region H y" if "y \<in> set al" for y
    using tiles_touched [OF t xs(1) tc lo(1), of y] lo(2) that xs(2) unfolding region_def by (auto simp: subset_iff)
  then show ?thesis unfolding b(2) by (rule holdsI [OF b'])
qed

section \<open>Operations on a block\<close>

lemma init_block_ok:
  assumes "MP_INIT_MEMORY_STRUCT sz mm H = (mm', H')" "sep H" "MP_CHUNKHEADER + MP_CHUNKEND < sz" "0 < mm_start mm" "mm_start mm + sz < 2 ^ 63"
  shows "sep H' \<and> holds H' mm' {} \<and> touched (mm_start mm) (mm_start mm + sz) H H' \<and> mm_start mm' = mm_start mm \<and> mm_pool_size mm' = sz"
proof -
  let ?c = "\<lparr>ck_alloc_mem = sz, ck_prev = 0, ck_next = 0, ck_is_free = True\<rparr>"
  have e: "mm' = mm\<lparr>mm_pool_size := sz, mm_alloc_mem := 0, mm_alloc_prog_mem := 0, mm_free_list := mm_start mm, mm_alloc_list := 0\<rparr>"
    "H' = wrh (mm_start mm) ?c H" using assms(1) by (auto simp: MP_INIT_MEMORY_STRUCT_def)
  have h: "hdr H' (mm_start mm) = Some ?c" by (simp add: e(2) hdr_wrh)
  have "block_inv H' mm' [mm_start mm] [mm_start mm] []"
    using h assms(3-5) by (auto simp: block_inv_def tiling_def dlist_def e(1))
  then have "holds H' mm' {}" unfolding holds_def by force
  moreover have "touched (mm_start mm) (mm_start mm + sz) H H'"
    unfolding e(2) by (rule touched_mono [OF touched_wrh]) (use assms(3) in auto)
  ultimately show ?thesis using sep_wrh [OF assms(2)] by (simp add: e)
qed

lemma take_region:
  assumes "sep H" "holds H mm A" "MP_CHUNKHEADER + MP_CHUNKEND < need"
  shows "\<exists>f. find_free H need (mm_free_list mm) = Some (ok f) \<and> (f = 0 \<or> (\<exists>mm' H' n. take_chunk need f mm H = ok (f + MP_CHUNKHEADER, mm', H') \<and>
     sep H' \<and> holds H' mm' (insert (f + MP_CHUNKHEADER, n) A) \<and> (f + MP_CHUNKHEADER, n) \<notin> A \<and> need \<le> n + (MP_CHUNKHEADER + MP_CHUNKEND) \<and>
     touched (mm_start mm) (mm_end mm) H H' \<and> mm_start mm' = mm_start mm \<and> mm_pool_size mm' = mm_pool_size mm))"
proof -
  obtain xs fs al where b: "block_inv H mm xs fs al" "A = region H ` set al" using assms(2) by (auto simp: holds_def)
  note d = block_invD(3) [OF b(1), unfolded dlist_def]
  have find: "find_free H need (mm_free_list mm) = Some (ok (case find (\<lambda>x. need \<le> csz H x) fs of None \<Rightarrow> 0 | Some x \<Rightarrow> x))"
    using d find_free_ok [of H 0 fs need] by simp
  show ?thesis
  proof (cases "find (\<lambda>x. need \<le> csz H x) fs")
    case None then show ?thesis using find by simp
  next
    case (Some f)
    then have f: "f \<in> set fs" "need \<le> csz H f" by (auto simp: find_Some_iff)
    obtain mm' H' xs' fs' where t: "take_chunk need f mm H = ok (f + MP_CHUNKHEADER, mm', H')" "sep H'" "block_inv H' mm' xs' fs' (f # al)"
      "touched (mm_start mm) (mm_start mm + mm_pool_size mm) H H'" "need \<le> csz H' f" "\<forall>x\<in>set al. csz H' x = csz H x"
      "mm_start mm' = mm_start mm" "mm_pool_size mm' = mm_pool_size mm" using take_chunk_ok [OF assms(1) b(1) f assms(3)] by blast
    have "region H' x = region H x" if "x \<in> set al" for x using t(6) that by (simp add: region_def)
    then have "region H' ` set (f # al) = insert (region H' f) A" using b(2) by simp
    then have "holds H' mm' (insert (region H' f) A)" using t(3) unfolding holds_def by metis
    moreover have "f \<notin> set al" using block_invD(4) [OF t(3)] by (simp add: dlist_def)
    then have "region H' f \<notin> A" using b(2) by (auto simp: region_def)
    ultimately show ?thesis using t(1,2,4,5,7,8) find Some by (auto simp: region_def mm_end_def)
  qed
qed

lemma release_region:
  assumes "sep H" "holds H mm A" "(p, n) \<in> A" "mm_pool_size mm = psz"
  shows "\<exists>mm1 H1 mm' H'. release_chunk (p - MP_CHUNKHEADER) mm H = ok (mm1, H1) \<and> merge_free_chunk psz mm1 (p - MP_CHUNKHEADER) H1 = Some (ok (mm', H')) \<and>
     sep H' \<and> holds H' mm' (A - {(p, n)}) \<and> touched (mm_start mm) (mm_end mm) H H' \<and> mm_start mm' = mm_start mm \<and> mm_pool_size mm' = mm_pool_size mm"
proof -
  obtain xs fs al where b: "block_inv H mm xs fs al" "A = region H ` set al" using assms(2) by (auto simp: holds_def)
  then obtain ck where ck: "ck \<in> set al" "(p, n) = region H ck" using assms(3) by auto
  then have p: "p - MP_CHUNKHEADER = ck" by (simp add: region_def)
  obtain us vs where al: "al = us @ ck # vs" using ck(1) by (auto dest: split_list)
  note bi = block_invD [OF b(1)]
  have x: "ck \<in> set xs" using bi(6) ck(1) by blast
  then obtain ls rs where xs: "xs = ls @ ck # rs" by (auto dest: split_list)
  obtain mm1 H1 where r: "release_chunk ck mm H = ok (mm1, H1)" "sep H1" "block_core H1 mm1 xs (ck # fs) (us @ vs)"
     "touched (mm_start mm) (mm_start mm + mm_pool_size mm) H H1" "mm_start mm1 = mm_start mm" "mm_pool_size mm1 = mm_pool_size mm"
     "\<forall>x\<in>set xs. csz H1 x = csz H x \<and> cfree H1 x = (cfree H x \<or> x = ck)" using release_chunk_ok [OF assms(1)] b(1) unfolding al by blast
  have dist: "distinct xs" by (rule tiles_distinct [OF bi(9)])
  have nb: "successively (not_both_free H1) ls" "successively (not_both_free H1) rs"
    by (rule not_both_free_mono [of H]; use bi(2) r(7) dist xs in \<open>auto simp: successively_append_iff successively_Cons\<close>)+
  obtain mm' H' xs' fs' where m: "merge_free_chunk psz mm1 ck H1 = Some (ok (mm', H'))" "sep H'" "block_inv H' mm' xs' fs' (us @ vs)"
     "touched (mm_start mm1) (mm_start mm1 + mm_pool_size mm1) H1 H'" "mm_start mm' = mm_start mm1" "mm_pool_size mm' = mm_pool_size mm1"
     "\<forall>x\<in>set (us @ vs). csz H' x = csz H1 x"
    using merge_free_chunk_ok [OF r(2) r(3) [unfolded xs] _ nb, of psz] r(6,7) x assms(4) by auto
  have sub: "set (us @ vs) \<subseteq> set xs" using bi(6) unfolding al by auto
  then have "region H' y = region H y" if "y \<in> set (us @ vs)" for y using m(7) r(7) that by (auto simp: region_def)
  then have "holds H' mm' (region H ` set (us @ vs))" by (rule holdsI [OF m(3)])
  moreover have "ck \<notin> set (us @ vs)" using bi(4) unfolding al dlist_def by auto
  then have "region H ` set (us @ vs) = A - {(p, n)}" using b(2) ck(2) unfolding al by (auto simp: region_def)
  ultimately have "holds H' mm' (A - {(p, n)})" by simp
  moreover have "touched (mm_start mm) (mm_end mm) H H'" using touched_trans [OF r(4)] m(4) r(5,6) by (simp add: mm_end_def)
  ultimately show ?thesis using r(1,5,6) m(1,2,5,6) unfolding p by auto
qed

section \<open>The pool\<close>

text \<open>
  What \<open>malloc\<close> promises for the blocks to come: they lie below \<open>2 ^ 63\<close>, apart from the blocks of the pool and from each
  other.
\<close>

definition blk :: "nat \<Rightarrow> nat \<Rightarrow> MP_Memory" where
  "blk s sz = (new_block s 0)\<lparr>mm_pool_size := sz\<rparr>"

definition fresh :: "(nat \<Rightarrow> nat) \<Rightarrow> nat \<Rightarrow> MP_Memory list \<Rightarrow> bool" where
  "fresh mal sz ms \<longleftrightarrow> (\<forall>i. length ms \<le> i \<longrightarrow> mal i \<noteq> 0 \<longrightarrow> mm_end (blk (mal i) sz) < 2 ^ 63 \<and> (\<forall>m\<in>set ms. apart (blk (mal i) sz) m) \<and>
     (\<forall>j. i < j \<longrightarrow> mal j \<noteq> 0 \<longrightarrow> apart (blk (mal i) sz) (blk (mal j) sz)))"

text \<open>
  A pool that may grow has to be allowed to double, unless \<open>malloc\<close> has no further block for it: the code computes the size
  of a new block from the size of the first block and not from the size of the pool so far.
\<close>

definition growth_ok :: "(nat \<Rightarrow> nat) \<Rightarrow> nat \<Rightarrow> nat \<Rightarrow> nat \<Rightarrow> bool" where
  "growth_ok mal psz maxsize n \<longleftrightarrow> 2 * psz \<le> maxsize \<or> (\<forall>i. n \<le> i \<longrightarrow> mal i = 0)"

definition mp_inv :: "(nat \<Rightarrow> nat) \<Rightarrow> MemoryPool \<times> cmem \<Rightarrow> (nat \<times> nat) set \<Rightarrow> bool" where
  "mp_inv mal s R \<longleftrightarrow> (case s of (mp, H) \<Rightarrow>
     sep H \<and> MP_CHUNKHEADER + MP_CHUNKEND < mp_mem_pool_size mp \<and> mp_max mp < 2 ^ 63 \<and> mp_mlist mp \<noteq> [] \<and>
     (if mp_auto_extend mp then growth_ok mal (mp_mem_pool_size mp) (mp_max mp) (length (mp_mlist mp)) else length (mp_mlist mp) = 1) \<and>
     (\<forall>mm\<in>set (mp_mlist mp). mm_pool_size mm = mp_mem_pool_size mp) \<and> sorted_wrt apart (mp_mlist mp) \<and>
     mp_total mp = length (mp_mlist mp) * mp_mem_pool_size mp \<and> mp_total mp < mp_max mp + mp_mem_pool_size mp \<and>
     fresh mal (mp_mem_pool_size mp) (mp_mlist mp) \<and> (\<exists>As. list_all2 (holds H) (mp_mlist mp) As \<and> R = \<Union> (set As)))"

lemma holds_list_elsewhere:
  assumes "list_all2 (holds H) ms As" "touched (mm_start m) (mm_end m) H H'" "\<And>n. n \<in> set ms \<Longrightarrow> apart m n"
  shows "list_all2 (holds H') ms As"
  using assms(1,3) holds_elsewhere [OF _ assms(2)] by (induction ms As rule: list_all2_induct) auto

lemma holds_list_region:
  assumes "list_all2 (holds H) ms As" "(p, n) \<in> \<Union> (set As)"
  shows "\<exists>i<length ms. holds H (ms ! i) (As ! i) \<and> (p, n) \<in> As ! i \<and> mm_start (ms ! i) + MP_CHUNKHEADER \<le> p \<and> p + n + MP_CHUNKEND \<le> mm_end (ms ! i) \<and> 0 < n"
  using assms holds_bounds by (fastforce simp: list_all2_conv_all_nth in_set_conv_nth)

text \<open>The regions of a pool are disjoint.\<close>

lemma pool_disjoint:
  assumes "mp_inv mal s R" "(p, n) \<in> R" "(q, m) \<in> R" "(p, n) \<noteq> (q, m)" shows "p + n \<le> q \<or> q + m \<le> p"
proof -
  obtain mp H where s: "s = (mp, H)" by (cases s)
  obtain As where A: "list_all2 (holds H) (mp_mlist mp) As" "R = \<Union> (set As)" and w: "sorted_wrt apart (mp_mlist mp)"
    using assms(1) unfolding mp_inv_def s by auto
  obtain i where i: "i < length (mp_mlist mp)" "holds H (mp_mlist mp ! i) (As ! i)" "(p, n) \<in> As ! i"
    "mm_start (mp_mlist mp ! i) + MP_CHUNKHEADER \<le> p" "p + n + MP_CHUNKEND \<le> mm_end (mp_mlist mp ! i)"
    using holds_list_region [OF A(1)] assms(2) A(2) by blast
  obtain j where j: "j < length (mp_mlist mp)" "holds H (mp_mlist mp ! j) (As ! j)" "(q, m) \<in> As ! j"
    "mm_start (mp_mlist mp ! j) + MP_CHUNKHEADER \<le> q" "q + m + MP_CHUNKEND \<le> mm_end (mp_mlist mp ! j)"
    using holds_list_region [OF A(1)] assms(3) A(2) by blast
  show ?thesis
  proof (cases "i = j")
    case True then show ?thesis using holds_disjoint [OF i(2,3) _ assms(4)] j(3) by auto
  next
    case False
    then have "apart (mp_mlist mp ! i) (mp_mlist mp ! j)" using w i(1) j(1) apart_sym
      by (metis linorder_neqE_nat sorted_wrt_iff_nth_less)
    then show ?thesis using i(4,5) j(4,5) by (auto simp: apart_def)
  qed
qed

text \<open>The loop over the blocks.\<close>

text \<open>Only the extents of the blocks matter for their being apart.\<close>

definition extent :: "MP_Memory \<Rightarrow> nat \<times> nat" where
  "extent m = (mm_start m, mm_pool_size m)"

definition apart_extents :: "nat \<times> nat \<Rightarrow> nat \<times> nat \<Rightarrow> bool" where
  "apart_extents x y \<longleftrightarrow> fst x + snd x \<le> fst y \<or> fst y + snd y \<le> fst x"

lemma apart_extent: "apart m n = apart_extents (extent m) (extent n)"
  by (auto simp: apart_def extent_def mm_end_def apart_extents_def)

lemma apart_all_extents: "map extent ms' = map extent ms \<Longrightarrow> (\<And>n. n \<in> set ms \<Longrightarrow> apart m n) \<Longrightarrow> n \<in> set ms' \<Longrightarrow> apart m n"
  unfolding apart_extent by (metis (no_types, lifting) image_eqI image_iff list.set_map)

lemma apart_sorted_extents: "map extent ms' = map extent ms \<Longrightarrow> sorted_wrt apart ms = sorted_wrt apart ms'"
proof -
  have "sorted_wrt apart xs = sorted_wrt apart_extents (map extent xs)" for xs by (simp add: sorted_wrt_map flip: apart_extent)
  then show "map extent ms' = map extent ms \<Longrightarrow> ?thesis" by simp
qed

lemma region_elsewhere:
  assumes "holds H mm B" "(p, n) \<in> B" "list_all2 (holds H) ms As" "\<And>m. m \<in> set ms \<Longrightarrow> apart mm m" shows "(p, n) \<notin> \<Union> (set As)"
proof
  assume "(p, n) \<in> \<Union> (set As)"
  then obtain i where "i < length ms" "mm_start (ms ! i) + MP_CHUNKHEADER \<le> p" "p + n + MP_CHUNKEND \<le> mm_end (ms ! i)"
    using holds_list_region [OF assms(3)] by blast
  moreover from this have "apart mm (ms ! i)" using assms(4) by simp
  ultimately show False using holds_bounds [OF assms(1,2)] by (auto simp: apart_def chunk_sizes)
qed

definition served :: "nat \<Rightarrow> cmem \<Rightarrow> MP_Memory list \<Rightarrow> (nat \<times> nat) set \<Rightarrow> nat \<Rightarrow> MP_Memory list \<Rightarrow> cmem \<Rightarrow> bool" where
  "served need H ms R p ms' H' \<longleftrightarrow> p \<noteq> 0 \<and> sep H' \<and> map extent ms' = map extent ms \<and>
     (\<exists>n As. list_all2 (holds H') ms' As \<and> \<Union> (set As) = insert (p, n) R \<and> (p, n) \<notin> R \<and> need \<le> n + (MP_CHUNKHEADER + MP_CHUNKEND)) \<and>
     (\<exists>m. m \<in> set ms \<and> touched (mm_start m) (mm_end m) H H')"

lemma servedE:
  assumes "served need H ms R p ms' H'"
  obtains n As m where "p \<noteq> 0" "sep H'" "map extent ms' = map extent ms"
    "list_all2 (holds H') ms' As" "\<Union> (set As) = insert (p, n) R" "(p, n) \<notin> R" "need \<le> n + (MP_CHUNKHEADER + MP_CHUNKEND)"
    "m \<in> set ms" "touched (mm_start m) (mm_end m) H H'"
  using assms unfolding served_def by blast

lemma alloc_blocks_ok:
  assumes "sep H" "list_all2 (holds H) ms As" "sorted_wrt apart ms" "MP_CHUNKHEADER + MP_CHUNKEND < need"
  shows "\<exists>p ms' H'. alloc_blocks psz need ms H = Some (ok (p, ms', H')) \<and> (p = 0 \<and> ms' = ms \<and> H' = H \<or> served need H ms (\<Union> (set As)) p ms' H')"
  using assms(2,3)
proof (induction ms As rule: list_all2_induct)
  case Nil then show ?case by simp
next
  case (Cons mm ms A As)
  have ap: "\<And>m. m \<in> set ms \<Longrightarrow> apart mm m" "sorted_wrt apart ms" using Cons.prems by auto
  obtain p ms' H' where r: "alloc_blocks psz need ms H = Some (ok (p, ms', H'))"
    and alt: "p = 0 \<and> ms' = ms \<and> H' = H \<or> served need H ms (\<Union> (set As)) p ms' H'" using Cons.IH [OF ap(2)] by blast
  have rest: "p = 0 \<and> mm # ms' = mm # ms \<and> H' = H \<or> served need H (mm # ms) (\<Union> (set (A # As))) p (mm # ms') H'"
  proof (cases "served need H ms (\<Union> (set As)) p ms' H'")
    case True
    then obtain n As' m where t: "p \<noteq> 0" "sep H'" "map extent ms' = map extent ms"
      "list_all2 (holds H') ms' As'" "\<Union> (set As') = insert (p, n) (\<Union> (set As))" "(p, n) \<notin> \<Union> (set As)" "need \<le> n + (MP_CHUNKHEADER + MP_CHUNKEND)"
      "m \<in> set ms" "touched (mm_start m) (mm_end m) H H'" by (rule servedE)
    have A: "holds H' mm A" by (rule holds_elsewhere [OF Cons.hyps(1) t(9) apart_sym [OF ap(1) [OF t(8)]]])
    have "(p, n) \<in> A \<Longrightarrow> (p, n) \<notin> \<Union> (set As')" by (rule region_elsewhere [OF A _ t(4) apart_all_extents [OF t(3) ap(1)]])
    then have new: "(p, n) \<notin> \<Union> (set (A # As))" using t(5,6) by auto
    have "list_all2 (holds H') (mm # ms') (A # As')" using t(4) A by simp
    moreover have "\<Union> (set (A # As')) = insert (p, n) (\<Union> (set (A # As)))" using t(5) by simp
    moreover have "m \<in> set (mm # ms)" "map extent (mm # ms') = map extent (mm # ms)" using t(3,8) by simp_all
    ultimately show ?thesis using t(1,2,7,9) new unfolding served_def by blast
  next
    case False then show ?thesis using alt by simp
  qed
  obtain f where f: "find_free H need (mm_free_list mm) = Some (ok f)" "f = 0 \<or> (\<exists>mm' H' n. take_chunk need f mm H = ok (f + MP_CHUNKHEADER, mm', H') \<and>
     sep H' \<and> holds H' mm' (insert (f + MP_CHUNKHEADER, n) A) \<and> (f + MP_CHUNKHEADER, n) \<notin> A \<and> need \<le> n + (MP_CHUNKHEADER + MP_CHUNKEND) \<and>
     touched (mm_start mm) (mm_end mm) H H' \<and> mm_start mm' = mm_start mm \<and> mm_pool_size mm' = mm_pool_size mm)"
    using take_region [OF assms(1) Cons.hyps(1) assms(4)] by blast
  show ?case
  proof (cases "u64 (int psz - int (mm_alloc_mem mm)) < need \<or> f = 0")
    case True
    then have "alloc_blocks psz need (mm # ms) H = Some (ok (p, mm # ms', H'))" using r f(1) by (auto simp: Let_def)
    then show ?thesis using rest by blast
  next
    case False
    then obtain mm' H2 n where t: "take_chunk need f mm H = ok (f + MP_CHUNKHEADER, mm', H2)" "sep H2" "holds H2 mm' (insert (f + MP_CHUNKHEADER, n) A)" "(f + MP_CHUNKHEADER, n) \<notin> A"
      "need \<le> n + (MP_CHUNKHEADER + MP_CHUNKEND)" "touched (mm_start mm) (mm_end mm) H H2" "mm_start mm' = mm_start mm" "mm_pool_size mm' = mm_pool_size mm"
      using f(2) by blast
    have run: "alloc_blocks psz need (mm # ms) H = Some (ok (f + MP_CHUNKHEADER, mm' # ms, H2))" using False f(1) t(1) by (simp add: Let_def)
    have ms: "list_all2 (holds H2) ms As" by (rule holds_list_elsewhere [OF Cons.hyps(2) t(6) ap(1)])
    have "apart mm' m" if "m \<in> set ms" for m using ap(1) [OF that] t(7,8) by (simp add: apart_def mm_end_def)
    then have new: "(f + MP_CHUNKHEADER, n) \<notin> \<Union> (set (A # As))" using region_elsewhere [OF t(3) _ ms] t(4) by auto
    have "list_all2 (holds H2) (mm' # ms) (insert (f + MP_CHUNKHEADER, n) A # As)" using t(3) ms by simp
    moreover have "\<Union> (set (insert (f + MP_CHUNKHEADER, n) A # As)) = insert (f + MP_CHUNKHEADER, n) (\<Union> (set (A # As)))" by simp
    moreover have "mm \<in> set (mm # ms)" "f + MP_CHUNKHEADER \<noteq> 0" by (simp_all add: chunk_sizes)
    moreover have "map extent (mm' # ms) = map extent (mm # ms)" using t(7,8) by (simp add: extent_def)
    ultimately have "served need H (mm # ms) (\<Union> (set (A # As))) (f + MP_CHUNKHEADER) (mm' # ms) H2" using t(2,5,6) new unfolding served_def by blast
    then show ?thesis using run by blast
  qed
qed

text \<open>What the callers rely on, taken apart.\<close>

lemma mp_invD:
  assumes "mp_inv mal (mp, H) R"
  shows "sep H" "MP_CHUNKHEADER + MP_CHUNKEND < mp_mem_pool_size mp" "mp_max mp < 2 ^ 63" "mp_mlist mp \<noteq> []"
    "if mp_auto_extend mp then growth_ok mal (mp_mem_pool_size mp) (mp_max mp) (length (mp_mlist mp)) else length (mp_mlist mp) = 1"
    "\<And>mm. mm \<in> set (mp_mlist mp) \<Longrightarrow> mm_pool_size mm = mp_mem_pool_size mp" "sorted_wrt apart (mp_mlist mp)"
    "mp_total mp = length (mp_mlist mp) * mp_mem_pool_size mp" "mp_total mp < mp_max mp + mp_mem_pool_size mp"
    "fresh mal (mp_mem_pool_size mp) (mp_mlist mp)" "\<exists>As. list_all2 (holds H) (mp_mlist mp) As \<and> R = \<Union> (set As)"
  using assms unfolding mp_inv_def by auto

lemma mp_inv_update:
  assumes "mp_inv mal (mp, H) R" "map extent ms = map extent (mp_mlist mp)" "sep H'" "list_all2 (holds H') ms As"
  shows "mp_inv mal (mp\<lparr>mp_mlist := ms\<rparr>, H') (\<Union> (set As))"
proof -
  note i = mp_invD [OF assms(1)]
  have len: "length ms = length (mp_mlist mp)" using assms(2) by (rule map_eq_imp_length_eq)
  have "mm_pool_size mm = mp_mem_pool_size mp" if "mm \<in> set ms" for mm
  proof -
    have "extent mm \<in> set (map extent (mp_mlist mp))" using that unfolding assms(2) [symmetric] by simp
    then show ?thesis using i(6) by (auto simp: extent_def)
  qed
  moreover have "sorted_wrt apart ms" using apart_sorted_extents [OF assms(2)] i(7) by simp
  moreover have "fresh mal (mp_mem_pool_size mp) ms" unfolding fresh_def
  proof (intro allI impI)
    fix j assume j: "length ms \<le> j" "mal j \<noteq> 0"
    then have f: "mm_end (blk (mal j) (mp_mem_pool_size mp)) < 2 ^ 63" "\<And>m. m \<in> set (mp_mlist mp) \<Longrightarrow> apart (blk (mal j) (mp_mem_pool_size mp)) m"
      "\<forall>k. j < k \<longrightarrow> mal k \<noteq> 0 \<longrightarrow> apart (blk (mal j) (mp_mem_pool_size mp)) (blk (mal k) (mp_mem_pool_size mp))"
      using i(10) len unfolding fresh_def by auto
    show "mm_end (blk (mal j) (mp_mem_pool_size mp)) < 2 ^ 63 \<and> (\<forall>m\<in>set ms. apart (blk (mal j) (mp_mem_pool_size mp)) m) \<and>
      (\<forall>k. j < k \<longrightarrow> mal k \<noteq> 0 \<longrightarrow> apart (blk (mal j) (mp_mem_pool_size mp)) (blk (mal k) (mp_mem_pool_size mp)))"
      using f apart_all_extents [OF assms(2) f(2)] by blast
  qed
  moreover have "ms \<noteq> []" using len i(4) by auto
  ultimately show ?thesis using i(1-5,8,9) len assms(3,4) unfolding mp_inv_def by auto
qed

text \<open>A new block is in front of the others.\<close>

lemma extend_ok:
  assumes "mp_inv mal (mp, H) R" "mp_auto_extend mp" "mp_total mp < mp_max mp" "mal (length (mp_mlist mp)) \<noteq> 0"
  shows "\<exists>mp1 H1. extend_memory_list (mal (length (mp_mlist mp))) (extension mp) mp H = Some (mp1, H1) \<and>
     mp_inv mal (mp1\<lparr>mp_total := u64 (int (mp_total mp1 + extension mp))\<rparr>, H1) R \<and> mp_mem_pool_size mp1 = mp_mem_pool_size mp \<and>
     (\<exists>mm ms. mp_mlist mp1 = mm # ms \<and> mm_alloc_mem mm = 0 \<and> mm_free_list mm = mm_start mm \<and> csz H1 (mm_start mm) = mp_mem_pool_size mp \<and> hdr H1 (mm_start mm) \<noteq> None)"
proof -
  note i = mp_invD [OF assms(1)]
  let ?psz = "mp_mem_pool_size mp" and ?ms = "mp_mlist mp" and ?s = "mal (length (mp_mlist mp))"
  have dbl: "2 * ?psz \<le> mp_max mp" using i(5) assms(2,4) by (auto simp: growth_ok_def)
  have ext: "extension mp = ?psz"
    using i(2,3) dbl u64_nat [of "int (mp_max mp) - int ?psz" "mp_max mp - ?psz"] by (auto simp: extension_def Let_def of_nat_diff)
  obtain mm H1 where mm: "MP_INIT_MEMORY_STRUCT ?psz (new_block ?s (mp_last_id mp)) H = (mm, H1)" by fastforce
  have start: "mm_start (new_block ?s (mp_last_id mp)) = ?s + sizeof_MP_Memory" by (simp add: new_block_def)
  have fr: "mm_end (blk ?s ?psz) < 2 ^ 63" "\<forall>m\<in>set ?ms. apart (blk ?s ?psz) m" using i(10) assms(4) unfolding fresh_def by blast+
  have nb: "sep H1 \<and> holds H1 mm {} \<and> touched (?s + sizeof_MP_Memory) (?s + sizeof_MP_Memory + ?psz) H H1 \<and> mm_start mm = ?s + sizeof_MP_Memory \<and> mm_pool_size mm = ?psz"
    using init_block_ok [OF mm i(1,2)] start fr(1) by (simp add: mm_end_def blk_def new_block_def sizeof_MP_Memory_def)
  have same: "extent mm = extent (blk ?s ?psz)" using nb by (simp add: extent_def blk_def new_block_def)
  then have ap: "apart mm m" if "m \<in> set ?ms" for m using fr(2) that by (simp add: apart_extent)
  obtain As where As: "list_all2 (holds H) ?ms As" "R = \<Union> (set As)" using i(11) by blast
  have t: "touched (mm_start mm) (mm_end mm) H H1" using nb by (simp add: mm_end_def)
  have all: "list_all2 (holds H1) (mm # ?ms) ({} # As)" using holds_list_elsewhere [OF As(1) t ap] nb by simp
  let ?mp1 = "mp\<lparr>mp_last_id := (mp_last_id mp + 1) mod 2 ^ 32, mp_mlist := mm # ?ms\<rparr>"
  have run: "extend_memory_list ?s (extension mp) mp H = Some (?mp1, H1)" using assms(4) mm unfolding ext by (simp add: extend_memory_list_def)
  have total: "u64 (int (mp_total mp + ?psz)) = mp_total mp + ?psz" using assms(3) i(3) dbl by (intro u64_nat) auto
  have "fresh mal ?psz (mm # ?ms)" unfolding fresh_def
  proof (intro allI impI)
    fix j assume j: "length (mm # ?ms) \<le> j" "mal j \<noteq> 0"
    then have old: "mm_end (blk (mal j) ?psz) < 2 ^ 63" "\<forall>m\<in>set ?ms. apart (blk (mal j) ?psz) m"
      "\<forall>k. j < k \<longrightarrow> mal k \<noteq> 0 \<longrightarrow> apart (blk (mal j) ?psz) (blk (mal k) ?psz)" using i(10) unfolding fresh_def by auto
    have "apart (blk ?s ?psz) (blk (mal j) ?psz)" using i(10) j assms(4) unfolding fresh_def by auto
    then have "apart (blk (mal j) ?psz) mm" using apart_sym same by (simp add: apart_extent)
    then show "mm_end (blk (mal j) ?psz) < 2 ^ 63 \<and> (\<forall>m\<in>set (mm # ?ms). apart (blk (mal j) ?psz) m) \<and>
      (\<forall>k. j < k \<longrightarrow> mal k \<noteq> 0 \<longrightarrow> apart (blk (mal j) ?psz) (blk (mal k) ?psz))" using old by simp
  qed
  then have "mp_inv mal (?mp1\<lparr>mp_total := mp_total mp + ?psz\<rparr>, H1) R"
    using i(1-4,6-10) dbl nb all As(2) ap assms(2,3) unfolding mp_inv_def growth_ok_def by (auto intro!: exI [of _ "{} # As"])
  moreover have "mm_alloc_mem mm = 0 \<and> mm_free_list mm = mm_start mm \<and> csz H1 (mm_start mm) = ?psz \<and> hdr H1 (mm_start mm) \<noteq> None"
    using mm by (auto simp: MP_INIT_MEMORY_STRUCT_def hdr_wrh)
  ultimately show ?thesis using run total unfolding ext by simp
qed

section \<open>Allocation and release\<close>

lemma alloc_round:
  assumes "mp_inv mal (mp, H) R" "MP_CHUNKHEADER + MP_CHUNKEND < need"
  shows "\<exists>p ms H'. alloc_blocks (mp_mem_pool_size mp) need (mp_mlist mp) H = Some (ok (p, ms, H')) \<and>
     (p = 0 \<or> (\<exists>n. mp_inv mal (mp\<lparr>mp_mlist := ms\<rparr>, H') (insert (p, n) R) \<and> (p, n) \<notin> R \<and> need \<le> n + (MP_CHUNKHEADER + MP_CHUNKEND)))"
proof -
  note i = mp_invD [OF assms(1)]
  obtain As where As: "list_all2 (holds H) (mp_mlist mp) As" "R = \<Union> (set As)" using i(11) by blast
  obtain p ms H' where r: "alloc_blocks (mp_mem_pool_size mp) need (mp_mlist mp) H = Some (ok (p, ms, H'))"
    "p = 0 \<and> ms = mp_mlist mp \<and> H' = H \<or> served need H (mp_mlist mp) (\<Union> (set As)) p ms H'"
    using alloc_blocks_ok [OF i(1) As(1) i(7) assms(2)] by blast
  show ?thesis
  proof (cases "p = 0")
    case True then show ?thesis using r(1) by blast
  next
    case False
    then have "served need H (mp_mlist mp) R p ms H'" using r(2) As(2) by simp
    then obtain n As' m where t: "p \<noteq> 0" "sep H'" "map extent ms = map extent (mp_mlist mp)"
      "list_all2 (holds H') ms As'" "\<Union> (set As') = insert (p, n) R" "(p, n) \<notin> R" "need \<le> n + (MP_CHUNKHEADER + MP_CHUNKEND)"
      "m \<in> set (mp_mlist mp)" "touched (mm_start m) (mm_end m) H H'" by (rule servedE)
    have "mp_inv mal (mp\<lparr>mp_mlist := ms\<rparr>, H') (insert (p, n) R)" using mp_inv_update [OF assms(1) t(3,2,4)] t(5) by simp
    then show ?thesis using r(1) t(6,7) by blast
  qed
qed

text \<open>A block that was just added serves the request.\<close>

lemma alloc_blocks_new:
  assumes "mp_inv mal (mp, H) R" "mp_mlist mp = mm # ms" "mm_alloc_mem mm = 0" "mm_free_list mm = mm_start mm"
    and "csz H (mm_start mm) = mp_mem_pool_size mp" "hdr H (mm_start mm) \<noteq> None" "need \<le> mp_mem_pool_size mp"
    and "MP_CHUNKHEADER + MP_CHUNKEND < need" "alloc_blocks (mp_mem_pool_size mp) need (mp_mlist mp) H = Some (ok (p, ms', H'))"
  shows "p \<noteq> 0"
proof -
  note i = mp_invD [OF assms(1)]
  obtain A where A: "holds H mm A" using i(11) assms(2) by (auto simp: list_all2_Cons1)
  then have pos: "mm_start mm \<noteq> 0" unfolding holds_def using block_invD(11) by blast
  have find: "find_free H need (mm_free_list mm) = Some (ok (mm_start mm))"
    using assms(4-7) pos by (subst find_free.simps) (auto simp: rdh_def)
  then obtain mm' H2 where t: "take_chunk need (mm_start mm) mm H = ok (mm_start mm + MP_CHUNKHEADER, mm', H2)"
    using take_region [OF i(1) A assms(8)] pos by auto
  have "mm_start mm + mm_pool_size mm < 2 ^ 63" using A unfolding holds_def using block_invD(12) by blast
  then have "mp_mem_pool_size mp < 2 ^ 63" using i(6) [of mm] assms(2) by simp
  then have "u64 (int (mp_mem_pool_size mp) - int (mm_alloc_mem mm)) = mp_mem_pool_size mp" using assms(3) by simp
  then show ?thesis using assms(7,9) find t pos unfolding assms(2) by (auto simp: Let_def)
qed

definition alloc_result :: "(nat \<Rightarrow> nat) \<Rightarrow> nat \<Rightarrow> (nat \<times> nat) set \<Rightarrow> (nat \<times> MemoryPool \<times> cmem) res option \<Rightarrow> bool" where
  "alloc_result mal want R r \<longleftrightarrow> (\<exists>p s. r = Some (ok (p, s)) \<and>
     (p = 0 \<and> mp_inv mal s R \<or> p \<noteq> 0 \<and> (\<exists>n. want \<le> n \<and> mp_inv mal s (insert (p, n) R) \<and> (p, n) \<notin> R)))"

lemma alloc_retry_ok:
  assumes "mp_inv mal (mp, H) R" "MP_CHUNKHEADER + MP_CHUNKEND < need" "need \<le> mp_mem_pool_size mp" "want + (MP_CHUNKHEADER + MP_CHUNKEND) \<le> need"
  shows "alloc_result mal want R (alloc_retry mal need mp H)"
proof -
  obtain p ms H' where r: "alloc_blocks (mp_mem_pool_size mp) need (mp_mlist mp) H = Some (ok (p, ms, H'))"
     "p = 0 \<or> (\<exists>n. mp_inv mal (mp\<lparr>mp_mlist := ms\<rparr>, H') (insert (p, n) R) \<and> (p, n) \<notin> R \<and> need \<le> n + (MP_CHUNKHEADER + MP_CHUNKEND))"
    using alloc_round [OF assms(1,2)] by blast
  show ?thesis
  proof (cases "p = 0")
    case False
    then have "alloc_retry mal need mp H = Some (ok (p, mp\<lparr>mp_mlist := ms\<rparr>, H'))" using r(1) by (subst alloc_retry.simps) simp
    then show ?thesis using r(2) False assms(4) unfolding alloc_result_def by fastforce
  next
    case zero: True
    show ?thesis
    proof (cases "mp_auto_extend mp \<and> mp_total mp < mp_max mp \<and> mal (length (mp_mlist mp)) \<noteq> 0")
      case False
      then have "alloc_retry mal need mp H = Some (ok (0, mp, H))" using r(1) zero
        by (subst alloc_retry.simps) (auto simp: extend_memory_list_def)
      then show ?thesis using assms(1) unfolding alloc_result_def by blast
    next
      case True
      then obtain mp1 H1 mm ms1 where e: "extend_memory_list (mal (length (mp_mlist mp))) (extension mp) mp H = Some (mp1, H1)"
        "mp_inv mal (mp1\<lparr>mp_total := u64 (int (mp_total mp1 + extension mp))\<rparr>, H1) R" "mp_mem_pool_size mp1 = mp_mem_pool_size mp"
        "mp_mlist mp1 = mm # ms1" "mm_alloc_mem mm = 0" "mm_free_list mm = mm_start mm" "csz H1 (mm_start mm) = mp_mem_pool_size mp" "hdr H1 (mm_start mm) \<noteq> None"
        using extend_ok [OF assms(1)] by blast
      let ?mp2 = "mp1\<lparr>mp_total := u64 (int (mp_total mp1 + extension mp))\<rparr>"
      have step: "alloc_retry mal need mp H = alloc_retry mal need ?mp2 H1" using r(1) zero True e(1) by (subst alloc_retry.simps) simp
      obtain q ms2 H2 where r2: "alloc_blocks (mp_mem_pool_size ?mp2) need (mp_mlist ?mp2) H1 = Some (ok (q, ms2, H2))"
        "q = 0 \<or> (\<exists>n. mp_inv mal (?mp2\<lparr>mp_mlist := ms2\<rparr>, H2) (insert (q, n) R) \<and> (q, n) \<notin> R \<and> need \<le> n + (MP_CHUNKHEADER + MP_CHUNKEND))"
        using alloc_round [OF e(2) assms(2)] by blast
      have "q \<noteq> 0" by (rule alloc_blocks_new [OF e(2) _ e(5,6) _ e(8) _ assms(2) r2(1)]) (use e(3,4,7) assms(3) in simp_all)
      moreover from this have "alloc_retry mal need mp H = Some (ok (q, ?mp2\<lparr>mp_mlist := ms2\<rparr>, H2))"
        unfolding step using r2(1) by (subst alloc_retry.simps) simp
      ultimately show ?thesis using r2(2) assms(4) unfolding alloc_result_def by fastforce
    qed
  qed
qed

text \<open>The size is rounded up; only a request within 44 bytes of \<open>2 ^ 64\<close> wraps around.\<close>

lemma align_size:
  assumes "want + 44 < 2 ^ 64" defines "need \<equiv> MP_ALIGN_SIZE (u64 (int (want + MP_CHUNKHEADER + MP_CHUNKEND)))"
  shows "want + (MP_CHUNKHEADER + MP_CHUNKEND) < need" "need \<le> want + 44" "4 dvd need"
proof -
  have u: "u64 (int (want + MP_CHUNKHEADER + MP_CHUNKEND)) = want + 40" using assms(1) by (intro u64_nat) (auto simp: chunk_sizes)
  have "u64 (int (want + 40 + 4 - (want + 40) mod 4)) = want + 40 + 4 - (want + 40) mod 4"
    using assms(1) by (intro u64_nat) auto
  then have need: "need = want + 44 - (want + 40) mod 4" unfolding need_def u MP_ALIGN_SIZE_def by (simp add: add.commute)
  have lt: "(want + 40) mod 4 < 4" by simp
  then show "want + (MP_CHUNKHEADER + MP_CHUNKEND) < need" "need \<le> want + 44" unfolding need by (simp_all add: chunk_sizes)
  obtain q r where q: "want + 40 = 4 * q + r" "(want + 40) mod 4 = r" by (metis mult_div_mod_eq)
  have "need = 4 * (q + 1)" unfolding need q(2) using q(1) by simp
  then show "4 dvd need" by simp
qed

lemma MemoryPoolAlloc_ok:
  assumes "mp_inv mal (mp, H) R" "want + 44 < 2 ^ 64" shows "alloc_result mal want R (MemoryPoolAlloc mal want mp H)"
proof -
  let ?need = "MP_ALIGN_SIZE (u64 (int (want + MP_CHUNKHEADER + MP_CHUNKEND)))"
  show ?thesis
  proof (cases "want = 0 \<or> ?need > mp_mem_pool_size mp")
    case True
    then show ?thesis using assms(1) by (auto simp: MemoryPoolAlloc_def Let_def alloc_result_def)
  next
    case False
    then show ?thesis using alloc_retry_ok [OF assms(1), of ?need want] align_size [OF assms(2)] by (simp add: MemoryPoolAlloc_def Let_def)
  qed
qed

text \<open>The block of a region is found by its address.\<close>

lemma find_memory_list_ok:
  assumes "sorted_wrt apart ms" "\<And>m. m \<in> set ms \<Longrightarrow> mm_pool_size m = psz" "i < length ms" "mm_start (ms ! i) \<le> p" "p < mm_end (ms ! i)"
  shows "find_memory_list psz ms p k = Some (k + i)"
  using assms
proof (induction ms arbitrary: i k)
  case (Cons m ms)
  have m: "mm_pool_size m = psz" using Cons.prems(2) by simp
  show ?case
  proof (cases i)
    case 0 then show ?thesis using Cons.prems(4,5) m by (simp add: mm_end_def)
  next
    case (Suc j)
    then have "apart m (ms ! j)" using Cons.prems(1,3) by simp
    then have "\<not> (mm_start m \<le> p \<and> p < mm_start m + psz)" using Cons.prems(4,5) Suc m by (auto simp: apart_def mm_end_def)
    then show ?thesis using Cons.IH [of j "k + 1"] Cons.prems Suc by auto
  qed
qed simp

lemma MemoryPoolFree_ok:
  assumes "mp_inv mal (mp, H) R" "(p, n) \<in> R"
  shows "\<exists>s. MemoryPoolFree p mp H = Some (ok (0, s)) \<and> mp_inv mal s (R - {(p, n)})"
proof -
  note i = mp_invD [OF assms(1)]
  let ?ms = "mp_mlist mp" and ?psz = "mp_mem_pool_size mp"
  obtain As where As: "list_all2 (holds H) ?ms As" "R = \<Union> (set As)" using i(11) by blast
  obtain j where j: "j < length ?ms" "holds H (?ms ! j) (As ! j)" "(p, n) \<in> As ! j"
    "mm_start (?ms ! j) + MP_CHUNKHEADER \<le> p" "p + n + MP_CHUNKEND \<le> mm_end (?ms ! j)" "0 < n"
    using holds_list_region [OF As(1)] assms(2) As(2) by blast
  have p: "p \<noteq> 0" using j(4) by (auto simp: chunk_sizes)
  have find: "(if mp_auto_extend mp then find_memory_list ?psz ?ms p 0 else if ?ms = [] then None else Some 0) = Some j"
  proof (cases "mp_auto_extend mp")
    case True then show ?thesis using find_memory_list_ok [OF i(7,6) j(1), of p 0] j(4-6) by simp
  next
    case False then show ?thesis using i(4,5) j(1) by auto
  qed
  have psz: "mm_pool_size (?ms ! j) = ?psz" using i(6) j(1) by simp
  obtain mm1 H1 mm' H' where r: "release_chunk (p - MP_CHUNKHEADER) (?ms ! j) H = ok (mm1, H1)" "merge_free_chunk ?psz mm1 (p - MP_CHUNKHEADER) H1 = Some (ok (mm', H'))"
     "sep H'" "holds H' mm' (As ! j - {(p, n)})" "touched (mm_start (?ms ! j)) (mm_end (?ms ! j)) H H'" "mm_start mm' = mm_start (?ms ! j)" "mm_pool_size mm' = mm_pool_size (?ms ! j)"
    using release_region [OF i(1) j(2,3) psz] by blast
  let ?ms' = "?ms[j := mm']" and ?As = "As[j := As ! j - {(p, n)}]"
  have run: "MemoryPoolFree p mp H = Some (ok (0, mp\<lparr>mp_mlist := ?ms'\<rparr>, H'))" using p find r(1,2) by (simp add: MemoryPoolFree_def)
  have len: "length As = length ?ms" using As(1) by (simp add: list_all2_lengthD)
  have ap: "apart (?ms ! j) (?ms ! k)" if "k < length ?ms" "k \<noteq> j" for k
    using i(7) that j(1) apart_sym by (metis linorder_neqE_nat sorted_wrt_iff_nth_less)
  have other: "holds H' (?ms ! k) (As ! k)" if "k < length ?ms" "k \<noteq> j" for k
    by (rule holds_elsewhere [OF _ r(5) ap [OF that]]) (use As(1) that in \<open>simp add: list_all2_conv_all_nth\<close>)
  have all: "list_all2 (holds H') ?ms' ?As" using other r(4) len j(1) by (auto simp: list_all2_conv_all_nth nth_list_update)
  have "map extent ?ms' = map extent ?ms" using r(6,7) j(1) by (simp add: map_update extent_def list_update_same_conv)
  then have inv: "mp_inv mal (mp\<lparr>mp_mlist := ?ms'\<rparr>, H') (\<Union> (set ?As))" by (rule mp_inv_update [OF assms(1) _ r(3) all])
  have "\<Union> (set ?As) = R - {(p, n)}"
  proof -
    have no: "(p, n) \<notin> As ! k" if "k < length ?ms" "k \<noteq> j" for k
    proof
      assume "(p, n) \<in> As ! k"
      then have "mm_start (?ms ! k) + MP_CHUNKHEADER \<le> p" "p + n + MP_CHUNKEND \<le> mm_end (?ms ! k)"
        using holds_bounds [of H "?ms ! k" "As ! k" p n] As(1) that by (auto simp: list_all2_conv_all_nth)
      then show False using ap [OF that] j(4,5) by (auto simp: apart_def chunk_sizes)
    qed
    show ?thesis unfolding As(2) using no j(1) len by (auto simp: set_conv_nth nth_list_update split: if_splits)
  qed
  then show ?thesis using run inv by auto
qed

section \<open>The contract\<close>

text \<open>
  What the callers of an allocator may rely on. \<open>inv s R\<close> says that \<open>s\<close> is a valid state in which the regions \<open>R\<close> are
  allocated; \<open>wr lo hi\<close> is any write of the application to the bytes from \<open>lo\<close> to \<open>hi\<close>.
\<close>

datatype call = Alloc nat | Free nat | Write nat nat nat

locale allocator =
  fixes inv :: "'s \<Rightarrow> (nat \<times> nat) set \<Rightarrow> bool"
    and alloc :: "nat \<Rightarrow> 's \<Rightarrow> (nat \<times> 's) res option"
    and free :: "nat \<Rightarrow> 's \<Rightarrow> (int \<times> 's) res option"
    and wr :: "nat \<Rightarrow> nat \<Rightarrow> 's \<Rightarrow> 's"
    and limit :: nat
  assumes alloc_ok: "inv s R \<Longrightarrow> n < limit \<Longrightarrow> \<exists>p s'. alloc n s = Some (ok (p, s')) \<and>
      (p = 0 \<and> inv s' R \<or> p \<noteq> 0 \<and> (\<exists>m. n \<le> m \<and> inv s' (insert (p, m) R) \<and> (p, m) \<notin> R))"
    and free_ok: "inv s R \<Longrightarrow> (p, n) \<in> R \<Longrightarrow> \<exists>s'. free p s = Some (ok (0, s')) \<and> inv s' (R - {(p, n)})"
    and write_ok: "inv s R \<Longrightarrow> (p, n) \<in> R \<Longrightarrow> p \<le> lo \<Longrightarrow> hi \<le> p + n \<Longrightarrow> lo < hi \<Longrightarrow> inv (wr lo hi s) R"
    and disjoint: "inv s R \<Longrightarrow> (p, n) \<in> R \<Longrightarrow> (q, m) \<in> R \<Longrightarrow> (p, n) \<noteq> (q, m) \<Longrightarrow> p + n \<le> q \<or> q + m \<le> p"
    and positive: "inv s R \<Longrightarrow> (p, n) \<in> R \<Longrightarrow> 0 < n"

text \<open>
  A client that keeps the list of the regions it asked for: \<open>Free i\<close> and \<open>Write i lo hi\<close> refer to the \<open>i\<close>-th of them and
  stay within it.
\<close>

fun client :: "(nat \<Rightarrow> 's \<Rightarrow> (nat \<times> 's) res option) \<Rightarrow> (nat \<Rightarrow> 's \<Rightarrow> (int \<times> 's) res option) \<Rightarrow> (nat \<Rightarrow> nat \<Rightarrow> 's \<Rightarrow> 's) \<Rightarrow>
    call list \<Rightarrow> (nat \<times> nat) list \<Rightarrow> 's \<Rightarrow> ((nat \<times> nat) list \<times> 's) res option" where
  "client al fr w [] os s = Some (ok (os, s))"
| "client al fr w (Alloc n # cs) os s = (case al n s of None \<Rightarrow> None | Some (Inl e) \<Rightarrow> Some (Inl e)
     | Some (Inr (p, s')) \<Rightarrow> client al fr w cs (if p = 0 then os else (p, n) # os) s')"
| "client al fr w (Free i # cs) os s = (if i < length os then case fr (fst (os ! i)) s of None \<Rightarrow> None | Some (Inl e) \<Rightarrow> Some (Inl e)
       | Some (Inr (_, s')) \<Rightarrow> client al fr w cs (take i os @ drop (Suc i) os) s'
     else client al fr w cs os s)"
| "client al fr w (Write i lo hi # cs) os s =
     (if i < length os \<and> fst (os ! i) \<le> lo \<and> lo < hi \<and> hi \<le> fst (os ! i) + snd (os ! i) then client al fr w cs os (w lo hi s)
      else client al fr w cs os s)"

definition within :: "nat \<times> nat \<Rightarrow> nat \<times> nat \<Rightarrow> bool" where
  "within x r \<longleftrightarrow> fst x = fst r \<and> snd x \<le> snd r"

definition owns :: "(nat \<times> nat) list \<Rightarrow> (nat \<times> nat) set \<Rightarrow> bool" where
  "owns os R \<longleftrightarrow> (\<exists>rs. R = set rs \<and> distinct rs \<and> list_all2 within os rs)"

definition apart_regions :: "(nat \<times> nat) list \<Rightarrow> bool" where
  "apart_regions os \<longleftrightarrow> sorted_wrt apart_extents os"

context allocator
begin

lemma owns_apart:
  assumes "inv s R" "owns os R" shows "apart_regions os"
proof -
  obtain rs where rs: "R = set rs" "distinct rs" "list_all2 within os rs" using assms(2) by (auto simp: owns_def)
  have "apart_extents (os ! i) (os ! j)" if ij: "i < j" "j < length os" for i j
  proof -
    have len: "i < length rs" "j < length rs" using ij list_all2_lengthD [OF rs(3)] by auto
    have w: "within (os ! i) (rs ! i)" "within (os ! j) (rs ! j)" using rs(3) ij by (auto simp: list_all2_conv_all_nth)
    have R: "(fst (rs ! i), snd (rs ! i)) \<in> R" "(fst (rs ! j), snd (rs ! j)) \<in> R" using len rs(1) by simp_all
    have "rs ! i \<noteq> rs ! j" using nth_eq_iff_index_eq [OF rs(2) len] ij(1) by simp
    then have "(fst (rs ! i), snd (rs ! i)) \<noteq> (fst (rs ! j), snd (rs ! j))" by simp
    from disjoint [OF assms(1) R this] show ?thesis using w by (auto simp: apart_extents_def within_def)
  qed
  then show ?thesis unfolding apart_regions_def sorted_wrt_iff_nth_less by blast
qed

lemma owns_remove:
  assumes "owns os R" "i < length os"
  shows "\<exists>n. (fst (os ! i), n) \<in> R \<and> snd (os ! i) \<le> n \<and> owns (take i os @ drop (Suc i) os) (R - {(fst (os ! i), n)})"
proof -
  obtain rs where rs: "R = set rs" "distinct rs" "list_all2 within os rs" using assms(1) by (auto simp: owns_def)
  then have len: "i < length rs" using assms(2) list_all2_lengthD by metis
  have "within (os ! i) (rs ! i)" using rs(3) assms(2) by (simp add: list_all2_conv_all_nth)
  then obtain n where n: "rs ! i = (fst (os ! i), n)" "snd (os ! i) \<le> n" by (metis prod.collapse within_def)
  let ?rs = "take i rs @ drop (Suc i) rs"
  have split: "rs = take i rs @ (fst (os ! i), n) # drop (Suc i) rs" using id_take_nth_drop [OF len] n(1) by simp
  have d: "distinct (take i rs @ (fst (os ! i), n) # drop (Suc i) rs)" "R = set (take i rs @ (fst (os ! i), n) # drop (Suc i) rs)"
    using rs(1,2) split by simp_all
  then have "distinct ?rs" "set ?rs = R - {(fst (os ! i), n)}" by auto
  moreover have "list_all2 within (take i os @ drop (Suc i) os) ?rs"
    using rs(3) by (intro list_all2_appendI) auto
  moreover have "(fst (os ! i), n) \<in> R" using n(1) len rs(1) by (metis nth_mem)
  ultimately show ?thesis using n(2) unfolding owns_def by metis
qed

text \<open>Every client that stays within its regions runs to its end without a fault, and its regions never overlap.\<close>

lemma client_ok:
  assumes "inv s R" "owns os R" "\<And>n. Alloc n \<in> set cs \<Longrightarrow> n < limit"
  shows "\<exists>os' s' R'. client alloc free wr cs os s = Some (ok (os', s')) \<and> inv s' R' \<and> owns os' R' \<and> apart_regions os'"
  using assms
proof (induction cs arbitrary: os s R)
  case Nil then show ?case using owns_apart by auto
next
  case (Cons c cs)
  have lim: "\<And>n. Alloc n \<in> set cs \<Longrightarrow> n < limit" using Cons.prems(3) by simp
  show ?case
  proof (cases c)
    case (Alloc n)
    then obtain p s' where a: "alloc n s = Some (ok (p, s'))" "p = 0 \<and> inv s' R \<or> p \<noteq> 0 \<and> (\<exists>m. n \<le> m \<and> inv s' (insert (p, m) R) \<and> (p, m) \<notin> R)"
      using alloc_ok [OF Cons.prems(1), of n] Cons.prems(3) by auto
    show ?thesis
    proof (cases "p = 0")
      case True then show ?thesis using Cons.IH [OF _ Cons.prems(2) lim] a Alloc by simp
    next
      case False
      then obtain m where m: "n \<le> m" "inv s' (insert (p, m) R)" "(p, m) \<notin> R" using a(2) by blast
      have "owns ((p, n) # os) (insert (p, m) R)"
      proof -
        obtain rs where "R = set rs" "distinct rs" "list_all2 within os rs" using Cons.prems(2) by (auto simp: owns_def)
        then have "insert (p, m) R = set ((p, m) # rs)" "distinct ((p, m) # rs)" "list_all2 within ((p, n) # os) ((p, m) # rs)"
          using m(1,3) by (simp_all add: within_def)
        then show ?thesis unfolding owns_def by blast
      qed
      then show ?thesis using Cons.IH [OF m(2) _ lim] a(1) False Alloc by simp
    qed
  next
    case (Free i)
    show ?thesis
    proof (cases "i < length os")
      case True
      then obtain n where n: "(fst (os ! i), n) \<in> R" "owns (take i os @ drop (Suc i) os) (R - {(fst (os ! i), n)})"
        using owns_remove [OF Cons.prems(2)] by blast
      obtain s' where "free (fst (os ! i)) s = Some (ok (0, s'))" "inv s' (R - {(fst (os ! i), n)})" using free_ok [OF Cons.prems(1) n(1)] by blast
      then show ?thesis using Cons.IH [OF _ n(2) lim] Free True by simp
    next
      case False then show ?thesis using Cons.IH [OF Cons.prems(1,2) lim] Free by simp
    qed
  next
    case (Write i lo hi)
    show ?thesis
    proof (cases "i < length os \<and> fst (os ! i) \<le> lo \<and> lo < hi \<and> hi \<le> fst (os ! i) + snd (os ! i)")
      case True
      then obtain n where n: "(fst (os ! i), n) \<in> R" "snd (os ! i) \<le> n" using owns_remove [OF Cons.prems(2)] by blast
      have "inv (wr lo hi s) R" by (rule write_ok [OF Cons.prems(1) n(1)]) (use True n(2) in auto)
      then show ?thesis using Cons.IH [OF _ Cons.prems(2) lim] Write True by simp
    next
      case False then show ?thesis using Cons.IH [OF Cons.prems(1,2) lim] Write by auto
    qed
  qed
qed

end

end
