(* ===== verification/PoolProps.thy ===== *)
theory PoolProps
  imports PoolApi
begin

text \<open>
  The pool of memorypool.c satisfies the contract of an allocator, from its creation on, as long as the blocks it adds are
  as large as the first one; with a smaller block, which the limits of InitServer.c lead to, a release reads behind the
  block. Statistics agree with the allocated regions.
\<close>

section \<open>The pool is an allocator\<close>

definition pool_alloc :: "(nat \<Rightarrow> nat) \<Rightarrow> nat \<Rightarrow> MemoryPool \<times> cmem \<Rightarrow> (nat \<times> MemoryPool \<times> cmem) res option" where
  "pool_alloc mal n s = MemoryPoolAlloc mal n (fst s) (snd s)"

definition pool_free :: "nat \<Rightarrow> MemoryPool \<times> cmem \<Rightarrow> (int \<times> MemoryPool \<times> cmem) res option" where
  "pool_free p s = MemoryPoolFree p (fst s) (snd s)"

definition pool_write :: "nat \<Rightarrow> nat \<Rightarrow> MemoryPool \<times> cmem \<Rightarrow> MemoryPool \<times> cmem" where
  "pool_write lo hi s = (fst s, clobber lo hi (snd s))"

lemma pool_write_ok:
  assumes "mp_inv mal s R" "(p, n) \<in> R" "p \<le> lo" "hi \<le> p + n" "lo < hi" shows "mp_inv mal (pool_write lo hi s) R"
proof -
  obtain mp H where s: "s = (mp, H)" by (cases s)
  note i = mp_invD [OF assms(1) [unfolded s]]
  let ?ms = "mp_mlist mp" and ?H = "clobber lo hi H"
  obtain As where As: "list_all2 (holds H) ?ms As" "R = \<Union> (set As)" using i(11) by blast
  obtain j where j: "j < length ?ms" "holds H (?ms ! j) (As ! j)" "(p, n) \<in> As ! j"
    "mm_start (?ms ! j) + MP_CHUNKHEADER \<le> p" "p + n + MP_CHUNKEND \<le> mm_end (?ms ! j)"
    using holds_list_region [OF As(1)] assms(2) As(2) by blast
  have t: "touched (mm_start (?ms ! j)) (mm_end (?ms ! j)) H ?H"
    by (rule touched_mono [OF touched_clobber [OF assms(5)]]) (use j(4,5) assms(3,4) in auto)
  have "holds ?H (?ms ! k) (As ! k)" if k: "k < length ?ms" for k
  proof (cases "k = j")
    case True then show ?thesis using holds_payload [OF j(2,3) assms(3-5)] by simp
  next
    case False
    have "apart (?ms ! j) (?ms ! k)" using i(7) k j(1) False apart_sym by (metis linorder_neqE_nat sorted_wrt_iff_nth_less)
    moreover have "holds H (?ms ! k) (As ! k)" using As(1) k by (simp add: list_all2_conv_all_nth)
    ultimately show ?thesis using holds_elsewhere [OF _ t] by blast
  qed
  then have "list_all2 (holds ?H) ?ms As" using As(1) by (simp add: list_all2_conv_all_nth)
  then have "mp_inv mal (mp\<lparr>mp_mlist := ?ms\<rparr>, ?H) (\<Union> (set As))"
    using mp_inv_update [OF assms(1) [unfolded s] refl sep_clobber [OF i(1)]] by blast
  then show ?thesis using As(2) by (simp add: s pool_write_def)
qed

interpretation pool: allocator "mp_inv mal" "pool_alloc mal" pool_free pool_write "2 ^ 64 - 44" for mal :: "nat \<Rightarrow> nat"
proof
  show "\<exists>p s'. pool_alloc mal n s = Some (ok (p, s')) \<and> (p = 0 \<and> mp_inv mal s' R \<or> p \<noteq> 0 \<and> (\<exists>m. n \<le> m \<and> mp_inv mal s' (insert (p, m) R) \<and> (p, m) \<notin> R))"
    if "mp_inv mal s R" "n < 2 ^ 64 - 44" for s R n
    using MemoryPoolAlloc_ok [of mal "fst s" "snd s" R n] that unfolding alloc_result_def pool_alloc_def by auto
  show "\<exists>s'. pool_free p s = Some (ok (0, s')) \<and> mp_inv mal s' (R - {(p, n)})" if "mp_inv mal s R" "(p, n) \<in> R" for s R p n
    using MemoryPoolFree_ok [of mal "fst s" "snd s" R p n] that unfolding pool_free_def by simp
  show "mp_inv mal (pool_write lo hi s) R" if "mp_inv mal s R" "(p, n) \<in> R" "p \<le> lo" "hi \<le> p + n" "lo < hi" for s R p n lo hi
    using that by (rule pool_write_ok)
  show "p + n \<le> q \<or> q + m \<le> p" if "mp_inv mal s R" "(p, n) \<in> R" "(q, m) \<in> R" "(p, n) \<noteq> (q, m)" for s R p n q m
    using that by (rule pool_disjoint)
  show "0 < n" if i: "mp_inv mal s R" and r: "(p, n) \<in> R" for s R p n
  proof -
    obtain As where "list_all2 (holds (snd s)) (mp_mlist (fst s)) As" "R = \<Union> (set As)" using mp_invD(11) [of mal "fst s" "snd s" R] i by auto
    then show ?thesis using holds_list_region r by blast
  qed
qed

section \<open>Creation and clearing\<close>

text \<open>The sizes leave room for a header, and \<open>auto_extend\<close>, which the code does not set when the sizes agree, is 0 then.\<close>

definition config_ok :: "(nat \<Rightarrow> nat) \<Rightarrow> nat \<Rightarrow> nat \<Rightarrow> bool \<Rightarrow> bool" where
  "config_ok mal maxsize psz auto0 \<longleftrightarrow> MP_CHUNKHEADER + MP_CHUNKEND < psz \<and> maxsize < 2 ^ 63 \<and> (if psz < maxsize then growth_ok mal psz maxsize 1 else \<not> auto0)"

lemma MemoryPoolInit_ok:
  assumes "sep H" "config_ok mal maxsize psz auto0" "mm_end (blk s psz) < 2 ^ 63" "MemoryPoolInit maxsize psz True s auto0 H = (Some mp, H')" "fresh mal psz [blk s psz]"
  shows "mp_inv mal (mp, H') {}"
proof -
  have c: "\<not> maxsize < psz" "s \<noteq> 0" using assms(4) by (auto simp: MemoryPoolInit_def split: if_splits)
  obtain mm H1 where mm: "MP_INIT_MEMORY_STRUCT psz (new_block s 0) H = (mm, H1)" by fastforce
  have e: "mp = \<lparr>mp_last_id = 1, mp_auto_extend = (psz < maxsize \<or> auto0), mp_mem_pool_size = psz, mp_total = psz, mp_max = maxsize, mp_mlist = [mm]\<rparr>" "H' = H1"
    using assms(4) c by (auto simp: MemoryPoolInit_def mm)
  have b: "sep H1 \<and> holds H1 mm {} \<and> mm_start mm = s + sizeof_MP_Memory \<and> mm_pool_size mm = psz"
    using init_block_ok [OF mm assms(1)] assms(2,3) by (simp add: config_ok_def mm_end_def blk_def new_block_def sizeof_MP_Memory_def)
  have "extent mm = extent (blk s psz)" using b by (simp add: extent_def blk_def new_block_def)
  then have "apart m mm = apart m (blk s psz)" for m by (simp add: apart_extent)
  then have "fresh mal psz [mm]" using assms(5) by (simp add: fresh_def)
  then show ?thesis using b assms(2) c unfolding mp_inv_def e config_ok_def by (auto split: if_splits intro!: exI [of _ "[{}]"])
qed

lemma clear_blocks_ok:
  assumes "sep H" "\<And>m. m \<in> set ms \<Longrightarrow> MP_CHUNKHEADER + MP_CHUNKEND < mm_pool_size m \<and> 0 < mm_start m \<and> mm_end m < 2 ^ 63" "sorted_wrt apart ms"
    and "clear_blocks ms H = (ms', H')"
  shows "sep H' \<and> map extent ms' = map extent ms \<and> list_all2 (holds H') ms' (map (\<lambda>_. {}) ms) \<and> (\<forall>m A. (\<forall>n\<in>set ms. apart m n) \<longrightarrow> holds H m A \<longrightarrow> holds H' m A)"
  using assms
proof (induction ms arbitrary: H ms' H')
  case (Cons m ms)
  obtain m1 H1 where i: "MP_INIT_MEMORY_STRUCT (mm_pool_size m) m H = (m1, H1)" by fastforce
  obtain ms2 H2 where c: "clear_blocks ms H1 = (ms2, H2)" by fastforce
  have r: "ms' = m1 # ms2" "H' = H2" using Cons.prems(4) i c by auto
  have b: "sep H1" "holds H1 m1 {}" "touched (mm_start m) (mm_end m) H H1" "extent m1 = extent m"
    using init_block_ok [OF i Cons.prems(1)] Cons.prems(2) [of m] by (auto simp: mm_end_def extent_def)
  have IH: "sep H2" "map extent ms2 = map extent ms" "list_all2 (holds H2) ms2 (map (\<lambda>_. {}) ms)" "\<forall>m A. (\<forall>n\<in>set ms. apart m n) \<longrightarrow> holds H1 m A \<longrightarrow> holds H2 m A"
    using Cons.IH [OF b(1) _ _ c] Cons.prems(2,3) by auto
  have "\<forall>n\<in>set ms. apart m1 n" using Cons.prems(3) b(4) by (simp add: apart_extent)
  then have "holds H2 m1 {}" using IH(4) b(2) by blast
  moreover have "holds H2 k A" if "\<forall>n\<in>set (m # ms). apart k n" "holds H k A" for k A
  proof -
    have "apart m k" using that(1) apart_sym by simp
    then have "holds H1 k A" by (rule holds_elsewhere [OF that(2) b(3)])
    then show ?thesis using IH(4) that(1) by simp
  qed
  ultimately show ?case using IH(1-3) b(4) r by simp
qed simp

lemma list_all2_member: "list_all2 P xs ys \<Longrightarrow> x \<in> set xs \<Longrightarrow> \<exists>y. P x y"
  by (induction rule: list_all2_induct) auto

lemma pool_blocks:
  assumes "mp_inv mal (mp, H) R" "m \<in> set (mp_mlist mp)" shows "0 < mm_start m \<and> mm_end m < 2 ^ 63"
proof -
  obtain A where "holds H m A" using mp_invD(11) [OF assms(1)] list_all2_member [OF _ assms(2)] by blast
  then show ?thesis using block_invD(11,12) unfolding holds_def mm_end_def by blast
qed

lemma MemoryPoolClear_ok:
  assumes "mp_inv mal (mp, H) R" shows "mp_inv mal (MemoryPoolClear mp H) {}"
proof -
  note i = mp_invD [OF assms]
  obtain ms H' where c: "clear_blocks (mp_mlist mp) H = (ms, H')" by fastforce
  have "MP_CHUNKHEADER + MP_CHUNKEND < mm_pool_size m \<and> 0 < mm_start m \<and> mm_end m < 2 ^ 63" if "m \<in> set (mp_mlist mp)" for m
    using pool_blocks [OF assms that] i(2,6) that by simp
  then have "sep H'" "map extent ms = map extent (mp_mlist mp)" "list_all2 (holds H') ms (map (\<lambda>_. {}) (mp_mlist mp))"
    using clear_blocks_ok [OF i(1) _ i(7) c] by blast+
  then have "mp_inv mal (mp\<lparr>mp_mlist := ms\<rparr>, H') (\<Union> (set (map (\<lambda>_. {}) (mp_mlist mp))))" using mp_inv_update [OF assms] by blast
  then show ?thesis by (simp add: MemoryPoolClear_def c)
qed

section \<open>Statistics\<close>

lemma holds_prog:
  assumes "holds H mm A" shows "finite A \<and> mm_alloc_prog_mem mm = (\<Sum>r\<in>A. snd r) \<and> mm_alloc_prog_mem mm \<le> mm_pool_size mm"
proof -
  obtain xs fs al where b: "block_inv H mm xs fs al" "A = region H ` set al" using assms by (auto simp: holds_def)
  note bi = block_invD [OF b(1)]
  have dist: "distinct al" using bi(4) by (simp add: dlist_def)
  have "inj_on (region H) (set al)" by (auto simp: inj_on_def region_def)
  then have "(\<Sum>r\<in>A. snd r) = (\<Sum>x\<in>set al. snd (region H x))" unfolding b(2) by (simp add: sum.reindex)
  also have "\<dots> = mm_alloc_prog_mem mm" unfolding bi(8) using dist by (simp add: region_def sum_list_distinct_conv_sum_set)
  finally have s: "mm_alloc_prog_mem mm = (\<Sum>r\<in>A. snd r)" by simp
  have "set al \<subseteq> set xs" using bi(6) by blast
  then have "(\<Sum>x\<leftarrow>al. csz H x) \<le> mm_pool_size mm" using alloc_sum [OF bi(9) dist] by simp
  moreover have "mm_alloc_prog_mem mm \<le> (\<Sum>x\<leftarrow>al. csz H x)" unfolding bi(8) by (rule sum_list_mono) simp
  ultimately show ?thesis using s b(2) by simp
qed

lemma list_prog:
  assumes "list_all2 (holds H) ms As" "sorted_wrt apart ms"
  shows "finite (\<Union> (set As)) \<and> (\<Sum>m\<leftarrow>ms. mm_alloc_prog_mem m) = (\<Sum>r\<in>\<Union> (set As). snd r)"
  using assms
proof (induction ms As rule: list_all2_induct)
  case (Cons m ms A As)
  have IH: "finite (\<Union> (set As))" "(\<Sum>m\<leftarrow>ms. mm_alloc_prog_mem m) = (\<Sum>r\<in>\<Union> (set As). snd r)" using Cons.IH Cons.prems by auto
  have ap: "\<And>n. n \<in> set ms \<Longrightarrow> apart m n" using Cons.prems by simp
  have "r \<notin> \<Union> (set As)" if "r \<in> A" for r using region_elsewhere [OF Cons.hyps(1) _ Cons.hyps(2) ap, of "fst r" "snd r"] that by simp
  then have "A \<inter> \<Union> (set As) = {}" by blast
  then show ?case using IH holds_prog [OF Cons.hyps(1)] by (simp add: sum.union_disjoint)
qed simp

text \<open>
  The memory in use that the pool reports is the sum of the sizes of the allocated regions.
\<close>

lemma GetProgMemory_sum:
  assumes "mp_inv mal (mp, H) R" shows "GetProgMemory mp = (\<Sum>r\<in>R. snd r) \<and> finite R"
proof -
  note i = mp_invD [OF assms]
  obtain As where As: "list_all2 (holds H) (mp_mlist mp) As" "R = \<Union> (set As)" using i(11) by blast
  have "mm_alloc_prog_mem m \<le> mp_mem_pool_size mp" if m: "m \<in> set (mp_mlist mp)" for m
  proof -
    obtain A where "holds H m A" using list_all2_member [OF As(1) m] by blast
    then show ?thesis using holds_prog i(6) m by metis
  qed
  then have "(\<Sum>m\<leftarrow>mp_mlist mp. mm_alloc_prog_mem m) \<le> (\<Sum>m\<leftarrow>mp_mlist mp. mp_mem_pool_size mp)" by (rule sum_list_mono)
  also have "\<dots> = mp_total mp" unfolding i(8) by (simp add: sum_list_triv)
  also have "\<dots> < 2 ^ 64"
  proof -
    obtain m where m: "m \<in> set (mp_mlist mp)" using i(4) by (meson last_in_set)
    then have "mp_mem_pool_size mp < 2 ^ 63" using pool_blocks [OF assms m] i(6) [OF m] by (simp add: mm_end_def)
    then show ?thesis using i(3,9) by simp
  qed
  finally have "GetProgMemory mp = (\<Sum>m\<leftarrow>mp_mlist mp. mm_alloc_prog_mem m)" unfolding GetProgMemory_def by (intro u64_nat) simp_all
  then show ?thesis using list_prog [OF As(1) i(7)] As(2) by simp
qed

lemma list_count_ok:
  "dseg (hdr H) p xs 0 \<Longrightarrow> 0 \<notin> set xs \<Longrightarrow> list_count H (hd_or 0 xs) n = Some (ok (n + length xs))"
proof (induction xs arbitrary: p n)
  case Nil then show ?case by (subst list_count.simps) simp
next
  case (Cons x xs)
  then show ?case by (subst list_count.simps) (auto simp: rdh_def)
qed

text \<open>
  The statistics of a block terminate, and report as many allocated chunks as the block has regions.
\<close>

theorem get_memory_info_ok:
  assumes "holds H mm A" shows "\<exists>n. get_memory_info mm H = (Some (ok n), Some (ok (card A)))"
proof -
  obtain xs fs al where b: "block_inv H mm xs fs al" "A = region H ` set al" using assms by (auto simp: holds_def)
  note d = block_invD(3,4) [OF b(1), unfolded dlist_def]
  have "list_count H (mm_free_list mm) 0 = Some (ok (length fs))" "list_count H (mm_alloc_list mm) 0 = Some (ok (length al))"
    using list_count_ok [of H 0 fs 0] list_count_ok [of H 0 al 0] d by auto
  moreover have "card A = length al" using d(2) b(2) card_image [of "region H" "set al"] distinct_card [of al] by (auto simp: inj_on_def region_def)
  ultimately show ?thesis by (simp add: get_memory_info_def)
qed

section \<open>Properties\<close>


text \<open>
  C13: An allocation returns a null pointer and leaves the regions as they are, or a region of at least the requested size that
  is disjoint from all allocated ones. It always returns.
\<close>

theorem MemoryPoolAlloc_region:
  assumes "mp_inv mal (mp, H) R" "want < 2 ^ 64 - 44"
  shows "\<exists>p mp' H'. MemoryPoolAlloc mal want mp H = Some (ok (p, mp', H')) \<and>
     (p = 0 \<and> mp_inv mal (mp', H') R \<or>
      (\<exists>n. want \<le> n \<and> mp_inv mal (mp', H') (insert (p, n) R) \<and> (\<forall>(q, m)\<in>R. p + n \<le> q \<or> q + m \<le> p)))"
proof -
  obtain p s where r: "MemoryPoolAlloc mal want mp H = Some (ok (p, s))"
    "p = 0 \<and> mp_inv mal s R \<or> p \<noteq> 0 \<and> (\<exists>n. want \<le> n \<and> mp_inv mal s (insert (p, n) R) \<and> (p, n) \<notin> R)"
    using MemoryPoolAlloc_ok [OF assms(1), of want] assms(2) unfolding alloc_result_def by auto
  have "\<forall>(q, m)\<in>R. p + n \<le> q \<or> q + m \<le> p" if "mp_inv mal s (insert (p, n) R)" "(p, n) \<notin> R" for n
    using pool_disjoint [OF that(1), of p n] that(2) by fastforce
  then show ?thesis using r by (cases s) blast
qed

text \<open>
  C14: A release removes exactly the region, and its memory can be used again.
\<close>

theorem MemoryPoolFree_region:
  assumes "mp_inv mal (mp, H) R" "(p, n) \<in> R"
  shows "\<exists>mp' H'. MemoryPoolFree p mp H = Some (ok (0, mp', H')) \<and> mp_inv mal (mp', H') (R - {(p, n)}) \<and> GetProgMemory mp' = GetProgMemory mp - n"
proof -
  obtain mp' H' where r: "MemoryPoolFree p mp H = Some (ok (0, mp', H'))" "mp_inv mal (mp', H') (R - {(p, n)})"
    using MemoryPoolFree_ok [OF assms] by fastforce
  have "GetProgMemory mp' = (\<Sum>r\<in>R - {(p, n)}. snd r)" "GetProgMemory mp = (\<Sum>r\<in>R. snd r)" "finite R"
    using GetProgMemory_sum [OF r(2)] GetProgMemory_sum [OF assms(1)] by auto
  then have "GetProgMemory mp' = GetProgMemory mp - n" using sum_diff1_nat [of snd R "(p, n)"] assms(2) by simp
  then show ?thesis using r by blast
qed

section \<open>Blocks that are smaller than the pool\<close>

text \<open>
  The end of a block is computed from the size of the pool, not of the block. In a block that is smaller the loop runs past
  the end and reads a header there.
\<close>

lemma merge_right_beyond:
  assumes "merging H a e ls p rs fl fs ah al" "\<And>x. x \<in> set rs \<Longrightarrow> cfree H x" "e < bound" "hdr H e = None"
  shows "merge_right bound p (p + csz H p) fl H = Some (fault OutOfBounds)"
  using assms
proof (induction rs arbitrary: H fl fs)
  case Nil
  note m = mergingD [OF Nil.prems(1)]
  have "p + csz H p = e" "e \<noteq> 0" using m(2,4) tiles_le [OF m(4)] by (auto simp: tiles_append)
  then show ?case using Nil.prems(3,4) by (subst merge_right.simps) (simp add: rdh_def)
next
  case (Cons q rs)
  note m = mergingD [OF Cons.prems(1)]
  have q: "q = p + csz H p" using m(4) by (auto simp: tiles_append)
  have qx: "q \<in> set (ls @ p # q # rs)" "q \<noteq> p" using tiles_distinct [OF m(4)] by auto
  have lt: "q < bound" "q \<noteq> 0" using tiles_bounds [OF m(4) qx(1)] m(2) Cons.prems(3) by auto
  obtain c where c: "hdr H q = Some c" using tiles_bounds [OF m(4) qx(1)] by blast
  have free: "cfree H q" using Cons.prems(2) by simp
  obtain fl1 fs1 d0 H1 where r: "rbind (dlink_del fl q H) (\<lambda>(fl, H1). rbind (rdh H1 q) (\<lambda>d0. rbind (rdh H1 p) (\<lambda>d1.
         ok (fl, d0, wrh p (d1\<lparr>ck_alloc_mem := u64 (int (ck_alloc_mem d1 + ck_alloc_mem d0))\<rparr>) H1)))) = ok (fl1, d0, H1)"
    "ck_alloc_mem d0 = csz H q" "csz H1 p = csz H p + csz H q" "merging H1 a e ls p rs fl1 fs1 ah al" "touched a e H H1"
    "\<forall>y. y \<noteq> p \<longrightarrow> map_option body (hdr H1 y) = map_option body (hdr H y)"
    using merge_round [OF Cons.prems(1) free] by blast
  have "hdr H1 e = None" using r(5) Cons.prems(4) unfolding touched_def by (metis order_refl)
  moreover have "cfree H1 x" if "x \<in> set rs" for x
  proof -
    have "x \<in> set (ls @ p # q # rs)" "x \<noteq> p" using tiles_distinct [OF m(4)] that by auto
    then show ?thesis using body_eq(2) r(6) tiles_bounds [OF m(4)] Cons.prems(2) [of x] that by (metis list.set_intros(2))
  qed
  ultimately have "merge_right bound p (p + csz H1 p) fl1 H1 = Some (fault OutOfBounds)" using Cons.IH [OF r(4) _ Cons.prems(3)] by blast
  moreover have "ck_is_free c" "q + ck_alloc_mem d0 = p + csz H1 p" using free c r(2,3) q by simp_all
  ultimately show ?case using merge_right_step [OF c lt(2,1) _ r(1)] unfolding q [symmetric] by simp
qed

text \<open>
  C40: When the last allocated chunk of a block that is smaller than the pool is released, \<open>merge_free_chunk\<close> reads the bytes
  behind the block as a header. With the limits of InitServer.c (500 MB and 300 MB) every block but the first is smaller.
\<close>

theorem MemoryPoolFree_small_block:
  assumes "sep H" "mp_mlist mp = mm # ms" "mp_auto_extend mp" "block_inv H mm (ls @ ck # rs) fs al" "\<not> cfree H ck"
    and "\<forall>x\<in>set rs. cfree H x" "mm_pool_size mm < mp_mem_pool_size mp" "hdr H (mm_end mm) = None"
  shows "MemoryPoolFree (ck + MP_CHUNKHEADER) mp H = Some (fault OutOfBounds)"
proof -
  note b = block_invD [OF assms(4)]
  have x: "ck \<in> set (ls @ ck # rs)" by simp
  then have "ck \<in> set al" using b(6) assms(5) by blast
  then obtain us vs where al: "al = us @ ck # vs" by (auto dest: split_list)
  obtain mm1 H1 where r: "release_chunk ck mm H = ok (mm1, H1)" "sep H1" "block_core H1 mm1 (ls @ ck # rs) (ck # fs) (us @ vs)"
     "touched (mm_start mm) (mm_start mm + mm_pool_size mm) H H1" "mm_start mm1 = mm_start mm" "mm_pool_size mm1 = mm_pool_size mm"
     "\<forall>x\<in>set (ls @ ck # rs). csz H1 x = csz H x \<and> cfree H1 x = (cfree H x \<or> x = ck)"
    using release_chunk_ok [OF assms(1), of mm "ls @ ck # rs" fs us ck vs] assms(4) unfolding al by blast
  have e: "hdr H1 (mm_end mm) = None" using r(4) assms(8) unfolding touched_def mm_end_def by (metis order_refl)
  have fr: "cfree H1 ck" "\<forall>x\<in>set rs. cfree H1 x" using r(7) assms(6) by auto
  have t: "tiles H1 (mm_start mm) (ls @ ck # rs) (mm_end mm)" "successively (foot H1) (ls @ ck # rs)" "0 < mm_start mm"
    using r(3,5,6) by (auto simp: block_core_def tiling_def mm_end_def)
  have dist: "distinct (ls @ ck # rs)" by (rule tiles_distinct [OF t(1)])
  have "successively (not_both_free H) ls" using b(2) by (auto simp: successively_append_iff)
  then have nb: "successively (not_both_free H1) ls" by (rule not_both_free_mono) (use r(7) dist in auto)
  define p where "p = (if ls \<noteq> [] \<and> cfree H1 (last ls) then last ls else ck)"
  obtain js qs where xs: "ls @ ck # rs = js @ p # qs" and p: "cfree H1 p" and qs: "qs = rs \<or> qs = ck # rs"
  proof (cases "ls \<noteq> [] \<and> cfree H1 (last ls)")
    case True then show ?thesis using that [of "butlast ls" "ck # rs"] by (simp add: p_def)
  next
    case False then show ?thesis using that [of ls rs] fr(1) by (auto simp: p_def)
  qed
  have left: "merge_left H1 (mm_start mm1) ck ck = Some (ok p)" unfolding p_def r(5) by (rule merge_left_ok [OF t(1,2) nb t(3) fr(1)])
  have px: "p \<in> set (ls @ ck # rs)" unfolding xs by simp
  obtain c where c: "hdr H1 p = Some c" "p \<noteq> 0" using tiles_bounds [OF t(1) px] t(3) by auto
  have "merging H1 (mm_start mm1) (mm_end mm) js p qs (mm_free_list mm1) (ck # fs) (mm_alloc_list mm1) (us @ vs)"
    using merging_start [OF r(2,3) xs p] r(5,6) by (simp add: mm_end_def)
  then have "merge_right (mm_start mm1 + mp_mem_pool_size mp) p (p + csz H1 p) (mm_free_list mm1) H1 = Some (fault OutOfBounds)"
    by (rule merge_right_beyond) (use fr qs e assms(7) r(5) in \<open>auto simp: mm_end_def\<close>)
  then have m: "merge_free_chunk (mp_mem_pool_size mp) mm1 ck H1 = Some (fault OutOfBounds)" using left c by (simp add: merge_free_chunk_def rdh_def)
  have "mm_start mm \<le> ck" "ck + csz H ck \<le> mm_start mm + mm_pool_size mm" "MP_CHUNKHEADER + MP_CHUNKEND < csz H ck" using tiles_bounds [OF b(9) x] by auto
  then have "find_memory_list (mp_mem_pool_size mp) (mm # ms) (ck + MP_CHUNKHEADER) 0 = Some 0" using assms(7) by simp
  then show ?thesis using r(1) m assms(2,3) by (simp add: MemoryPoolFree_def chunk_sizes)
qed

section \<open>Instances\<close>

text \<open>
  A pool of 400 bytes that may grow to 1000, in an empty store; \<open>malloc\<close> gives it blocks at multiples of 4096.
\<close>

definition mem0 :: cmem where
  "mem0 = \<lparr>hdr = (\<lambda>_. None), ftr = (\<lambda>_. None)\<rparr>"

definition mal0 :: "nat \<Rightarrow> nat" where
  "mal0 i = (if i < 8 then 4096 * (i + 1) else 0)"

definition pool0 :: MemoryPool where
  "pool0 = the (fst (MemoryPoolInit 1000 400 True 4096 False mem0))"

definition mem1 :: cmem where
  "mem1 = snd (MemoryPoolInit 1000 400 True 4096 False mem0)"

lemma sep_mem0: "sep mem0"
  by (simp add: sep_def mem0_def)

lemma init0: "MemoryPoolInit 1000 400 True 4096 False mem0 = (Some pool0, mem1)"
  by (simp add: MemoryPoolInit_def pool0_def mem1_def MP_INIT_MEMORY_STRUCT_def)

lemma config0: "config_ok mal0 1000 400 False"
  by (simp add: config_ok_def growth_ok_def chunk_sizes)

lemma blk0: "mm_end (blk 4096 400) < 2 ^ 63"
  by (simp add: blk_def new_block_def mm_end_def sizeof_MP_Memory_def)

lemma fresh0: "fresh mal0 400 [blk 4096 400]"
  unfolding fresh_def by (auto simp: mal0_def blk_def new_block_def mm_end_def sizeof_MP_Memory_def apart_def)

lemma pool0_inv: "mp_inv mal0 (pool0, mem1) {}"
  by (rule MemoryPoolInit_ok [OF sep_mem0 config0 blk0 init0 fresh0])

text \<open>The sizes of InitServer.c are covered as long as the pool is not extended.\<close>

lemma config_InitServer: "config_ok (\<lambda>_. 0) (500 * 2 ^ 20) (300 * 2 ^ 20) False \<and> \<not> config_ok mal0 (500 * 2 ^ 20) (300 * 2 ^ 20) False"
  by (auto simp: config_ok_def growth_ok_def chunk_sizes mal0_def intro!: exI [of _ 1])


theorem MemoryPoolAlloc_region_witness:
  "\<exists>p mp' H'. MemoryPoolAlloc mal0 100 pool0 mem1 = Some (ok (p, mp', H')) \<and>
     (p = 0 \<and> mp_inv mal0 (mp', H') {} \<or>
      (\<exists>n. 100 \<le> n \<and> mp_inv mal0 (mp', H') (insert (p, n) {}) \<and> (\<forall>(q, m)\<in>{}. p + n \<le> q \<or> q + m \<le> p)))"
  by (rule MemoryPoolAlloc_region [OF pool0_inv]) simp

text \<open>The first allocation takes the front of the first block.\<close>

lemma alloc0:
  "\<exists>mp' H'. MemoryPoolAlloc mal0 100 pool0 mem1 = Some (ok (4192, mp', H')) \<and> (\<exists>n. mp_inv mal0 (mp', H') {(4192, n)})"
proof -
  obtain p mp' H' where r: "MemoryPoolAlloc mal0 100 pool0 mem1 = Some (ok (p, mp', H'))" "p = 0 \<or> (\<exists>n. mp_inv mal0 (mp', H') {(p, n)})"
    using MemoryPoolAlloc_ok [OF pool0_inv, of 100] by (auto simp: alloc_result_def)
  have need: "MP_ALIGN_SIZE (u64 (int (100 + MP_CHUNKHEADER + MP_CHUNKEND))) = 144"
    by (simp add: MP_ALIGN_SIZE_def u64_def chunk_sizes)
  have h: "hdr mem1 4160 = Some \<lparr>ck_alloc_mem = 400, ck_prev = 0, ck_next = 0, ck_is_free = True\<rparr>"
    by (simp add: mem1_def MemoryPoolInit_def MP_INIT_MEMORY_STRUCT_def new_block_def sizeof_MP_Memory_def hdr_wrh)
  obtain mm where ml: "mp_mlist pool0 = [mm]" "mm_alloc_mem mm = 0" "mm_free_list mm = 4160" "mp_mem_pool_size pool0 = 400"
    by (simp add: pool0_def MemoryPoolInit_def MP_INIT_MEMORY_STRUCT_def new_block_def sizeof_MP_Memory_def)
  have f: "find_free mem1 144 4160 = Some (ok 4160)" using h by (subst find_free.simps) (simp add: rdh_def)
  have u: "u64 400 = 400" by (simp add: u64_def)
  obtain A where "holds mem1 mm A" using mp_invD(11) [OF pool0_inv] ml(1) by (auto simp: list_all2_Cons1)
  then obtain mm' H2 where t: "take_chunk 144 4160 mm mem1 = ok (4192, mm', H2)"
    using take_region [OF mp_invD(1) [OF pool0_inv], of mm A 144] f ml(3) by (auto simp: chunk_sizes)
  have "alloc_retry mal0 144 pool0 mem1 = Some (ok (4192, pool0\<lparr>mp_mlist := [mm']\<rparr>, H2))"
    using ml f u t by (subst alloc_retry.simps) (simp add: Let_def)
  then have "p = 4192" using r(1) ml(4) unfolding MemoryPoolAlloc_def need by (simp add: Let_def)
  then show ?thesis using r by auto
qed

theorem MemoryPoolFree_region_witness:
  "\<exists>mp H n mp' H'. MemoryPoolAlloc mal0 100 pool0 mem1 = Some (ok (4192, mp, H)) \<and> MemoryPoolFree 4192 mp H = Some (ok (0, mp', H')) \<and>
     mp_inv mal0 (mp', H') ({(4192, n)} - {(4192, n)}) \<and> GetProgMemory mp' = GetProgMemory mp - n"
proof -
  obtain mp H n where a: "MemoryPoolAlloc mal0 100 pool0 mem1 = Some (ok (4192, mp, H))" "mp_inv mal0 (mp, H) {(4192, n)}" using alloc0 by blast
  show ?thesis using MemoryPoolFree_region [OF a(2), of 4192 n] a(1) by blast
qed

text \<open>A pool of 400 bytes with an added block of 100 bytes at 9000, which is one allocated chunk.\<close>

definition small_mem :: cmem where
  "small_mem = \<lparr>hdr = [9000 \<mapsto> \<lparr>ck_alloc_mem = 100, ck_prev = 0, ck_next = 0, ck_is_free = False\<rparr>], ftr = (\<lambda>_. None)\<rparr>"

definition small_block :: MP_Memory where
  "small_block = \<lparr>mm_start = 9000, mm_id = 1, mm_pool_size = 100, mm_alloc_mem = 100, mm_alloc_prog_mem = 60, mm_free_list = 0, mm_alloc_list = 9000\<rparr>"

definition small_mp :: MemoryPool where
  "small_mp = pool0\<lparr>mp_mlist := [small_block]\<rparr>"

theorem MemoryPoolFree_small_block_witness: "MemoryPoolFree (9000 + MP_CHUNKHEADER) small_mp small_mem = Some (fault OutOfBounds)"
proof (rule MemoryPoolFree_small_block)
  show "sep small_mem" by (simp add: sep_def small_mem_def)
  show "mp_mlist small_mp = small_block # []" by (simp add: small_mp_def)
  show "block_inv small_mem small_block ([] @ 9000 # []) [] [9000]"
    by (simp add: block_inv_def tiling_def dlist_def small_mem_def small_block_def chunk_sizes)
  show "mp_auto_extend small_mp" "mm_pool_size small_block < mp_mem_pool_size small_mp"
    by (simp_all add: small_mp_def small_block_def pool0_def MemoryPoolInit_def MP_INIT_MEMORY_STRUCT_def)
qed (simp_all add: small_mem_def small_block_def mm_end_def)

end
