(* ===== verification/Startup.thy ===== *)
theory Startup
  imports SignIn
begin

text \<open>
  Start and end of the program: src/src/InitServer.c (list heads, loading of the registered users and devices), the release of
  the lists in src/src/main.c, the listing of src/src/PrintAllUserAndIotDevice.c, the console of src/src/ManualCtrlMode.c and the
  date comparison of src/src/DateCmp.c.
\<close>

section \<open>Start\<close>

text \<open>
  Two heads are allocated together; \<open>mal i\<close> tells which of the two allocations of round \<open>i\<close> succeed. The loop goes on only
  while both fail, and both heads are then written.
\<close>

partial_function (option) alloc_heads :: "(nat \<Rightarrow> bool \<times> bool) \<Rightarrow> nat \<Rightarrow> unit res option" where
  "alloc_heads mal i = (case mal i of (u, d) \<Rightarrow>
     if \<not> u \<and> \<not> d then alloc_heads mal (i + 1) else if u \<and> d then Some (ok ()) else Some (fault NullDeref))"

definition init_head :: "lst \<Rightarrow> unit op" where
  "init_head l w = oret () (w\<lparr>wd_store := (wd_store w)\<lparr>UserList.head := (UserList.head (wd_store w))(l := \<lparr>OnlineUserNum = 0, h_next = 0\<rparr>)\<rparr>,
     wd_mute := (wd_mute w)(l := False)\<rparr>)"

definition init_heads :: "(nat \<Rightarrow> bool \<times> bool) \<Rightarrow> lst \<Rightarrow> lst \<Rightarrow> unit op" where
  "init_heads mal u d w = (case alloc_heads mal 0 of None \<Rightarrow> None | Some r \<Rightarrow>
     obind (olift r) (\<lambda>_. obind (init_head u) (\<lambda>_. init_head d)) w)"

text \<open>A row of \<open>iotnode\<close>; other than in the reload, the key of the device is stored as its information.\<close>

definition start_iot_row :: "CLN \<Rightarrow> string option list \<Rightarrow> CLN op" where
  "start_iot_row a row =
     obind (col row 1) (\<lambda>c1. obind (olift (sprintf (USERID a) c1)) (\<lambda>uid.
     obind (col row 3) (\<lambda>c3. obind (olift (sprintf (USERPASSWORD a) c3)) (\<lambda>pw.
     obind (col row 0) (\<lambda>c0. obind (olift (sprintf (info a) c0)) (\<lambda>inf.
     obind (col row 2) (\<lambda>c2. obind (olift (sprintf (checkcode a) c2)) (\<lambda>cc.
       oret (a\<lparr>USERID := uid, USERPASSWORD := pw, USERKEY_ID := atoi c0, info := inf, checkcode := cc\<rparr>)))))))))"

definition load_registered :: "int op" where
  "load_registered =
     obind (fmt 50 ''SELECT * FROM user'') (\<lambda>q.
     with_conn 0 (\<lambda>k.
     obind (db_query q) (\<lambda>r.
       if failed r then release_then k (oret (-1))
       else obind (fetch_rows r) (\<lambda>rows. obind (load_rows user_row empty_cln rows) (\<lambda>a.
            obind (fmt 50 ''SELECT * FROM iotnode'') (\<lambda>q2.
            obind (db_query q2) (\<lambda>r2.
              if failed r2 then release_then k (oret (-1))
              else obind (fetch_rows r2) (\<lambda>rows2. obind (load_rows start_iot_row a rows2) (\<lambda>_. release_then k (oret 1))))))))))"

definition start_lists :: "(nat \<Rightarrow> bool \<times> bool) \<Rightarrow> (nat \<Rightarrow> bool \<times> bool) \<Rightarrow> int op" where
  "start_lists m1 m2 = obind (init_heads m1 OnlineUser OnlineIot) (\<lambda>_. obind (init_heads m2 RegistedUser RegistedIot) (\<lambda>_. load_registered))"

text \<open>
  \<open>initServer\<close> after the socket library is up; \<open>sock\<close> and \<open>bnd\<close> tell whether \<open>socket\<close> and \<open>bind\<close> succeed. The pools of
  threads, connections and memory are those of the other theories.
\<close>

definition initServer :: "bool \<Rightarrow> bool \<Rightarrow> (nat \<Rightarrow> bool \<times> bool) \<Rightarrow> (nat \<Rightarrow> bool \<times> bool) \<Rightarrow> string \<Rightarrow> string \<Rightarrow> int op" where
  "initServer sock bnd m1 m2 ServerID NetIP =
     (if \<not> sock \<or> \<not> bnd then oret (-1)
      else obind (start_lists m1 m2) (\<lambda>r.
             if r \<noteq> 1 then oret r
             else obind getAppVersion (\<lambda>_. obind (CreateServerInfoInSQL ServerID NetIP) (\<lambda>_. oret 1))))"

section \<open>End\<close>

text \<open>\<open>RELEASE_ONLINE_REG_NODE\<close>: each node is freed and then read for its successor.\<close>

partial_function (option) release_nodes :: "heap \<Rightarrow> nat \<Rightarrow> heap res option" where
  "release_nodes h temp =
     (if temp = 0 then Some (ok h)
      else case free temp h of Inl e \<Rightarrow> Some (Inl e)
           | Inr h1 \<Rightarrow> (case deref h1 temp of Inl e \<Rightarrow> Some (Inl e) | Inr u \<Rightarrow> release_nodes h1 (u_next u)))"

fun release_heads :: "lst list \<Rightarrow> store \<Rightarrow> store res option" where
  "release_heads [] st = Some (ok st)"
| "release_heads (l # ls) st = (case release_nodes (heap st) (h_next (UserList.head st l)) of None \<Rightarrow> None | Some (Inl e) \<Rightarrow> Some (Inl e)
     | Some (Inr h) \<Rightarrow> release_heads ls (st\<lparr>heap := h\<rparr>))"

definition RELEASE_ONLINE_REG_NODE :: "store \<Rightarrow> store res option" where
  "RELEASE_ONLINE_REG_NODE st = release_heads [RegistedIot, RegistedUser, OnlineIot, OnlineUser] st"

section \<open>Listing\<close>

text \<open>What is printed for a list, entry by entry, numbered from \<open>paixu\<close>.\<close>

definition entry_line :: "string \<Rightarrow> string \<Rightarrow> nat \<Rightarrow> string \<Rightarrow> int \<Rightarrow> string" where
  "entry_line label gap paixu uid k = ''|'' @ dec_nat paixu @ label @ uid @ gap @ ''| Id-Key:'' @ dec_int k @ [CHR 0x09] @ ''|'' @ [CHR 0x0A]"

partial_function (option) list_lines :: "heap \<Rightarrow> string \<Rightarrow> string \<Rightarrow> nat \<Rightarrow> nat \<Rightarrow> string list \<Rightarrow> string list res option" where
  "list_lines h label gap Tag paixu out =
     (if Tag = 0 then Some (ok out)
      else case deref h Tag of Inl e \<Rightarrow> Some (Inl e)
           | Inr u \<Rightarrow> (case str_of (u_USERID u) of Inl e \<Rightarrow> Some (Inl e)
               | Inr s \<Rightarrow> list_lines h label gap (u_next u) (paixu + 1) (out @ [entry_line label gap paixu s (u_USERKEY_ID u)])))"

definition PrintAllUserAndIotDevice :: "store \<Rightarrow> string list res option" where
  "PrintAllUserAndIotDevice st =
     (let Tag = h_next (UserList.head st RegistedUser) in
      if Tag = 0 then Some (ok [])
      else case list_lines (heap st) ''_USERID:'' [CHR 0x09] Tag 1 [] of None \<Rightarrow> None | Some (Inl e) \<Rightarrow> Some (Inl e)
           | Some (Inr us) \<Rightarrow> (case list_lines (heap st) ''_IOTDeviceID:'' ('' '' @ [CHR 0x09]) (h_next (UserList.head st RegistedIot)) 1 (us @ [[CHR 0x0A]]) of
                None \<Rightarrow> None | Some (Inl e) \<Rightarrow> Some (Inl e)
              | Some (Inr ds) \<Rightarrow> Some (ok (ds @ [[CHR 0x0A] @ ''Print User And IotDeviceOK!'' @ [CHR 0x0A]]))))"

section \<open>Console\<close>

text \<open>
  The flags of the console and what a key does. \<open>isShutDown\<close> is tested only outside of the menu, and a key has to be
  pressed to enter it.
\<close>

record console =
  isShutDown :: bool
  ManualCtrl :: bool
  in_menu :: bool

datatype action = NoAction | Connect | Version | PrintAll | PrintOnline | InputErr

definition menu_key :: "char \<Rightarrow> console \<Rightarrow> console \<times> action" where
  "menu_key c s =
     (if c = CHR ''1'' then (s, Connect)
      else if c = CHR ''2'' then (s, Version)
      else if c = CHR ''3'' then (s, PrintAll)
      else if c = CHR ''4'' then (s, PrintOnline)
      else if c = CHR ''5'' then (s\<lparr>in_menu := False, ManualCtrl := False\<rparr>, NoAction)
      else if c = CHR ''6'' then (s\<lparr>isShutDown := True\<rparr>, NoAction)
      else (s, InputErr))"

text \<open>The keys pressed until the console thread ends; the keys that were not read are returned.\<close>

fun EnterManualCtrlMode :: "char list \<Rightarrow> console \<Rightarrow> console \<times> action list \<times> char list" where
  "EnterManualCtrlMode [] s = (s, [], [])"
| "EnterManualCtrlMode (c # cs) s =
     (if in_menu s then case menu_key c s of (s', a) \<Rightarrow> case EnterManualCtrlMode cs s' of (s'', as, rest) \<Rightarrow> (s'', a # as, rest)
      else if isShutDown s then (s, [], c # cs)
      else EnterManualCtrlMode cs (s\<lparr>in_menu := True, ManualCtrl := True\<rparr>))"

section \<open>Dates\<close>

text \<open>\<open>mktime\<close> of the C library is a parameter: year, month and day to seconds.\<close>

definition CmpDate :: "(int \<Rightarrow> int \<Rightarrow> int \<Rightarrow> int) \<Rightarrow> int \<Rightarrow> int \<Rightarrow> int \<Rightarrow> int \<Rightarrow> int" where
  "CmpDate mktime now year month day = i32 (now - mktime (year - 1900) (month - 1) day)"

section \<open>Loading\<close>

text \<open>The columns of a row as strings, and the rows of the two tables that fit the fields of the server.\<close>

definition field :: "string option list \<Rightarrow> nat \<Rightarrow> string" where
  "field row i = (case row ! i of None \<Rightarrow> [] | Some s \<Rightarrow> cstr s)"

definition user_row_ok :: "string option list \<Rightarrow> bool" where
  "user_row_ok row = (4 < length row \<and> row ! 0 \<noteq> None \<and> row ! 1 \<noteq> None \<and> row ! 3 \<noteq> None \<and> row ! 4 \<noteq> None \<and>
     length (field row 1) = 11 \<and> length (field row 3) < 33 \<and> length (field row 4) < 100)"

definition iot_row_ok :: "string option list \<Rightarrow> bool" where
  "iot_row_ok row = (3 < length row \<and> row ! 0 \<noteq> None \<and> row ! 1 \<noteq> None \<and> row ! 2 \<noteq> None \<and> row ! 3 \<noteq> None \<and>
     length (field row 1) < 11 \<and> length (field row 3) < 33 \<and> length (field row 2) < 18 \<and> length (field row 2) + length (field row 0) + 2 < 100)"

text \<open>What a row leaves in the structure that is then registered.\<close>

definition row_result :: "(CLN \<Rightarrow> string option list \<Rightarrow> CLN op) \<Rightarrow> lst \<Rightarrow> string option list \<Rightarrow> bool" where
  "row_result rf l row \<longleftrightarrow> (\<forall>a w. cln_wf a \<longrightarrow> (\<exists>a'. rf a row w = Some (Inr (a', w)) \<and> cln_wf a' \<and> reg_list a' = l \<and> cstr (USERID a') = field row 1 \<and>
     cstr (USERPASSWORD a') = field row 3 \<and> USERKEY_ID a' = atoi (field row 0) \<and>
     (l = RegistedIot \<longrightarrow> length (cstr (checkcode a')) + length (cstr (info a')) + 2 < 100)))"

lemma NUL_cstr: "NUL \<notin> set (cstr s)"
  by (auto simp: cstr_def dest: set_takeWhileD)

lemma olift_sprintf:
  assumes "str_field n b" "length (cstr s) < n"
  shows "\<exists>b'. olift (sprintf b (cstr s)) = oret b' \<and> str_field n b' \<and> cstr b' = cstr s"
proof -
  obtain b' where "sprintf b (cstr s) = Inr b'" "str_field n b'" "cstr b' = cstr s"
    using str_field_sprintf [of n b "cstr s"] assms NUL_cstr by blast
  then show ?thesis by (auto simp: olift_def oret_def fun_eq_iff)
qed

lemma obind_oret [simp]: "obind (oret x) f = f x"
  by (simp add: obind_def oret_def fun_eq_iff)

lemma col_ok: "i < length row \<Longrightarrow> row ! i = Some s \<Longrightarrow> col row i = oret (cstr s)"
  by (simp add: col_def)

lemma num_lt: "(0::nat) < 3" "(1::nat) < 3" "(2::nat) < 3" "(0::nat) < 4" "(1::nat) < 4" "(3::nat) < 4"
  by simp_all

lemma user_row_result: "user_row_ok row \<Longrightarrow> row_result user_row RegistedUser row"
  unfolding row_result_def
proof (intro allI impI)
  fix a :: CLN and w :: world assume ok: "user_row_ok row" and wf: "cln_wf a"
  obtain k i p f where row: "row ! 0 = Some k" "row ! 1 = Some i" "row ! 3 = Some p" "row ! 4 = Some f" "4 < length row"
    and len: "length (cstr i) = 11" "length (cstr p) < 33" "length (cstr f) < 100"
    using ok by (auto simp: user_row_ok_def field_def)
  obtain u where u: "olift (sprintf (USERID a) (cstr i)) = oret u" "str_field 12 u" "cstr u = cstr i"
    using olift_sprintf [of 12 "USERID a" i] wf len by (auto simp: cln_wf_def)
  obtain v where v: "olift (sprintf (USERPASSWORD a) (cstr p)) = oret v" "str_field 33 v" "cstr v = cstr p"
    using olift_sprintf [of 33 "USERPASSWORD a" p] wf len by (auto simp: cln_wf_def)
  obtain g where g: "olift (sprintf (info a) (cstr f)) = oret g" "str_field 100 g"
    using olift_sprintf [of 100 "info a" f] wf len by (auto simp: cln_wf_def)
  let ?a = "a\<lparr>USERID := u, USERPASSWORD := v, USERKEY_ID := atoi (cstr k), info := g\<rparr>"
  have c: "col row 0 = oret (cstr k)" "col row 1 = oret (cstr i)" "col row 3 = oret (cstr p)" "col row 4 = oret (cstr f)"
    using col_ok [OF less_trans [OF num_lt(4) row(5)] row(1)] col_ok [OF less_trans [OF num_lt(5) row(5)] row(2)]
      col_ok [OF less_trans [OF num_lt(6) row(5)] row(3)] col_ok [OF row(5) row(4)] by blast+
  have fld: "field row 0 = cstr k" "field row 1 = cstr i" "field row 3 = cstr p"
    unfolding field_def row by simp_all
  have "user_row a row w = Some (Inr (?a, w))"
    unfolding user_row_def c obind_oret u(1) v(1) g(1) by (simp add: oret_def)
  moreover have "cln_wf ?a" using wf u v g by (simp add: cln_wf_def)
  ultimately show "\<exists>a'. user_row a row w = Some (Inr (a', w)) \<and> cln_wf a' \<and> reg_list a' = RegistedUser \<and> cstr (USERID a') = field row 1 \<and>
     cstr (USERPASSWORD a') = field row 3 \<and> USERKEY_ID a' = atoi (field row 0) \<and>
     (RegistedUser = RegistedIot \<longrightarrow> length (cstr (checkcode a')) + length (cstr (info a')) + 2 < 100)"
    using u(3) v(3) len(1) by (intro exI [of _ ?a]) (simp add: fld reg_list_def del: One_nat_def)
qed

lemma start_iot_row_result: "iot_row_ok row \<Longrightarrow> row_result start_iot_row RegistedIot row"
  unfolding row_result_def
proof (intro allI impI)
  fix a :: CLN and w :: world assume ok: "iot_row_ok row" and wf: "cln_wf a"
  obtain k i c p where row: "row ! 0 = Some k" "row ! 1 = Some i" "row ! 2 = Some c" "row ! 3 = Some p" "3 < length row"
    and len: "length (cstr i) < 11" "length (cstr p) < 33" "length (cstr c) < 18" "length (cstr c) + length (cstr k) + 2 < 100"
    using ok by (auto simp: iot_row_ok_def field_def)
  obtain u where u: "olift (sprintf (USERID a) (cstr i)) = oret u" "str_field 12 u" "cstr u = cstr i"
    using olift_sprintf [of 12 "USERID a" i] wf len by (auto simp: cln_wf_def)
  obtain v where v: "olift (sprintf (USERPASSWORD a) (cstr p)) = oret v" "str_field 33 v" "cstr v = cstr p"
    using olift_sprintf [of 33 "USERPASSWORD a" p] wf len by (auto simp: cln_wf_def)
  obtain g where g: "olift (sprintf (info a) (cstr k)) = oret g" "str_field 100 g" "cstr g = cstr k"
    using olift_sprintf [of 100 "info a" k] wf len by (auto simp: cln_wf_def)
  obtain d where d: "olift (sprintf (checkcode a) (cstr c)) = oret d" "str_field 18 d" "cstr d = cstr c"
    using olift_sprintf [of 18 "checkcode a" c] wf len by (auto simp: cln_wf_def)
  let ?a = "a\<lparr>USERID := u, USERPASSWORD := v, USERKEY_ID := atoi (cstr k), info := g, checkcode := d\<rparr>"
  have c: "col row 0 = oret (cstr k)" "col row 1 = oret (cstr i)" "col row 2 = oret (cstr c)" "col row 3 = oret (cstr p)"
    using col_ok [OF less_trans [OF num_lt(1) row(5)] row(1)] col_ok [OF less_trans [OF num_lt(2) row(5)] row(2)]
      col_ok [OF less_trans [OF num_lt(3) row(5)] row(3)] col_ok [OF row(5) row(4)] by blast+
  have fld: "field row 0 = cstr k" "field row 1 = cstr i" "field row 3 = cstr p"
    unfolding field_def row by simp_all
  have "start_iot_row a row w = Some (Inr (?a, w))"
    unfolding start_iot_row_def c obind_oret u(1) v(1) g(1) d(1) by (simp add: oret_def)
  moreover have "cln_wf ?a" using wf u v g d by (simp add: cln_wf_def)
  ultimately show "\<exists>a'. start_iot_row a row w = Some (Inr (a', w)) \<and> cln_wf a' \<and> reg_list a' = RegistedIot \<and> cstr (USERID a') = field row 1 \<and>
     cstr (USERPASSWORD a') = field row 3 \<and> USERKEY_ID a' = atoi (field row 0) \<and>
     (RegistedIot = RegistedIot \<longrightarrow> length (cstr (checkcode a')) + length (cstr (info a')) + 2 < 100)"
    using u(3) v(3) g(3) d(3) len by (intro exI [of _ ?a]) (simp add: fld reg_list_def del: One_nat_def)
qed

text \<open>The allocations to come are fresh.\<close>

definition mal_ok :: "world \<Rightarrow> bool" where
  "mal_ok w \<longleftrightarrow> (\<forall>i\<ge>wd_mc w. fresh_block (wd_store w) (wd_mal w i 0) \<and> (\<forall>j>i. wd_mal w i 0 \<noteq> wd_mal w j 0))"

definition has_entry :: "store \<Rightarrow> nat list \<Rightarrow> string option list \<Rightarrow> bool" where
  "has_entry st xs row \<longleftrightarrow> (\<exists>x\<in>set xs. cstr (u_USERID (node st x)) = field row 1 \<and> cstr (u_USERPASSWORD (node st x)) = field row 3 \<and> u_USERKEY_ID (node st x) = atoi (field row 0))"

lemma load_rows_ok:
  assumes "store_rel (wd_store w) L" "mal_ok w" "cln_wf a" "\<And>row. row \<in> set rows \<Longrightarrow> row_result rf l row" "length (L l) + length rows < 2 ^ 31"
  shows "\<exists>a' st L'. load_rows rf a rows w = Some (Inr (a', w\<lparr>wd_store := st, wd_mc := wd_mc w + length rows\<rparr>)) \<and> cln_wf a' \<and> store_rel st L' \<and>
     mal_ok (w\<lparr>wd_store := st, wd_mc := wd_mc w + length rows\<rparr>) \<and> length (L' l) = length (L l) + length rows \<and> (\<forall>k. k \<noteq> l \<longrightarrow> L' k = L k) \<and>
     (\<forall>row\<in>set rows. has_entry st (L' l) row) \<and> (\<forall>k. \<forall>x\<in>set (L k). x \<in> set (L' k) \<and> node st x = node (wd_store w) x)"
  using assms
proof (induction rows arbitrary: w L a)
  case Nil
  then show ?case by (intro exI [of _ a] exI [of _ "wd_store w"] exI [of _ L]) (simp add: oret_def)
next
  case (Cons row rows)
  obtain a1 where a1: "rf a row w = Some (Inr (a1, w))" "cln_wf a1" "reg_list a1 = l" "cstr (USERID a1) = field row 1" "cstr (USERPASSWORD a1) = field row 3"
    "USERKEY_ID a1 = atoi (field row 0)" "l = RegistedIot \<longrightarrow> length (cstr (checkcode a1)) + length (cstr (info a1)) + 2 < 100"
    using Cons.prems(4) [OF list.set_intros(1)] Cons.prems(3) unfolding row_result_def by blast
  let ?p = "wd_mal w (wd_mc w) 0"
  have fr: "fresh_block (wd_store w) ?p" using Cons.prems(2) by (simp add: mal_ok_def)
  have info: "length (cstr (USERID a1)) < 11 \<Longrightarrow> length (cstr (checkcode a1)) + length (cstr (info a1)) + 2 < 100"
    using a1(3,7) by (auto simp: reg_list_def split: if_splits)
  obtain u where u: "AddtoLocal (wd_mal w (wd_mc w)) a1 (wd_store w) = Inr (1, push l ?p u (wd_store w))" "cstr (u_USERID u) = field row 1"
    "cstr (u_USERPASSWORD u) = field row 3" "u_USERKEY_ID u = atoi (field row 0)"
    using AddtoLocal_node [OF a1(2) _ info, of "wd_mal w (wd_mc w)" "wd_store w"] fr a1(3-6) by (auto simp: fresh_block_def)
  let ?st = "push l ?p u (wd_store w)" and ?L = "L(l := ?p # L l)"
  let ?w = "w\<lparr>wd_store := ?st, wd_mc := wd_mc w + 1\<rparr>"
  have add: "add_local a1 w = Some (Inr (1, ?w))" using u(1) by (simp add: add_local_def)
  have rel: "store_rel ?st ?L" using ul.link_rel [OF Cons.prems(1) fr] Cons.prems(5) by simp
  have ne: "wd_mal w i 0 \<noteq> ?p" if "Suc (wd_mc w) \<le> i" for i
    using Cons.prems(2) that unfolding mal_ok_def by (metis Suc_le_lessD order_refl)
  have mo: "mal_ok ?w" using Cons.prems(2) by (auto simp: mal_ok_def fresh_block_def push_def dest: ne)
  have rel': "store_rel (wd_store ?w) ?L" using rel by simp
  have rest: "row_result rf l r" if "r \<in> set rows" for r using Cons.prems(4) [of r] that by simp
  have len: "length (?L l) + length rows < 2 ^ 31" using Cons.prems(5) by simp
  obtain a' st L' where IH: "load_rows rf a1 rows ?w = Some (Inr (a', ?w\<lparr>wd_store := st, wd_mc := wd_mc ?w + length rows\<rparr>))" "cln_wf a'" "store_rel st L'"
     "mal_ok (?w\<lparr>wd_store := st, wd_mc := wd_mc ?w + length rows\<rparr>)" "length (L' l) = length (?L l) + length rows" "\<forall>k. k \<noteq> l \<longrightarrow> L' k = ?L k"
     "\<forall>row\<in>set rows. has_entry st (L' l) row" "\<forall>k. \<forall>x\<in>set (?L k). x \<in> set (L' k) \<and> node st x = node (wd_store ?w) x"
    using Cons.IH [OF rel' mo a1(2) rest len] by blast
  have "load_rows rf a (row # rows) w = Some (Inr (a', w\<lparr>wd_store := st, wd_mc := wd_mc w + length (row # rows)\<rparr>))"
    using IH(1) by (simp add: obind_def a1(1) add)
  moreover have "has_entry st (L' l) row"
  proof -
    have "?p \<in> set (?L l)" by simp
    then have "?p \<in> set (L' l)" "node st ?p = node ?st ?p" using IH(8) by fastforce+
    moreover have "node ?st ?p = u\<lparr>u_next := h_next (UserList.head (wd_store w) l)\<rparr>" by (simp add: node_def push_def)
    ultimately show ?thesis using u(2-4) unfolding has_entry_def by (intro bexI [of _ ?p]) simp_all
  qed
  moreover have "x \<in> set (L' k) \<and> node st x = node (wd_store w) x" if x: "x \<in> set (L k)" for k x
  proof -
    have "x \<in> set (?L k)" using x by auto
    then have "x \<in> set (L' k)" "node st x = node ?st x" using IH(8) by fastforce+
    then show ?thesis using ul.link_old [OF Cons.prems(1) fr x] by simp
  qed
  ultimately show ?case using IH(2-7) by (intro exI [of _ a'] exI [of _ st] exI [of _ L']) simp
qed


section \<open>What the start leaves\<close>

definition heads_up :: "store \<Rightarrow> store" where
  "heads_up st = st\<lparr>UserList.head := (\<lambda>_. \<lparr>OnlineUserNum = 0, h_next = 0\<rparr>)\<rparr>"

abbreviation no_entries :: OnlineUserHead where
  "no_entries \<equiv> \<lparr>OnlineUserNum = 0, h_next = 0\<rparr>"

lemma init_heads_ok:
  assumes "m 0 = (True, True)"
  shows "init_heads m u d w = Some (Inr ((), w\<lparr>wd_store := (wd_store w)\<lparr>UserList.head := (UserList.head (wd_store w))(u := no_entries, d := no_entries)\<rparr>,
     wd_mute := (wd_mute w)(u := False, d := False)\<rparr>))"
proof -
  have "alloc_heads m 0 = Some (Inr ())" using assms by (subst alloc_heads.simps) simp
  then have "init_heads m u d w = obind (init_head u) (\<lambda>_. init_head d) w"
    by (simp add: init_heads_def obind_def olift_def)
  then show ?thesis by (simp add: obind_def init_head_def oret_def)
qed

lemma all_lists: "f(OnlineUser := x, OnlineIot := x, RegistedUser := x, RegistedIot := x) = (\<lambda>_. x)" for f :: "lst \<Rightarrow> 'a"
proof
  show "(f(OnlineUser := x, OnlineIot := x, RegistedUser := x, RegistedIot := x)) l = x" for l by (cases l) simp_all
qed

lemma start_heads:
  assumes "m1 0 = (True, True)" "m2 0 = (True, True)"
  shows "start_lists m1 m2 w = load_registered (w\<lparr>wd_store := heads_up (wd_store w), wd_mute := (\<lambda>_. False)\<rparr>)"
  by (simp add: start_lists_def obind_def init_heads_ok assms heads_up_def all_lists)

lemma heads_up_rel: "store_rel (heads_up st) (\<lambda>_. [])"
  by (simp add: store_rel_def heads_up_def)

lemma heads_up_heap [simp]: "heap (heads_up st) = heap st"
  by (simp add: heads_up_def)

lemma has_entry_mono:
  assumes "has_entry st xs row" "\<And>x. x \<in> set xs \<Longrightarrow> x \<in> set ys \<and> node st' x = node st x"
  shows "has_entry st' ys row"
proof -
  obtain x where "x \<in> set xs" "cstr (u_USERID (node st x)) = field row 1" "cstr (u_USERPASSWORD (node st x)) = field row 3"
    "u_USERKEY_ID (node st x) = atoi (field row 0)"
    using assms(1) unfolding has_entry_def by blast
  then show ?thesis unfolding has_entry_def using assms(2) [of x] by (intro bexI [of _ x]) simp_all
qed

lemma has_entry_signin:
  assumes "store_rel st L" "has_entry st (L (reg_list a)) row" "cln_wf a" "cstr (USERID a) = field row 1" "cstr (USERPASSWORD a) = field row 3"
  shows "Check_Id_Pwd st 0 a = Some (Inr 1)"
proof -
  have "\<exists>x\<in>set (L (reg_list a)). cstr (USERID a) = cstr (u_USERID (node st x)) \<and> cstr (USERPASSWORD a) = cstr (u_USERPASSWORD (node st x))"
    using assms(2,4,5) unfolding has_entry_def by metis
  then show ?thesis using Check_Id_Pwd_signin [OF assms(1,3)] by simp
qed

text \<open>The tables as the server returns them to the two queries of the start.\<close>

abbreviation "user_table w \<equiv> wd_query w (length (wd_qlog w)) ''SELECT * FROM user''"
abbreviation "iot_table w \<equiv> wd_query w (length (wd_qlog w) + 1) ''SELECT * FROM iotnode''"

definition tables_ok :: "world \<Rightarrow> bool" where
  "tables_ok w \<longleftrightarrow> q_err (user_table w) = None \<and> q_err (iot_table w) = None \<and> \<not> q_null (user_table w) \<and> \<not> q_null (iot_table w) \<and> list_all user_row_ok (q_rows (user_table w)) \<and>
     list_all iot_row_ok (q_rows (iot_table w)) \<and> length (q_rows (user_table w)) < 2 ^ 31 \<and> length (q_rows (iot_table w)) < 2 ^ 31"

lemma load_registered_ok:
  assumes "store_rel (wd_store w) (\<lambda>_. [])" "mal_ok w" "tables_ok w" "sql_get (wd_sql w) = Inr (Some k, s)"
  shows "\<exists>w' L. load_registered w = Some (Inr (1, w')) \<and> wd_sql w' = sql_release s k \<and> store_rel (wd_store w') L \<and>
     length (L RegistedUser) = length (q_rows (user_table w)) \<and> length (L RegistedIot) = length (q_rows (iot_table w)) \<and>
     (\<forall>row\<in>set (q_rows (user_table w)). has_entry (wd_store w') (L RegistedUser) row) \<and>
     (\<forall>row\<in>set (q_rows (iot_table w)). has_entry (wd_store w') (L RegistedIot) row)"
proof -
  let ?us = "q_rows (user_table w)" and ?ds = "q_rows (iot_table w)"
  let ?w1 = "w\<lparr>wd_sql := s, wd_qlog := wd_qlog w @ [''SELECT * FROM user'']\<rparr>"
  have t: "q_err (user_table w) = None \<and> \<not> q_null (user_table w)" "q_err (iot_table w) = None \<and> \<not> q_null (iot_table w)" "length ?us < 2 ^ 31" "length ?ds < 2 ^ 31"
    using assms(3) by (simp_all add: tables_ok_def)
  have ru: "row_result user_row RegistedUser row" if "row \<in> set ?us" for row
    using assms(3) that user_row_result by (simp add: tables_ok_def list_all_iff)
  have rd: "row_result start_iot_row RegistedIot row" if "row \<in> set ?ds" for row
    using assms(3) that start_iot_row_result by (simp add: tables_ok_def list_all_iff)
  have m1: "mal_ok ?w1" using assms(2) by (simp add: mal_ok_def)
  obtain a1 st1 L1 where l1: "load_rows user_row empty_cln ?us ?w1 = Some (Inr (a1, ?w1\<lparr>wd_store := st1, wd_mc := wd_mc ?w1 + length ?us\<rparr>))" "cln_wf a1"
     "store_rel st1 L1" "mal_ok (?w1\<lparr>wd_store := st1, wd_mc := wd_mc ?w1 + length ?us\<rparr>)" "length (L1 RegistedUser) = length ?us"
     "\<forall>k. k \<noteq> RegistedUser \<longrightarrow> L1 k = []" "\<forall>row\<in>set ?us. has_entry st1 (L1 RegistedUser) row"
    using load_rows_ok [where w = ?w1 and L = "\<lambda>_. []" and rf = user_row and l = RegistedUser and rows = ?us, OF _ m1 empty_cln_wf ru] assms(1) t(3) by simp blast
  let ?w2 = "?w1\<lparr>wd_store := st1, wd_mc := wd_mc w + length ?us, wd_qlog := wd_qlog ?w1 @ [''SELECT * FROM iotnode'']\<rparr>"
  have m2: "mal_ok ?w2" using l1(4) by (simp add: mal_ok_def)
  have e: "length (L1 RegistedIot) + length ?ds < 2 ^ 31" using l1(6) t(4) by simp
  obtain a2 st2 L2 where l2: "load_rows start_iot_row a1 ?ds ?w2 = Some (Inr (a2, ?w2\<lparr>wd_store := st2, wd_mc := wd_mc ?w2 + length ?ds\<rparr>))"
     "store_rel st2 L2" "length (L2 RegistedIot) = length (L1 RegistedIot) + length ?ds" "\<forall>k. k \<noteq> RegistedIot \<longrightarrow> L2 k = L1 k" "\<forall>row\<in>set ?ds. has_entry st2 (L2 RegistedIot) row"
     "\<forall>k. \<forall>x\<in>set (L1 k). x \<in> set (L2 k) \<and> node st2 x = node st1 x"
    using load_rows_ok [where w = ?w2 and L = L1 and rf = start_iot_row and l = RegistedIot and rows = ?ds, OF _ m2 l1(2) rd e] l1(3) by simp blast
  have g: "db_get w = Some (Inr (Some k, w\<lparr>wd_sql := s\<rparr>))" using assms(4) by (simp add: db_get_def)
  let ?w3 = "?w2\<lparr>wd_store := st2, wd_mc := wd_mc ?w2 + length ?ds, wd_sql := sql_release s k\<rparr>"
  have "load_registered w = Some (Inr (1, ?w3))"
    using l1(1) l2(1) t(1,2) by (simp add: load_registered_def obind_def fmt_ok with_conn_def g db_query_def failed_def fetch_rows_def release_then_def db_release_def oret_def)
  moreover have "\<forall>row\<in>set ?us. has_entry st2 (L2 RegistedUser) row" using l1(7) l2(6) has_entry_mono by metis
  ultimately show ?thesis using l1(5,6) l2(2-5) by (intro exI [of _ ?w3] exI [of _ L2]) simp
qed


section \<open>Properties\<close>

text \<open>
  C11: After the start every row of the two tables can sign in. With memory for the heads and the nodes, a connection of the pool
  and rows that fit the fields of the server, the lists are built, the counters are the numbers of rows, the connection
  is returned, and \<open>Check_Id_Pwd\<close> accepts the ID and the password of every row.
\<close>

theorem start_signin:
  assumes "m1 0 = (True, True)" and "m2 0 = (True, True)" and "mal_ok w" and "tables_ok w" and "healthy (wd_sql w)"
    and "sql_get (wd_sql w) = Inr (Some k, s)"
  shows "\<exists>w'. start_lists m1 m2 w = Some (Inr (1, w')) \<and> healthy (wd_sql w') \<and> wheld w' = wheld w \<and>
     OnlineUserNum (UserList.head (wd_store w') RegistedUser) = int (length (q_rows (user_table w))) \<and>
     OnlineUserNum (UserList.head (wd_store w') RegistedIot) = int (length (q_rows (iot_table w))) \<and>
     (\<forall>row a. row \<in> set (q_rows (user_table w)) \<union> set (q_rows (iot_table w)) \<and> cln_wf a \<and> cstr (USERID a) = field row 1 \<and> cstr (USERPASSWORD a) = field row 3 \<longrightarrow>
        Check_Id_Pwd (wd_store w') 0 a = Some (Inr 1))"
proof -
  let ?w = "w\<lparr>wd_store := heads_up (wd_store w), wd_mute := (\<lambda>_. False)\<rparr>"
  let ?us = "q_rows (user_table w)" and ?ds = "q_rows (iot_table w)"
  have m: "mal_ok ?w" using assms(3) by (simp add: mal_ok_def fresh_block_def)
  have t: "tables_ok ?w" using assms(4) by (simp add: tables_ok_def)
  obtain w' L where w': "load_registered ?w = Some (Inr (1, w'))" "wd_sql w' = sql_release s k" "store_rel (wd_store w') L"
     "length (L RegistedUser) = length ?us" "length (L RegistedIot) = length ?ds"
     "\<forall>row\<in>set ?us. has_entry (wd_store w') (L RegistedUser) row" "\<forall>row\<in>set ?ds. has_entry (wd_store w') (L RegistedIot) row"
    using load_registered_ok [OF _ m t, of k s] heads_up_rel assms(6) by auto
  have c: "healthy (wd_sql w')" "wheld w' = wheld w" using cp.acquire_release [OF assms(5,6)] w'(2) by simp_all
  have "Check_Id_Pwd (wd_store w') 0 a = Some (Inr 1)"
    if r: "row \<in> set ?us \<union> set ?ds" and a: "cln_wf a" "cstr (USERID a) = field row 1" "cstr (USERPASSWORD a) = field row 3" for row a
  proof -
    have "row \<in> set ?us \<Longrightarrow> reg_list a = RegistedUser" "row \<in> set ?ds \<Longrightarrow> reg_list a = RegistedIot"
      using assms(4) a(2) by (auto simp: tables_ok_def list_all_iff user_row_ok_def iot_row_ok_def reg_list_def simp del: One_nat_def)
    then have "has_entry (wd_store w') (L (reg_list a)) row" using r w'(6,7) by auto
    then show ?thesis using has_entry_signin [OF w'(3) _ a] by blast
  qed
  moreover have "OnlineUserNum (UserList.head (wd_store w') l) = int (length (L l))" for l using w'(3) by (simp add: store_rel_def)
  ultimately show ?thesis using w'(1,4,5) c start_heads [of m1 m2 w, OF assms(1,2)] by auto
qed

text \<open>A server with one user and one device.\<close>

definition start_world :: world where
  "start_world = world0\<lparr>wd_query := (\<lambda>_ q. \<lparr>q_err = None, q_null = False, q_rows =
     (if q = ''SELECT * FROM user'' then [[Some ''1'', Some ''13800000001'', Some ''n'', Some ''pw'', Some ''x'']]
      else [[Some ''2'', Some ''0001'', Some ''light'', Some ''iot'']]), q_affected = 1\<rparr>)\<rparr>"

definition device_cln :: CLN where
  "device_cln = empty_cln\<lparr>USERID := ''0001'' @ replicate 8 NUL, USERPASSWORD := ''iot'' @ replicate 30 NUL\<rparr>"

theorem start_signin_witness:
  "\<exists>w'. start_lists (\<lambda>_. (True, True)) (\<lambda>_. (True, True)) start_world = Some (Inr (1, w')) \<and> OnlineUserNum (UserList.head (wd_store w') RegistedIot) = 1 \<and>
     Check_Id_Pwd (wd_store w') 0 device_cln = Some (Inr 1)"
proof -
  have m: "mal_ok start_world" by (simp add: mal_ok_def fresh_block_def start_world_def world0_def store0_def)
  have t: "tables_ok start_world" by (simp add: tables_ok_def start_world_def world0_def user_row_ok_def iot_row_ok_def field_def cstr_def)
  have h: "healthy (wd_sql start_world)" using world0_healthy by (simp add: start_world_def)
  obtain s where s: "sql_get (wd_sql start_world) = Inr (Some 1, s)"
    using get_pool2 by (simp add: start_world_def world0_def sql_get_def sql0_def)
  have d: "cln_wf device_cln" by (simp add: device_cln_def cln_wf_def empty_cln_def str_field_def last_replicate)
  have "[Some ''2'', Some ''0001'', Some ''light'', Some ''iot''] \<in> set (q_rows (iot_table start_world))" by (simp add: start_world_def)
  moreover have "cstr (USERID device_cln) = field [Some ''2'', Some ''0001'', Some ''light'', Some ''iot''] 1"
    "cstr (USERPASSWORD device_cln) = field [Some ''2'', Some ''0001'', Some ''light'', Some ''iot''] 3"
    by (simp_all add: device_cln_def field_def cstr_def)
  moreover have "length (q_rows (iot_table start_world)) = 1" by (simp add: start_world_def)
  ultimately show ?thesis using start_signin [OF _ _ m t h s, of "\<lambda>_. (True, True)" "\<lambda>_. (True, True)"] d by auto
qed

lemma release_nodes_cons: "chain h p (x # xs) \<Longrightarrow> release_nodes h p = Some (Inl UseAfterFree)"
  by (subst release_nodes.simps) (auto simp: free_def deref_def split: option.splits)

lemma release_nodes_nil [simp]: "release_nodes h 0 = Some (Inr h)"
  by (subst release_nodes.simps) simp

text \<open>
  C35: The release of the lists at the end of the program reads memory that has been freed as soon as one list has an entry;
  with four empty lists nothing is released.
\<close>

theorem RELEASE_ONLINE_REG_NODE_faults:
  assumes "store_rel st L"
  shows "RELEASE_ONLINE_REG_NODE st = Some (if \<forall>l. L l = [] then Inr st else Inl UseAfterFree)"
proof -
  have c: "chain (heap st) (h_next (UserList.head st l)) (L l)" for l using assms by (simp add: store_rel_def)
  have rel: "release_nodes (heap st) (h_next (UserList.head st l)) = Some (if L l = [] then Inr (heap st) else Inl UseAfterFree)" for l
    using c [of l] release_nodes_cons by (cases "L l") auto
  have all: "(\<forall>l. P l) \<longleftrightarrow> P RegistedIot \<and> P RegistedUser \<and> P OnlineIot \<and> P OnlineUser" for P
    by (metis lst.exhaust)
  show ?thesis unfolding all [of "\<lambda>l. L l = []"] by (simp add: RELEASE_ONLINE_REG_NODE_def rel)
qed

theorem RELEASE_ONLINE_REG_NODE_faults_witness:
  "RELEASE_ONLINE_REG_NODE (push OnlineUser 7 zero_user store0) = Some (Inl UseAfterFree)"
  using RELEASE_ONLINE_REG_NODE_faults [OF ul.link_rel [OF store0_rel, of 7 OnlineUser zero_user]] by (auto simp: fresh_block_def store0_def)


text \<open>
  The start does not get past the application version: once the lists are up and a connection is free, a database that
  answers leads to the read of a freed row (or of no row) in \<open>getAppVersion\<close>, before the server is announced.
\<close>

theorem initServer_faults:
  assumes "start_lists m1 m2 w = Some (Inr (1, w1))" and "db_get w1 = Some (Inr (Some k, w2))"
    and "r = wd_query w2 (length (wd_qlog w2)) (''SELECT * FROM `appinfo`'' @ [NUL])" and "q_err r = None"
  shows "initServer True True m1 m2 sid ip w = Some (Inl (if q_null r \<or> q_rows r = [] then NullDeref else UseAfterFree))"
  using assms by (simp add: fetch_rows_def oret_def initServer_def getAppVersion_def obind_def fmt_ok with_conn_def db_query_def failed_def release_then_def
      db_release_def ofault_def)

text \<open>What the listing prints: a line for each entry, in the order of the list.\<close>

definition numbered :: "string \<Rightarrow> string \<Rightarrow> store \<Rightarrow> nat \<Rightarrow> nat list \<Rightarrow> string list" where
  "numbered label gap st n xs = map (\<lambda>(i, x). entry_line label gap i (cstr (u_USERID (node st x))) (u_USERKEY_ID (node st x))) (enumerate n xs)"

lemma list_lines_ok:
  assumes "chain (heap st) p xs" "\<And>x. x \<in> set xs \<Longrightarrow> terminated (u_USERID (node st x))"
  shows "list_lines (heap st) label gap p n out = Some (Inr (out @ numbered label gap st n xs))"
  using assms
proof (induction xs arbitrary: p n out)
  case Nil
  then show ?case by (subst list_lines.simps) (simp add: numbered_def)
next
  case (Cons x xs)
  note x = chain_step [OF Cons.prems(1)]
  have t: "str_of (u_USERID (the (heap st x))) = Inr (cstr (u_USERID (the (heap st x))))" using Cons.prems(2) [of x] by (simp add: str_of_def node_def)
  show ?case
    using x t Cons.IH [of "u_next (the (heap st x))" "n + 1"] Cons.prems(2) by (subst list_lines.simps) (simp add: numbered_def node_def)
qed

text \<open>
  The listing of the console prints every registered user and every registered device exactly once, in the order of the
  lists and numbered from one; without a registered user it prints nothing, not even the devices.
\<close>

theorem PrintAllUserAndIotDevice_complete:
  assumes "store_rel st L" and "\<And>x. x \<in> set (L RegistedUser) \<union> set (L RegistedIot) \<Longrightarrow> terminated (u_USERID (node st x))"
  shows "PrintAllUserAndIotDevice st = Some (Inr (if L RegistedUser = [] then [] else
     numbered ''_USERID:'' [CHR 0x09] st 1 (L RegistedUser) @ [[CHR 0x0A]] @ numbered ''_IOTDeviceID:'' ('' '' @ [CHR 0x09]) st 1 (L RegistedIot) @
     [[CHR 0x0A] @ ''Print User And IotDeviceOK!'' @ [CHR 0x0A]]))"
proof -
  have c: "chain (heap st) (h_next (UserList.head st l)) (L l)" for l using assms(1) by (simp add: store_rel_def)
  have u: "list_lines (heap st) label gap (h_next (UserList.head st RegistedUser)) n out = Some (Inr (out @ numbered label gap st n (L RegistedUser)))" for label gap n out
    using list_lines_ok [OF c] assms(2) by blast
  have d: "list_lines (heap st) label gap (h_next (UserList.head st RegistedIot)) n out = Some (Inr (out @ numbered label gap st n (L RegistedIot)))" for label gap n out
    using list_lines_ok [OF c] assms(2) by blast
  have "h_next (UserList.head st RegistedUser) = 0 \<longleftrightarrow> L RegistedUser = []" using c [of RegistedUser] by (cases "L RegistedUser") auto
  then show ?thesis by (simp add: PrintAllUserAndIotDevice_def Let_def u d)
qed

theorem PrintAllUserAndIotDevice_complete_witness: "PrintAllUserAndIotDevice store0 = Some (Inr [])"
  using PrintAllUserAndIotDevice_complete [OF store0_rel] by simp

text \<open>
  Key 6 does not end the console: the menu is left only with key 5. After key 6 and then key 5 the console thread ends, the
  flags are down and no further key is read.
\<close>

theorem console_ends:
  assumes "in_menu s" and "CHR ''5'' \<notin> set ks" and "isShutDown s \<or> CHR ''6'' \<in> set ks"
  shows "in_menu (fst (EnterManualCtrlMode ks s)) \<and> (\<exists>acts. length acts = length ks + 1 \<and>
    EnterManualCtrlMode (ks @ CHR ''5'' # rest) s = (\<lparr>isShutDown = True, ManualCtrl = False, in_menu = False\<rparr>, acts, rest))"
  using assms
proof (induction ks arbitrary: s)
  case Nil
  have "EnterManualCtrlMode rest \<lparr>isShutDown = True, ManualCtrl = False, in_menu = False\<rparr> =
    (\<lparr>isShutDown = True, ManualCtrl = False, in_menu = False\<rparr>, [], rest)" by (cases rest) simp_all
  moreover have "s = \<lparr>isShutDown = True, ManualCtrl = ManualCtrl s, in_menu = True\<rparr>" using Nil by simp
  ultimately show ?case by (cases s) (simp add: menu_key_def)
next
  case (Cons c cs)
  obtain s' a where m: "menu_key c s = (s', a)" by fastforce
  have s': "in_menu s'" "isShutDown s' \<or> CHR ''6'' \<in> set cs" using m Cons.prems by (auto simp: menu_key_def split: if_splits)
  have c: "CHR ''5'' \<notin> set cs" using Cons.prems(2) by simp
  obtain acts where IH: "in_menu (fst (EnterManualCtrlMode cs s'))" "length acts = length cs + 1"
    "EnterManualCtrlMode (cs @ CHR ''5'' # rest) s' = (\<lparr>isShutDown = True, ManualCtrl = False, in_menu = False\<rparr>, acts, rest)"
    using Cons.IH [OF s'(1) c s'(2)] by blast
  have "fst (EnterManualCtrlMode (c # cs) s) = fst (EnterManualCtrlMode cs s')" using Cons.prems(1) m by (simp split: prod.split)
  moreover have "EnterManualCtrlMode ((c # cs) @ CHR ''5'' # rest) s = (\<lparr>isShutDown = True, ManualCtrl = False, in_menu = False\<rparr>, a # acts, rest)"
    using Cons.prems(1) m IH(3) by simp
  ultimately show ?case using IH(1,2) by (intro conjI exI [of _ "a # acts"]) simp_all
qed

theorem console_ends_witness: "\<exists>acts. EnterManualCtrlMode ''365x'' \<lparr>isShutDown = False, ManualCtrl = True, in_menu = True\<rparr> =
    (\<lparr>isShutDown = True, ManualCtrl = False, in_menu = False\<rparr>, acts, ''x'')"
  using console_ends [of "\<lparr>isShutDown = False, ManualCtrl = True, in_menu = True\<rparr>" "''36''" "''x''"] by auto

end
