(* ===== verification/Udp.thy ===== *)
theory Udp
  imports UserList
begin

text \<open>
  The datagram side channel: src/src/UdpInit.c, the receiving thread of src/src/Udp_send.c and the resolving threads of
  src/src/UdpPackResolve.c. A user announces an address with a datagram \<open>UD1\<close>; any other datagram is copied to the one
  local variable \<open>rec\<close> of the receiving thread, to which every thread that is then started gets a pointer. There is no lock:
  the copy into \<open>rec\<close> and the copy out of it are made in pieces of any size, between which the other threads run, and every
  other access of a resolving thread to \<open>rec\<close> is a step of its own.
\<close>

section \<open>State\<close>

text \<open>Where a resolving thread is, with the contents of its local \<open>SendBuf\<close>.\<close>

datatype rthread = RTag | RStrcpy nat | RSave | RCopy nat buf | RSend buf | RDone int

datatype sender = Receiver | Resolver

text \<open>
  \<open>u_addr\<close> is the field \<open>USER_socket_udp\<close> of the nodes, \<open>u_pkt\<close> the structure that is received into, \<open>u_rec\<close> the bytes of the
  shared variable; \<open>u_copy\<close> tells how many bytes of the assignment to it are done, while it is under way. \<open>u_threads\<close> are the
  threads started so far, and \<open>u_out\<close> is what was sent to which address.
\<close>

record udp =
  u_addr :: "nat \<Rightarrow> nat"
  u_pkt :: UserPacketInterface
  u_rec :: buf
  u_copy :: "nat option"
  u_threads :: "rthread list"
  u_out :: "(sender \<times> nat \<times> buf) list"

section \<open>Operations\<close>

definition UdpInit :: "bool \<Rightarrow> bool \<Rightarrow> int" where
  "UdpInit sock bnd = (if \<not> sock then -1 else if \<not> bnd then -1 else 0)"

text \<open>The answer of the receiving thread: the tag is replaced and the packet ends with a newline.\<close>

definition udp_reply :: "string \<Rightarrow> UserPacketInterface \<Rightarrow> UserPacketInterface res" where
  "udp_reply tag p = rbind (sprintf (pk_checkcode p) tag) (\<lambda>cc. rbind (wr (pk_save p) 99 (CHR 0x0A)) (\<lambda>sv.
     ok (p\<lparr>pk_checkcode := cc, pk_save := sv\<rparr>)))"

text \<open>The structure after a datagram: a short one leaves the rest of the previous packet.\<close>

definition udp_overlay :: "buf \<Rightarrow> UserPacketInterface \<Rightarrow> UserPacketInterface" where
  "udp_overlay b p = user_packet_of (take sizeof_UserPacketInterface b @ drop (length b) (user_packet_bytes p))"

text \<open>
  One round of the endless loop of \<open>fun\<close>, up to the assignment to \<open>rec\<close>: a datagram \<open>b\<close> from address \<open>remote\<close>. A datagram that
  does not fit is cut off and reported as an error, as is an empty one. The result is \<open>None\<close> while the assignment of the
  previous round is under way.
\<close>

definition udp_round :: "store \<Rightarrow> nat \<Rightarrow> buf \<Rightarrow> udp \<Rightarrow> udp res option" where
  "udp_round st remote b s =
     (let p = udp_overlay b (u_pkt s); s1 = s\<lparr>u_pkt := p\<rparr> in
      if u_copy s \<noteq> None then None
      else if b = [] \<or> sizeof_UserPacketInterface < length b then Some (ok s1)
      else if cstr (pk_checkcode p) \<noteq> ''UD1'' then Some (ok (s1\<lparr>u_copy := Some 0\<rparr>))
      else case FindOnlineUserOrIot st 0 (Some (pk_USERID p)) 0 of None \<Rightarrow> None | Some (Inl e) \<Rightarrow> Some (Inl e)
         | Some (Inr n) \<Rightarrow>
             if n \<noteq> 0
             then Some (rbind (udp_reply ''UDP'' p) (\<lambda>q. ok (s1\<lparr>u_addr := (u_addr s)(n := remote), u_pkt := q, u_out := u_out s @ [(Receiver, remote, user_packet_bytes q)]\<rparr>)))
             else Some (rbind (udp_reply ''udp'' p) (\<lambda>q. ok (s1\<lparr>u_pkt := q, u_out := u_out s @ [(Receiver, remote, user_packet_bytes q)]\<rparr>))))"

text \<open>Bytes \<open>k\<close> to \<open>k + n\<close> of \<open>src\<close> are copied over those of \<open>dst\<close>.\<close>

definition udp_piece :: "nat \<Rightarrow> nat \<Rightarrow> buf \<Rightarrow> buf \<Rightarrow> buf" where
  "udp_piece k n src dst = take k dst @ take n (drop k src) @ drop (k + n) dst"

text \<open>The assignment \<open>rec = RecDataStruct_udp\<close>, the next \<open>n\<close> bytes of it; at its end a thread is started.\<close>

definition udp_assign :: "nat \<Rightarrow> udp \<Rightarrow> udp option" where
  "udp_assign n s = (case u_copy s of
       None \<Rightarrow> None
     | Some k \<Rightarrow> if k < sizeof_UserPacketInterface
         then Some (s\<lparr>u_rec := udp_piece k n (user_packet_bytes (u_pkt s)) (u_rec s), u_copy := Some (min (k + n) sizeof_UserPacketInterface)\<rparr>)
         else Some (s\<lparr>u_copy := None, u_threads := u_threads s @ [RTag]\<rparr>))"

text \<open>
  The next step of a resolving thread, on what \<open>rec\<close> holds at that moment: reading the tag, the bytes of \<open>strcpy\<close>, the newline,
  \<open>n\<close> bytes of \<open>memcpy\<close> into \<open>SendBuf\<close>, and the search for the user with the packet that is sent.
\<close>

definition UdpPackResolve :: "store \<Rightarrow> nat \<Rightarrow> rthread \<Rightarrow> udp \<Rightarrow> (rthread \<times> udp) res option" where
  "UdpPackResolve st n t s = (case t of
       RTag \<Rightarrow> Some (ok (if cstr (take 3 (u_rec s)) = ''PNG'' then RStrcpy 0 else RDone 0, s))
     | RStrcpy j \<Rightarrow> if j < 4 then Some (rbind (wr (u_rec s) (int j) ((''UDP'' @ [NUL]) ! j)) (\<lambda>r. ok (RStrcpy (j + 1), s\<lparr>u_rec := r\<rparr>))) else Some (ok (RSave, s))
     | RSave \<Rightarrow> Some (rbind (wr (u_rec s) 720 (CHR 0x0A)) (\<lambda>r. ok (RCopy 0 (replicate sizeof_UserPacketInterface NUL), s\<lparr>u_rec := r\<rparr>)))
     | RCopy k b \<Rightarrow> Some (ok (if k < sizeof_UserPacketInterface then RCopy (min (k + n) sizeof_UserPacketInterface) (udp_piece k n (u_rec s) b) else RSend b, s))
     | RSend b \<Rightarrow> (case FindOnlineUserOrIot st 0 (Some (bytes_at 18 12 (u_rec s))) 0 of None \<Rightarrow> None | Some (Inl e) \<Rightarrow> Some (Inl e)
         | Some (Inr m) \<Rightarrow> Some (ok (if m \<noteq> 0 then (RDone 0, s\<lparr>u_out := u_out s @ [(Resolver, u_addr s m, b)]\<rparr>) else (RDone (-1), s))))
     | RDone r \<Rightarrow> None)"

text \<open>The receiving thread and the resolving threads in any order, on fixed lists.\<close>

inductive udp_step :: "store \<Rightarrow> udp \<Rightarrow> udp \<Rightarrow> bool" for st where
  receive: "udp_round st remote b s = Some (Inr s') \<Longrightarrow> udp_step st s s'"
| assign: "udp_assign n s = Some s' \<Longrightarrow> udp_step st s s'"
| resolve: "i < length (u_threads s) \<Longrightarrow> UdpPackResolve st n (u_threads s ! i) s = Some (Inr (t, s')) \<Longrightarrow>
    udp_step st s (s'\<lparr>u_threads := (u_threads s)[i := t]\<rparr>)"

section \<open>Lemmas\<close>

text \<open>The arrays keep their sizes, everything sent is a whole packet, and the receiving thread sends well-formed answers.\<close>

fun thread_wf :: "rthread \<Rightarrow> bool" where
  "thread_wf (RCopy k b) = (k \<le> sizeof_UserPacketInterface \<and> length b = sizeof_UserPacketInterface)"
| "thread_wf (RSend b) = (length b = sizeof_UserPacketInterface)"
| "thread_wf _ = True"

definition answer_ok :: "buf \<Rightarrow> bool" where
  "answer_ok b = (cstr b \<in> {''UDP'', ''udp''} \<and> last b = CHR 0x0A)"

definition out_ok :: "(sender \<times> nat \<times> buf) list \<Rightarrow> bool" where
  "out_ok xs = (\<forall>(w, a, b) \<in> set xs. length b = sizeof_UserPacketInterface \<and> (w = Receiver \<longrightarrow> answer_ok b))"

definition udp_inv :: "udp \<Rightarrow> bool" where
  "udp_inv s \<longleftrightarrow> packet_wf (u_pkt s) \<and> length (u_rec s) = sizeof_UserPacketInterface \<and> list_all thread_wf (u_threads s) \<and> out_ok (u_out s)
     \<and> (case u_copy s of None \<Rightarrow> True | Some k \<Rightarrow> k \<le> sizeof_UserPacketInterface)"

lemma packet_bytes_length: "packet_wf p \<Longrightarrow> length (user_packet_bytes p) = sizeof_UserPacketInterface"
  by (simp add: packet_wf_def user_packet_bytes_def sizeof_UserPacketInterface_def)

lemma udp_piece_length [simp]: "k \<le> length dst \<Longrightarrow> length src = length dst \<Longrightarrow> length (udp_piece k n src dst) = length dst"
  by (simp add: udp_piece_def)

lemma udp_piece_whole [simp]: "length src \<le> n \<Longrightarrow> length dst \<le> n \<Longrightarrow> udp_piece 0 n src dst = src"
  by (simp add: udp_piece_def)

lemma overlay_wf: "packet_wf p \<Longrightarrow> packet_wf (udp_overlay b p)"
proof -
  assume p: "packet_wf p"
  have "length (take sizeof_UserPacketInterface b @ drop (length b) (user_packet_bytes p)) = 721"
    using packet_bytes_length [OF p] by (simp add: sizeof_UserPacketInterface_def)
  then show ?thesis by (simp add: udp_overlay_def user_packet_of_def packet_wf_def)
qed

lemma udp_reply_ok:
  assumes "packet_wf p" "length tag = 3" "NUL \<notin> set tag"
  shows "\<exists>q. udp_reply tag p = Inr q \<and> packet_wf q \<and> pk_USERID q = pk_USERID p \<and> cstr (user_packet_bytes q) = tag \<and> last (user_packet_bytes q) = CHR 0x0A"
proof -
  let ?q = "p\<lparr>pk_checkcode := tag @ [NUL] @ drop 4 (pk_checkcode p), pk_save := (pk_save p)[99 := CHR 0x0A]\<rparr>"
  have l: "length (pk_checkcode p) = 18" "length (pk_save p) = 100" using assms(1) by (simp_all add: packet_wf_def)
  have "udp_reply tag p = Inr ?q" using l assms(2) by (simp add: udp_reply_def sprintf_def put_ok wr_def)
  moreover have "packet_wf ?q" using assms(1,2) by (simp add: packet_wf_def)
  moreover have "cstr (user_packet_bytes ?q) = tag" using assms(3) by (simp add: user_packet_bytes_def)
  moreover have "last (user_packet_bytes ?q) = CHR 0x0A"
  proof -
    have ne: "(pk_save p)[99 := CHR 0x0A] \<noteq> []" using l(2) by auto
    have "last ((pk_save p)[99 := CHR 0x0A]) = CHR 0x0A" unfolding last_conv_nth [OF ne] using l(2) by simp
    then show ?thesis using ne by (simp add: user_packet_bytes_def)
  qed
  ultimately show ?thesis by (intro exI [of _ ?q]) simp
qed

lemma online_found:
  assumes "store_rel st L"
  shows "\<exists>n. FindOnlineUserOrIot st 0 (Some u) 0 = Some (Inr n) \<and> (n = 0 \<or> n \<in> set (L OnlineUser))"
proof -
  have "\<exists>n. find_in st OnlineUser (ById u) = Some (Inr n) \<and> (n = 0 \<or> n \<in> set (L OnlineUser))"
    using find_in_ok [OF assms, of OnlineUser "ById u"]
    by (auto simp: first_match_def find_Some_iff split: option.splits)
  then show ?thesis by (simp add: FindOnlineUserOrIot_def query_of_def)
qed

lemma udp_round_ok:
  assumes "store_rel st L" "udp_inv s" "u_copy s = None"
  shows "\<exists>s'. udp_round st remote b s = Some (Inr s') \<and> udp_inv s'"
proof -
  let ?p = "udp_overlay b (u_pkt s)"
  have wf: "packet_wf ?p" using assms(2) overlay_wf by (simp add: udp_inv_def)
  obtain n where n: "FindOnlineUserOrIot st 0 (Some (pk_USERID ?p)) 0 = Some (Inr n)" using online_found [OF assms(1)] by blast
  obtain q1 where q1: "udp_reply ''UDP'' ?p = Inr q1" "packet_wf q1" "answer_ok (user_packet_bytes q1)"
    using udp_reply_ok [OF wf, of "''UDP''"] by (auto simp: answer_ok_def)
  obtain q2 where q2: "udp_reply ''udp'' ?p = Inr q2" "packet_wf q2" "answer_ok (user_packet_bytes q2)"
    using udp_reply_ok [OF wf, of "''udp''"] by (auto simp: answer_ok_def)
  show ?thesis
    using assms(2,3) wf n q1 q2 packet_bytes_length by (simp add: udp_round_def Let_def udp_inv_def out_ok_def)
qed

lemma udp_assign_ok:
  assumes "udp_inv s" "u_copy s = Some k"
  shows "\<exists>s'. udp_assign n s = Some s' \<and> udp_inv s'"
  using assms packet_bytes_length [of "u_pkt s"] by (simp add: udp_assign_def udp_inv_def)

lemma UdpPackResolve_ok:
  assumes "store_rel st L" "udp_inv s" "thread_wf t" "\<And>r. t \<noteq> RDone r"
  shows "\<exists>t' s'. UdpPackResolve st n t s = Some (Inr (t', s')) \<and> udp_inv s' \<and> thread_wf t' \<and> u_threads s' = u_threads s"
proof -
  obtain m where m: "FindOnlineUserOrIot st 0 (Some (bytes_at 18 12 (u_rec s))) 0 = Some (Inr m)" using online_found [OF assms(1)] by blast
  have l: "length (u_rec s) = 721" "sizeof_UserPacketInterface = 721" using assms(2) by (simp_all add: udp_inv_def sizeof_UserPacketInterface_def)
  show ?thesis
  proof (cases t)
    case (RSend b)
    then show ?thesis using assms(2,3) m by (auto simp: UdpPackResolve_def udp_inv_def out_ok_def)
  qed (use assms l in \<open>auto simp: UdpPackResolve_def udp_inv_def wr_def\<close>)
qed

lemma udp_step_inv:
  assumes "udp_step st s s'" "store_rel st L" "udp_inv s"
  shows "udp_inv s'"
  using assms(1)
proof (cases rule: udp_step.cases)
  case (receive remote b)
  have "u_copy s = None" using receive by (auto simp: udp_round_def Let_def split: if_splits)
  then show ?thesis using receive udp_round_ok [OF assms(2,3), of remote b] by simp
next
  case (assign n)
  then obtain k where "u_copy s = Some k" by (auto simp: udp_assign_def split: option.splits)
  then show ?thesis using assign udp_assign_ok [OF assms(3), of k n] by simp
next
  case (resolve i n t t')
  have "thread_wf (u_threads s ! i)" using assms(3) resolve(2) by (simp add: udp_inv_def list_all_length)
  moreover have "u_threads s ! i \<noteq> RDone r" for r using resolve(3) by (auto simp: UdpPackResolve_def)
  ultimately have u: "udp_inv t'" "thread_wf t" "u_threads t' = u_threads s" using UdpPackResolve_ok [OF assms(2,3), of "u_threads s ! i" n] resolve(3) by auto
  have "list_all thread_wf ((u_threads s)[i := t])"
    using assms(3) u(2) by (auto simp: udp_inv_def list_all_iff dest!: set_update_subset_insert [THEN subsetD])
  then show ?thesis using u(1) resolve(1) by (simp add: udp_inv_def)
qed

section \<open>Properties\<close>


definition udp0 :: udp where
  "udp0 = \<lparr>u_addr = (\<lambda>_. 0), u_pkt = user_packet_of (replicate 721 NUL), u_rec = replicate 721 NUL, u_copy = None, u_threads = [], u_out = []\<rparr>"

lemma udp0_inv: "udp_inv udp0"
  by (simp add: udp_inv_def udp0_def packet_wf_def user_packet_of_def out_ok_def sizeof_UserPacketInterface_def)


text \<open>Two datagrams that are received and assigned one after the other.\<close>

lemma packet_bytes_of: "length d = sizeof_UserPacketInterface \<Longrightarrow> user_packet_bytes (user_packet_of d) = d"
proof -
  assume l: "length d = sizeof_UserPacketInterface"
  have td: "take n (drop k d) @ drop (n + k) d = drop k d" for n k by (metis append_take_drop_id drop_drop)
  show ?thesis
    using l td [of 513 108] td [of 33 75] td [of 12 63] td [of 33 30] td [of 12 18] td [of 18 0]
    by (simp add: user_packet_bytes_def user_packet_of_def bytes_at_def sizeof_UserPacketInterface_def)
qed

lemma whole_datagram:
  assumes "length d = sizeof_UserPacketInterface" "packet_wf (u_pkt s)" "cstr (take 18 d) \<noteq> ''UD1''" "u_copy s = None" "length (u_rec s) = sizeof_UserPacketInterface"
  shows "(udp_step st)\<^sup>*\<^sup>* s (s\<lparr>u_pkt := user_packet_of d, u_rec := d, u_threads := u_threads s @ [RTag]\<rparr>)"
proof -
  let ?s1 = "s\<lparr>u_pkt := user_packet_of d, u_copy := Some 0\<rparr>"
  let ?s2 = "?s1\<lparr>u_rec := d, u_copy := Some sizeof_UserPacketInterface\<rparr>"
  have o: "udp_overlay d (u_pkt s) = user_packet_of d" using assms(1) packet_bytes_length [OF assms(2)] by (simp add: udp_overlay_def)
  have c: "cstr (pk_checkcode (user_packet_of d)) \<noteq> ''UD1''" using assms(3) by (simp add: user_packet_of_def bytes_at_def)
  have ne: "d \<noteq> []" using assms(1) by (auto simp: sizeof_UserPacketInterface_def)
  have "udp_step st s ?s1" by (rule udp_step.receive [of st 0 d]) (simp add: udp_round_def Let_def o c ne assms(1,4))
  moreover have "udp_step st ?s1 ?s2"
    by (rule udp_step.assign [of sizeof_UserPacketInterface])
      (simp add: udp_assign_def packet_bytes_of [OF assms(1)] assms(1,5), simp add: sizeof_UserPacketInterface_def)
  moreover have "udp_step st ?s2 (?s2\<lparr>u_copy := None, u_threads := u_threads ?s2 @ [RTag]\<rparr>)"
    by (rule udp_step.assign [of 0]) (simp add: udp_assign_def)
  ultimately have "(udp_step st)\<^sup>*\<^sup>* s (?s2\<lparr>u_copy := None, u_threads := u_threads ?s2 @ [RTag]\<rparr>)" by simp
  moreover have "?s2\<lparr>u_copy := None, u_threads := u_threads ?s2 @ [RTag]\<rparr> = s\<lparr>u_pkt := user_packet_of d, u_rec := d, u_threads := u_threads s @ [RTag]\<rparr>"
    using assms(4) by simp
  ultimately show ?thesis by simp
qed

text \<open>A thread with the tag \<open>PNG\<close> up to the copy of the packet: it has written the answer into the shared variable.\<close>

abbreviation zero_buf :: buf where
  "zero_buf \<equiv> replicate sizeof_UserPacketInterface NUL"

lemma thread_step:
  assumes "u_threads s = [t]" "UdpPackResolve st n t s = Some (Inr (t', s'))"
  shows "udp_step st s (s'\<lparr>u_threads := [t']\<rparr>)"
  using udp_step.resolve [of 0 s st n t' s'] assms by simp

lemma strcpy_steps:
  assumes "u_threads s = [RStrcpy j]" "j \<le> 4" "length (u_rec s) = sizeof_UserPacketInterface"
  shows "\<exists>r. length r = sizeof_UserPacketInterface \<and> (udp_step st)\<^sup>*\<^sup>* s (s\<lparr>u_rec := r, u_threads := [RCopy 0 zero_buf]\<rparr>)"
  using assms
proof (induction "4 - j" arbitrary: j s)
  case 0
  let ?s1 = "s\<lparr>u_threads := [RSave]\<rparr>" and ?r = "(u_rec s)[720 := CHR 0x0A]"
  have "udp_step st s ?s1" using thread_step [OF "0.prems"(1), of st 0 RSave s] 0 by (simp add: UdpPackResolve_def)
  moreover have "udp_step st ?s1 (s\<lparr>u_rec := ?r, u_threads := [RCopy 0 zero_buf]\<rparr>)"
    using thread_step [of ?s1 RSave st 0 "RCopy 0 zero_buf" "?s1\<lparr>u_rec := ?r\<rparr>"] "0.prems"(3)
    by (simp add: UdpPackResolve_def wr_def sizeof_UserPacketInterface_def)
  ultimately show ?case using "0.prems"(3) by (intro exI [of _ ?r]) simp
next
  case (Suc n)
  let ?r = "(u_rec s)[j := (''UDP'' @ [NUL]) ! j]"
  let ?s1 = "s\<lparr>u_rec := ?r, u_threads := [RStrcpy (j + 1)]\<rparr>"
  have "udp_step st s ?s1" using thread_step [OF Suc.prems(1), of st 0 "RStrcpy (j + 1)" "s\<lparr>u_rec := ?r\<rparr>"] Suc.hyps(2) Suc.prems(3)
    by (simp add: UdpPackResolve_def wr_def sizeof_UserPacketInterface_def)
  moreover have "n = 4 - (j + 1)" "j + 1 \<le> 4" using Suc.hyps(2) by linarith+
  then obtain r where "length r = sizeof_UserPacketInterface" "(udp_step st)\<^sup>*\<^sup>* ?s1 (?s1\<lparr>u_rec := r, u_threads := [RCopy 0 zero_buf]\<rparr>)"
    using Suc.hyps(1) [of "j + 1" ?s1] Suc.prems(3) by auto
  ultimately show ?case by (intro exI [of _ r]) (auto intro: converse_rtranclp_into_rtranclp)
qed

text \<open>
  The answer of a resolving thread can be overwritten before it is sent: the thread has put the tag \<open>UDP\<close> and the newline into the
  shared variable, the next datagram is assigned to it, and the thread then sends the bytes of that datagram, unchanged, to the
  address of the user named there.
\<close>

theorem udp_reply_overwritten:
  assumes "length d1 = sizeof_UserPacketInterface" and "length d2 = sizeof_UserPacketInterface" and "udp_inv s" and "u_copy s = None" and "u_threads s = []"
    and "take 3 d1 = ''PNG''" and "cstr (take 18 d2) \<noteq> ''UD1''" and "FindOnlineUserOrIot st 0 (Some (bytes_at 18 12 d2)) 0 = Some (Inr n)" and "n \<noteq> 0"
  shows "\<exists>s'. (udp_step st)\<^sup>*\<^sup>* s s' \<and> u_out s' = u_out s @ [(Resolver, u_addr s n, d2)]"
proof -
  let ?Z = sizeof_UserPacketInterface
  have i: "packet_wf (u_pkt s)" "length (u_rec s) = ?Z" using assms(3) by (simp_all add: udp_inv_def)
  have "take 18 d1 = take 3 (take 18 d1) @ drop 3 (take 18 d1)" by (rule append_take_drop_id [symmetric])
  then have "take 18 d1 = ''PNG'' @ drop 3 (take 18 d1)" using assms(6) by simp
  then have "cstr (take 18 d1) = cstr (''PNG'' @ drop 3 (take 18 d1))" by (rule arg_cong)
  then have c: "cstr (take 18 d1) \<noteq> ''UD1''" by (simp add: cstr_def)
  let ?s1 = "s\<lparr>u_pkt := user_packet_of d1, u_rec := d1, u_threads := [RTag]\<rparr>"
  have r1: "(udp_step st)\<^sup>*\<^sup>* s ?s1" using whole_datagram [OF assms(1) i(1) c assms(4) i(2), of st] assms(5) by simp
  let ?s2 = "?s1\<lparr>u_threads := [RStrcpy 0]\<rparr>"
  have r2: "udp_step st ?s1 ?s2" using thread_step [of ?s1 RTag st 0 "RStrcpy 0" ?s1] assms(6) by (simp add: UdpPackResolve_def cstr_def)
  obtain r where r: "length r = ?Z" "(udp_step st)\<^sup>*\<^sup>* ?s2 (?s2\<lparr>u_rec := r, u_threads := [RCopy 0 zero_buf]\<rparr>)"
    using strcpy_steps [of ?s2 0] assms(1) by auto
  let ?s3 = "?s2\<lparr>u_rec := r, u_threads := [RCopy 0 zero_buf]\<rparr>"
  have "packet_wf (user_packet_of d1)" using overlay_wf [OF i(1), of d1] packet_bytes_length [OF i(1)] assms(1) by (simp add: udp_overlay_def)
  let ?s4 = "?s3\<lparr>u_pkt := user_packet_of d2, u_rec := d2, u_threads := [RCopy 0 zero_buf, RTag]\<rparr>"
  let ?s5 = "?s4\<lparr>u_threads := [RCopy ?Z d2, RTag]\<rparr>" and ?s6 = "?s4\<lparr>u_threads := [RSend d2, RTag]\<rparr>"
  let ?s7 = "?s4\<lparr>u_out := u_out s @ [(Resolver, u_addr s n, d2)], u_threads := [RDone 0, RTag]\<rparr>"
  have "(udp_step st)\<^sup>*\<^sup>* ?s3 ?s4"
    using whole_datagram [of d2 ?s3, OF assms(2) _ assms(7)] \<open>packet_wf (user_packet_of d1)\<close> assms(4) r(1) by simp
  moreover have "udp_step st ?s4 ?s5"
    using udp_step.resolve [of 0 ?s4 st ?Z "RCopy ?Z d2" ?s4] assms(2) by (simp add: UdpPackResolve_def sizeof_UserPacketInterface_def)
  moreover have "udp_step st ?s5 ?s6"
    using udp_step.resolve [of 0 ?s5 st 0 "RSend d2" ?s5] by (simp add: UdpPackResolve_def)
  moreover have "udp_step st ?s6 ?s7"
    using udp_step.resolve [of 0 ?s6 st 0 "RDone 0" "?s6\<lparr>u_out := u_out s @ [(Resolver, u_addr s n, d2)]\<rparr>"] assms(8,9) by (simp add: UdpPackResolve_def)
  ultimately have "(udp_step st)\<^sup>*\<^sup>* ?s3 ?s7" by (meson rtranclp.rtrancl_into_rtrancl)
  then have "(udp_step st)\<^sup>*\<^sup>* s ?s7" using r1 r2 r(2) by (meson rtranclp.rtrancl_into_rtrancl rtranclp_trans)
  then show ?thesis by (intro exI [of _ ?s7]) simp
qed

end
