(* ===== verification/Spec2Isabelle.thy ===== *)
theory Spec2Isabelle
  imports Cipher Hash Rsa ThreadPool TopServer PoolProps Startup Udp
begin

text \<open>
  A verification development of the IoT and messaging server under src/.

  \<^bold>\<open>The program.\<close> Clients (users with an 11-character ID, devices with a shorter one) connect over TCP. \<open>AcceptClient\<close>
  allocates a connection, \<open>ServerWorkThread\<close> copies each packet into a request and gives it to a thread pool, whose threads
  run \<open>talk\<close> or, for devices, \<open>IoTtalk\<close>. The handlers sign clients in and out, register them, deliver messages and
  commands, and read and write a MySQL database through a pool of connections. Four linked lists hold the registered and
  the online users and devices. A periodic thread pings the connections, sweeps dead ones and tests the connection to a top
  server that relays messages between servers. Requests and connections are allocated from a memory pool. At the start the
  lists are loaded from the database; a console thread offers a menu.

  \<^bold>\<open>How the code is modelled.\<close> Undefined behaviour is a value: \<open>'a res\<close> is a fault (null dereference, use after free, access
  outside an array, ...) or a result (\<open>Prelude\<close>). A \<open>char x[n]\<close> is a list of \<open>n\<close> characters and every write is checked
  against its length (\<open>CString\<close>). Integers are wrapped at their width where the source computes at that width. Linked
  structures live in an explicit store of addresses. Code that uses the shared state is a function on the record \<open>world\<close> of
  \<open>Db\<close>, of type \<open>'a op\<close>, whose result is \<open>None\<close> when the code does not return. Loops that may not end are partial functions
  into \<open>option\<close>, so that no fuel has to be chosen and "returns" is a statement that is proved. What is outside of the
  sources is a parameter: the results of \<open>malloc\<close>, \<open>rand\<close>, \<open>send\<close> and \<open>recv\<close>, the answers of the MySQL server and of its client
  library, the digest library, the time.

  Concurrency is interleaving: a critical section of the thread pool, a pass of \<open>ServerWorkThread\<close>, a request handler, a ping
  round and a sweep are atomic steps of the relations \<open>tp_step\<close> (\<open>ThreadPool\<close>) and \<open>sstep\<close> (\<open>Server\<close>), as are a datagram and a
  resolving thread in \<open>udp_step\<close> (\<open>Udp\<close>). The request handlers run without such a lock in the program; what two handlers do
  to each other within one request is not covered.

  \<^bold>\<open>Theories and sources\<close> (under src/src unless a path is given).
    \<^item> \<open>Prelude\<close>, \<open>CString\<close>: faults, widths, C strings; String.c, StrSplit.c. Pieces and round trip of splitting.
    \<^item> \<open>Cipher\<close>: kaisaEncrypt.c, CodeEncrypt.c, GenerateRandStr.c. Decryption undoes encryption, also in place.
    \<^item> \<open>Hash\<close>: hash.c and the case labels of \<open>talk\<close>. Every tag is dispatched to its own case; tags that collide.
    \<^item> \<open>NumTheory\<close>, \<open>Rsa\<close>: RSAUtils.c. \<open>modpow\<close> is exponentiation modulo, prime search returns, keys have inverse exponents,
      decoding undoes encoding.
    \<^item> \<open>ThreadPool\<close>: libThreadPool.c. The queue refines a bounded fifo (locale \<open>bounded_fifo\<close>, interpreted on \<open>enqueue\<close> and
      \<open>dequeue\<close>); in every interleaving each task runs once and in order, the counts are right, and workers progress.
    \<^item> \<open>Packets\<close>: the structures of head/SERVER.h, CopyCln2Sendbag.c, CopyIotData.c. Copies of arbitrary bytes keep every
      field terminated.
    \<^item> \<open>UserList\<close>: AddtoLcoal.c, NewOnlineUserOrIotDev.c, FindOnlineUserOrIot.c, FindUserOrIotNode.c, CheckID_PWD.c,
      Delete_outlineUser.c. The lists as sequences (\<open>store_rel\<close>); the contract of inserting and searching is the locale
      \<open>registry\<close>.
    \<^item> \<open>SqlPool\<close>: sqlpool.c, MySqlConnInit.c, MysqlConnCheck.c. The contract of taking and giving back a connection is the
      locale \<open>conn_pool\<close>; exclusiveness, completeness of the search, bounds.
    \<^item> \<open>Db\<close>, \<open>DbOps\<close>: the shared state, and one definition for each function that works on the database. The rules in \<open>balance\<close>
      show that no path keeps a connection, those in \<open>totality\<close> that writes return.
    \<^item> \<open>SignIn\<close>: SIGN_IN.c, Register.c, UserRePwd.c, UpdateRegiterIotAndUser.c, CreateDailyMsgdb.c. Authentication, the effect
      of a first sign-in and of a new password.
    \<^item> \<open>Session\<close>, \<open>IotTalk\<close>, \<open>Talk\<close>: IoT_Talk.c and Talk.c, one definition per operation. The rules in \<open>keeping\<close> show that a
      handler frees and counts down its own request once, and no other.
    \<^item> \<open>Server\<close>, \<open>TopServer\<close>: AcceptClient.c, ServerWorkThread.c, FreeOutConnMem.c, Send2OnlineUserViaAllServer.c,
      CheckUserSceneCmd.c. The pending counters and the ownership of connections are invariants of all interleavings.
    \<^item> \<open>MemPool\<close>, \<open>PoolBlock\<close>, \<open>PoolFree\<close>, \<open>PoolApi\<close>, \<open>PoolProps\<close>: src/MemoryPool/memorypool.c over a store in which overlapping
      writes destroy each other. A block is tiled by its chunks (\<open>block_inv\<close>); taking, releasing and merging keep the invariant
      \<open>mp_inv\<close>, from which the contract of the locale \<open>allocator\<close> follows: regions never overlap, writes inside them are
      harmless, allocation and release return without a fault. The invariant needs \<open>growth_ok\<close>: a pool that grows may double.
      The limits in InitServer.c (300 MB, at most 500 MB) do not satisfy it; \<open>MemoryPoolFree_small_block\<close> shows what
      happens then.
    \<^item> \<open>Startup\<close>: InitServer.c, the release in main.c, PrintAllUserAndIotDevice.c, ManualCtrlMode.c, DateCmp.c. Every row that
      fits its fields signs in after the start; the listing is complete; the release is a use after free.
    \<^item> \<open>Udp\<close>: UdpInit.c, Udp_send.c, UdpPackResolve.c. No datagram faults; a datagram can be lost to the next one.

  \<^bold>\<open>Faults of the code.\<close> Where the code has undefined behaviour the model has it too, and a theorem states under which
  condition it is reached (signing in twice, removing a middle entry, a long PIN, commands of the top server, the
  application version, the release at the end). Theorems that exclude faults carry the conditions under which the code
  is free of them.

  \<^bold>\<open>Not modelled.\<close> The MySQL headers and client library (src/MYSQL), the stpool library (src/libstpool; the build without
  it uses libThreadPool.c) and the digest library are third-party code. Logging (log.c, log_print.c) and the probes
  of the processor load and of the public address are output and input of the operating system. Of InitServer.c and main.c the
  calls that create sockets, threads and files are left out, of the memory pool the two usage quotients in floating
  point; StartThread.c is not called.
\<close>

end
